(* ===== verification/Prelude.thy ===== *)
theory Prelude
  imports Complex_Main
begin

text \<open>
  Shared vocabulary of the development. Python dictionaries preserve insertion
  order, so every dictionary of the model is an association list whose keys are
  distinct; \<open>alist_set\<close> is the effect of \<^verbatim>\<open>d[k] = v\<close> on such a list (a
  present key keeps its position, a new key is appended), and \<open>add_key\<close> is
  the same effect on the key order alone. The lemmas here are the generic facts
  on association lists that the component theories share: lookup and key order
  after a store, the fold of stores, and extensionality (two association lists
  with distinct keys, the same key order and the same lookup are equal).
\<close>

named_theorems alist_simps "lookup and key-order rules for association-list stores"

type_synonym ('k, 'v) alist = "('k \<times> 'v) list"

fun alist_set :: "('k, 'v) alist \<Rightarrow> 'k \<Rightarrow> 'v \<Rightarrow> ('k, 'v) alist" where
  "alist_set [] k v = [(k, v)]"
| "alist_set ((k', v') # ps) k v =
     (if k' = k then (k, v) # ps else (k', v') # alist_set ps k v)"

definition add_key :: "'k list \<Rightarrow> 'k \<Rightarrow> 'k list" where
  "add_key ks k = (if k \<in> set ks then ks else ks @ [k])"

subsection \<open>Stores into an association list\<close>

lemma map_of_alist_set [simp, alist_simps]:
  "map_of (alist_set ps k v) = (map_of ps)(k \<mapsto> v)"
  by (induction ps) (auto simp: fun_eq_iff)

lemma keys_alist_set [simp, alist_simps]:
  "map fst (alist_set ps k v) = add_key (map fst ps) k"
  by (induction ps k v rule: alist_set.induct) (auto simp: add_key_def)

lemma set_add_key [simp, alist_simps]: "set (add_key ks k) = insert k (set ks)"
  by (auto simp: add_key_def)

lemma distinct_add_key [simp, alist_simps]: "distinct (add_key ks k) = distinct ks"
  by (auto simp: add_key_def)

lemma add_key_present [alist_simps]: "k \<in> set ks \<Longrightarrow> add_key ks k = ks"
  by (simp add: add_key_def)

lemma alist_set_present:
  "map_of ps k = Some v \<Longrightarrow> alist_set ps k v = ps"
  by (induction ps) (auto split: if_splits)

lemma alist_set_twice [simp]:
  "alist_set (alist_set ps k v) k w = alist_set ps k w"
  by (induction ps) auto

subsection \<open>Folds of stores\<close>

lemma set_fold_add_key [simp, alist_simps]:
  "set (fold (\<lambda>k ks. add_key ks k) xs ks) = set ks \<union> set xs"
  by (induction xs arbitrary: ks) auto

lemma distinct_fold_add_key [simp, alist_simps]:
  "distinct (fold (\<lambda>k ks. add_key ks k) xs ks) = distinct ks"
  by (induction xs arbitrary: ks) auto

lemma fold_add_key_present:
  "set xs \<subseteq> set ks \<Longrightarrow> fold (\<lambda>k ks. add_key ks k) xs ks = ks"
  by (induction xs arbitrary: ks) (auto simp: add_key_present)

lemma fold_add_key_prefix:
  "\<exists>zs. fold (\<lambda>k ks. add_key ks k) xs ks = ks @ zs"
proof (induction xs arbitrary: ks)
  case Nil
  then show ?case by simp
next
  case (Cons x xs)
  obtain zs where "fold (\<lambda>k ks. add_key ks k) xs (add_key ks x) = add_key ks x @ zs"
    using Cons.IH by blast
  then show ?case by (auto simp: add_key_def)
qed

lemma fold_add_key_distinct:
  "distinct (ks @ xs) \<Longrightarrow> fold (\<lambda>k ks. add_key ks k) xs ks = ks @ xs"
  by (induction xs arbitrary: ks) (auto simp: add_key_def)

lemma fold_add_key_filter:
  "distinct xs \<Longrightarrow> fold (\<lambda>k ks. add_key ks k) xs ks = ks @ filter (\<lambda>k. k \<notin> set ks) xs"
proof (induction xs arbitrary: ks)
  case Nil
  then show ?case by simp
next
  case (Cons x xs)
  then have "x \<notin> set xs" and "distinct xs" by simp_all
  then have "filter (\<lambda>k. k \<notin> set (ks @ [x])) xs = filter (\<lambda>k. k \<notin> set ks) xs"
    by (auto intro: filter_cong)
  with Cons.IH [OF \<open>distinct xs\<close>] show ?case by (simp add: add_key_def)
qed

subsection \<open>Extensionality\<close>

lemma map_of_rev_distinct:
  "distinct (map fst u) \<Longrightarrow> map_of (rev u) = map_of u"
proof (induction u)
  case Nil
  then show ?case by simp
next
  case (Cons p u)
  obtain k v where p: "p = (k, v)" by fastforce
  with Cons.prems have "map_of u k = None" by (simp add: map_of_eq_None_iff)
  with Cons p show ?case by (auto simp: map_add_def fun_eq_iff split: option.split)
qed


lemma alist_eq_rebuild:
  "distinct (map fst xs) \<Longrightarrow> map (\<lambda>k. (k, the (map_of xs k))) (map fst xs) = xs"
proof (induction xs)
  case Nil
  then show ?case by simp
next
  case (Cons p xs)
  obtain k v where p: "p = (k, v)" by fastforce
  with Cons.prems have "k \<notin> set (map fst xs)" by simp
  then have "map (\<lambda>k'. (k', the (map_of ((k, v) # xs) k'))) (map fst xs)
           = map (\<lambda>k'. (k', the (map_of xs k'))) (map fst xs)"
    by auto
  with Cons p show ?case by simp
qed

lemma alist_ext:
  assumes "distinct (map fst xs)" and "map fst xs = map fst ys"
    and "map_of xs = map_of ys"
  shows "xs = ys"
proof -
  from assms(1,2) have "distinct (map fst ys)" by simp
  then have "ys = map (\<lambda>k. (k, the (map_of ys k))) (map fst ys)"
    by (rule alist_eq_rebuild [symmetric])
  also have "\<dots> = map (\<lambda>k. (k, the (map_of xs k))) (map fst xs)"
    using assms(2,3) by simp
  also have "\<dots> = xs" using assms(1) by (rule alist_eq_rebuild)
  finally show ?thesis ..
qed

end
