(* ===== verification/PyDict.thy ===== *)
theory PyDict
  imports Prelude
begin

text \<open>
  The dictionary values the configuration is made of. \<^verbatim>\<open>src/pyEPR/_config_default.py\<close>
  builds its configuration with \<^verbatim>\<open>Dict\<close>, which the package re-exports from the
  \<^verbatim>\<open>addict\<close> library: a subclass of \<^verbatim>\<open>dict\<close> whose \<^verbatim>\<open>update\<close> merges nested
  dictionaries recursively, whose attribute reads fall back to item reads (a missing
  key yields a fresh child that attaches itself to its parent on its first store),
  and whose attribute stores are item stores except for the names of the class's own
  methods. That library is not part of this repository; the operations the source
  calls are modelled here from its documented behaviour:
  \<^item> \<open>pyval\<close>: the Python values that occur (None, bool, int, float literals as exact
    rationals, str, and dictionaries tagged with whether they are addict \<open>Dict\<close>s or
    plain \<open>dict\<close>s, whose updates differ);
  \<^item> \<open>plain_update\<close>: \<^verbatim>\<open>dict.update(mapping)\<close>, a store per item;
  \<^item> \<open>dict_items\<close>: \<^verbatim>\<open>other = {}; other.update(arg)\<close>, the copy \<open>Dict.update\<close> makes
    of its argument, with the TypeError and ValueError of a non-mapping argument;
  \<^item> \<open>addict_merge\<close> and \<open>addict_update\<close>: \<^verbatim>\<open>Dict.update\<close>;
  \<^item> \<open>setattr_path\<close>: an attribute store \<^verbatim>\<open>d.a.b.c = v\<close> through addict's
    \<^verbatim>\<open>__getattr__\<close>, \<^verbatim>\<open>__missing__\<close> and \<^verbatim>\<open>__setattr__\<close>;
  \<^item> \<open>lookup_path\<close>: a chain of item reads \<^verbatim>\<open>d[a][b]\<close>, the way the rest of the
    package reads the settings.
  Python exceptions are the \<open>Inl\<close> values of \<open>pyerror + _\<close>.
\<close>

datatype dkind = AddictDict | PlainDict

datatype pyval =
    VNone
  | VBool bool
  | VInt int
  | VFloat rat
  | VStr string
  | VDict dkind "(string \<times> pyval) list"

type_synonym pydict = "(string, pyval) alist"

datatype pyerror =
    AttributeError string
  | TypeError
  | ValueError
  | NameError string
  | ImportError string
  | UserModuleException

subsection \<open>Well-formed values\<close>

text \<open>Every dictionary of a Python program has distinct keys, at every depth.\<close>

fun wf_val :: "pyval \<Rightarrow> bool" where
  "wf_val (VDict _ items) = (distinct (map fst items) \<and> list_all (\<lambda>(k, v). wf_val v) items)"
| "wf_val _ = True"

abbreviation wf_dict :: "pydict \<Rightarrow> bool" where
  "wf_dict d \<equiv> wf_val (VDict AddictDict d)"

subsection \<open>Reading a chain of keys\<close>

fun lookup_path :: "pyval \<Rightarrow> string list \<Rightarrow> pyval option"
  and lookup_items :: "pydict \<Rightarrow> string \<Rightarrow> string list \<Rightarrow> pyval option" where
  "lookup_path v [] = Some v"
| "lookup_path (VDict _ items) (k # ks) = lookup_items items k ks"
| "lookup_path _ (_ # _) = None"
| "lookup_items [] k ks = None"
| "lookup_items ((k', v) # rest) k ks =
     (if k' = k then lookup_path v ks else lookup_items rest k ks)"

abbreviation cfg_get :: "pydict \<Rightarrow> string list \<Rightarrow> pyval option" where
  "cfg_get d p \<equiv> lookup_path (VDict AddictDict d) p"

subsection \<open>\<^verbatim>\<open>dict.update\<close> and the argument copy of \<^verbatim>\<open>Dict.update\<close>\<close>

definition plain_update :: "('k, 'v) alist \<Rightarrow> ('k, 'v) alist \<Rightarrow> ('k, 'v) alist" where
  "plain_update d items = fold (\<lambda>(k, v) acc. alist_set acc k v) items d"

fun dict_items :: "pyval \<Rightarrow> pyerror + pydict" where
  "dict_items (VDict _ items) = Inr (plain_update [] items)"
| "dict_items (VStr s) = (if s = [] then Inr [] else Inl ValueError)"
| "dict_items _ = Inl TypeError"

subsection \<open>\<^verbatim>\<open>Dict.update\<close>: the recursive merge\<close>

text \<open>
  \<^verbatim>\<open>
  for k, v in other.items():
      if ((k not in self) or (not isinstance(self[k], dict))
              or (not isinstance(v, dict))):
          self[k] = v
      else:
          self[k].update(v)
  \<close>
  The nested \<^verbatim>\<open>self[k].update(v)\<close> is addict's own update when \<^verbatim>\<open>self[k]\<close> is an
  addict \<open>Dict\<close>, and the one-level \<^verbatim>\<open>dict.update\<close> when it is a plain \<open>dict\<close>.
  The nested call receives \<open>v\<close>'s items directly: its copy \<open>other\<close> of a dictionary
  with distinct keys is that dictionary (\<open>plain_update_Nil\<close>).
\<close>

fun addict_merge :: "pydict \<Rightarrow> pydict \<Rightarrow> pydict" where
  "addict_merge self [] = self"
| "addict_merge self ((k, v) # rest) =
     addict_merge
       (case (map_of self k, v) of
          (Some (VDict AddictDict sub), VDict _ vitems) \<Rightarrow>
            alist_set self k (VDict AddictDict (addict_merge sub vitems))
        | (Some (VDict PlainDict sub), VDict _ vitems) \<Rightarrow>
            alist_set self k (VDict PlainDict (plain_update sub vitems))
        | _ \<Rightarrow> alist_set self k v)
       rest"

definition addict_update :: "pydict \<Rightarrow> pyval \<Rightarrow> pyerror + pydict" where
  "addict_update self arg =
     (case dict_items arg of
        Inl e \<Rightarrow> Inl e
      | Inr other \<Rightarrow> Inr (addict_merge self other))"

text \<open>The value a key of \<open>self\<close> holds after the merge of an item \<open>v\<close>.\<close>

definition merge_value :: "pyval option \<Rightarrow> pyval \<Rightarrow> pyval" where
  "merge_value old v =
     (case (old, v) of
        (Some (VDict AddictDict sub), VDict _ vitems) \<Rightarrow> VDict AddictDict (addict_merge sub vitems)
      | (Some (VDict PlainDict sub), VDict _ vitems) \<Rightarrow> VDict PlainDict (plain_update sub vitems)
      | _ \<Rightarrow> v)"

subsection \<open>Attribute stores through addict's \<^verbatim>\<open>__getattr__\<close> and \<^verbatim>\<open>__setattr__\<close>\<close>

text \<open>
  \<^verbatim>\<open>d.a = v\<close> runs addict's \<^verbatim>\<open>__setattr__\<close>: it raises AttributeError ("attribute is
  read-only") when \<^verbatim>\<open>hasattr(Dict, a)\<close>, and is \<^verbatim>\<open>d[a] = v\<close> otherwise.
  \<^verbatim>\<open>hasattr(Dict, a)\<close> holds for the names of \<open>dict_dir_attrs\<close>, what
  \<^verbatim>\<open>dir(Dict)\<close> lists (the attributes of \<^verbatim>\<open>Dict\<close>, \<^verbatim>\<open>dict\<close> and \<^verbatim>\<open>object\<close>), and for
  those of \<open>dict_type_attrs\<close>, which a class has through its metaclass \<^verbatim>\<open>type\<close>.
  The lists are those of CPython 3.11 with addict 2.4.0.

  \<^verbatim>\<open>d.a.b = v\<close> first reads \<^verbatim>\<open>d.a\<close>. Instance lookup finds the names of
  \<open>dict_dir_attrs\<close> and the three instance attributes addict's constructor sets
  (\<open>dict_getattr_attrs\<close>), but not the metaclass's; every other name goes to
  \<^verbatim>\<open>__getattr__\<close>, which gives the item when present and a fresh child \<^verbatim>\<open>Dict\<close>
  when missing (the child stores itself into \<open>d\<close> once something is stored into
  it). Only an addict \<^verbatim>\<open>Dict\<close> accepts the next store. None of the attributes
  found by lookup is one (they are methods, \<^verbatim>\<open>None\<close>, \<^verbatim>\<open>False\<close>, strings and
  \<^verbatim>\<open>dict\<close>s), so a store through one of them raises AttributeError; the one
  exception is \<open>__class__\<close>, the class object itself, on which Python would set a
  class attribute: the model has no class objects and reports that store as the
  same AttributeError.
\<close>

definition dict_dir_attrs :: "string list" where
  "dict_dir_attrs =
     [''__add__'', ''__class__'', ''__class_getitem__'', ''__contains__'', ''__deepcopy__'',
      ''__delattr__'', ''__delitem__'', ''__dict__'', ''__dir__'', ''__doc__'', ''__eq__'',
      ''__format__'', ''__ge__'', ''__getattr__'', ''__getattribute__'', ''__getitem__'',
      ''__getnewargs__'', ''__getstate__'', ''__gt__'', ''__hash__'', ''__init__'',
      ''__init_subclass__'', ''__ior__'', ''__iter__'', ''__le__'', ''__len__'', ''__lt__'',
      ''__missing__'', ''__module__'', ''__ne__'', ''__new__'', ''__or__'', ''__reduce__'',
      ''__reduce_ex__'', ''__repr__'', ''__reversed__'', ''__ror__'', ''__setattr__'',
      ''__setitem__'', ''__setstate__'', ''__sizeof__'', ''__str__'', ''__subclasshook__'',
      ''__weakref__'', ''_hook'', ''clear'', ''copy'', ''deepcopy'', ''freeze'', ''fromkeys'',
      ''get'', ''items'', ''keys'', ''pop'', ''popitem'', ''setdefault'', ''to_dict'',
      ''unfreeze'', ''update'', ''values'']"

definition dict_type_attrs :: "string list" where
  "dict_type_attrs =
     [''__annotations__'', ''__base__'', ''__bases__'', ''__basicsize__'', ''__call__'',
      ''__dictoffset__'', ''__flags__'', ''__instancecheck__'', ''__itemsize__'', ''__mro__'',
      ''__name__'', ''__prepare__'', ''__qualname__'', ''__subclasscheck__'',
      ''__subclasses__'', ''__text_signature__'', ''__weakrefoffset__'', ''mro'']"

definition dict_class_attrs :: "string list" where
  "dict_class_attrs = dict_dir_attrs @ dict_type_attrs"

definition dict_getattr_attrs :: "string list" where
  "dict_getattr_attrs = dict_dir_attrs @ [''__parent'', ''__key'', ''__frozen'']"

fun setattr_path :: "pydict \<Rightarrow> string \<Rightarrow> string list \<Rightarrow> pyval \<Rightarrow> pyerror + pydict" where
  "setattr_path d a [] v =
     (if a \<in> set dict_class_attrs then Inl (AttributeError a)
      else Inr (alist_set d a v))"
| "setattr_path d a (b # bs) v =
     (if a \<in> set dict_getattr_attrs then Inl (AttributeError b)
      else
        (case map_of d a of
           None \<Rightarrow>
             (case setattr_path [] b bs v of
                Inl e \<Rightarrow> Inl e
              | Inr child \<Rightarrow> Inr (alist_set d a (VDict AddictDict child)))
         | Some (VDict AddictDict sub) \<Rightarrow>
             (case setattr_path sub b bs v of
                Inl e \<Rightarrow> Inl e
              | Inr sub' \<Rightarrow> Inr (alist_set d a (VDict AddictDict sub')))
         | Some _ \<Rightarrow> Inl (AttributeError b)))"

subsection \<open>Lemmas on \<^verbatim>\<open>dict.update\<close>\<close>

lemmas dict_attrs_defs = dict_class_attrs_def dict_getattr_attrs_def dict_dir_attrs_def dict_type_attrs_def

lemma map_of_plain_update:
  "map_of (plain_update d u) = map_of d ++ map_of (rev u)"
  by (induction u arbitrary: d) (auto simp: plain_update_def map_add_def fun_eq_iff split: option.split)

lemma keys_plain_update:
  "map fst (plain_update d u) = fold (\<lambda>k ks. add_key ks k) (map fst u) (map fst d)"
  by (induction u arbitrary: d) (auto simp: plain_update_def)

lemma plain_update_Nil:
  assumes "distinct (map fst u)"
  shows "plain_update [] u = u"
proof (rule alist_ext)
  show "distinct (map fst (plain_update [] u))"
    by (simp add: keys_plain_update)
  show "map fst (plain_update [] u) = map fst u"
    using assms by (simp add: keys_plain_update fold_add_key_distinct)
  show "map_of (plain_update [] u) = map_of u"
    using assms by (simp add: map_of_plain_update map_of_rev_distinct)
qed

subsection \<open>Lemmas on the merge: key order, lookup, well-formedness\<close>

lemma addict_merge_Cons:
  "addict_merge self ((k, v) # rest) =
     addict_merge (alist_set self k (merge_value (map_of self k) v)) rest"
  by (simp add: merge_value_def split: option.split pyval.split dkind.split)

declare addict_merge.simps(2) [simp del]

lemma keys_addict_merge:
  "map fst (addict_merge d u) = fold (\<lambda>k ks. add_key ks k) (map fst u) (map fst d)"
  by (induction u arbitrary: d) (auto simp: addict_merge_Cons)

lemma map_of_addict_merge:
  "distinct (map fst u) \<Longrightarrow>
   map_of (addict_merge d u) k =
     (case map_of u k of None \<Rightarrow> map_of d k | Some v \<Rightarrow> Some (merge_value (map_of d k) v))"
proof (induction u arbitrary: d)
  case Nil
  then show ?case by simp
next
  case (Cons p u)
  obtain k' v where p: "p = (k', v)" by fastforce
  with Cons.prems have u: "distinct (map fst u)" and k': "map_of u k' = None"
    by (auto simp: map_of_eq_None_iff)
  show ?case
    using Cons.IH [OF u] k' p by (auto simp: addict_merge_Cons split: option.split)
qed

lemma list_all_alist_set:
  "list_all P ps \<Longrightarrow> P (k, v) \<Longrightarrow> list_all P (alist_set ps k v)"
  by (induction ps) auto

lemma wf_map_of:
  "wf_val (VDict kd d) \<Longrightarrow> map_of d k = Some v \<Longrightarrow> wf_val v"
  by (auto simp: list_all_iff dest!: map_of_SomeD)

lemma wf_alist_set:
  "wf_val (VDict kd d) \<Longrightarrow> wf_val v \<Longrightarrow> wf_val (VDict kd (alist_set d k v))"
  by (auto intro: list_all_alist_set)

lemma wf_plain_update:
  "wf_val (VDict kd d) \<Longrightarrow> wf_val (VDict kd' u) \<Longrightarrow> wf_val (VDict kd (plain_update d u))"
proof (induction u arbitrary: d)
  case Nil
  then show ?case by (simp add: plain_update_def)
next
  case (Cons p u)
  obtain k v where p: "p = (k, v)" by fastforce
  with Cons.prems have "wf_val (VDict kd (alist_set d k v))"
    by (intro wf_alist_set) auto
  moreover from Cons.prems have "wf_val (VDict kd' u)" by simp
  ultimately show ?case using Cons.IH p by (simp add: plain_update_def)
qed

lemma wf_addict_merge:
  "wf_val (VDict kd d) \<Longrightarrow> wf_val (VDict kd' u) \<Longrightarrow> wf_val (VDict kd (addict_merge d u))"
proof (induction d u arbitrary: kd kd' rule: addict_merge.induct)
  case (1 self)
  then show ?case by simp
next
  case (2 self k v rest)
  from "2.prems"(2) have v: "wf_val v" and rest: "wf_val (VDict kd' rest)" by auto
  have "wf_val (VDict kd (case (map_of self k, v) of
          (Some (VDict AddictDict sub), VDict _ vitems) \<Rightarrow>
            alist_set self k (VDict AddictDict (addict_merge sub vitems))
        | (Some (VDict PlainDict sub), VDict _ vitems) \<Rightarrow>
            alist_set self k (VDict PlainDict (plain_update sub vitems))
        | _ \<Rightarrow> alist_set self k v))"
    using "2.prems"(1) v "2.IH"(1)
    by (auto simp del: wf_val.simps(1) intro!: wf_alist_set wf_plain_update dest: wf_map_of
             split: option.split pyval.split dkind.split)
  with "2.IH"(2) rest show ?case by (simp add: addict_merge.simps(2) del: wf_val.simps(1))
qed


subsection \<open>Idempotence of the merge\<close>

lemma size_item_less:
  "(k, v) \<in> set u \<Longrightarrow> size v < size (VDict kd u)"
  by (induction u) auto

lemma plain_update_idem:
  assumes "distinct (map fst d)" and "distinct (map fst u)"
  shows "plain_update (plain_update d u) u = plain_update d u"
proof (rule alist_ext)
  show "distinct (map fst (plain_update (plain_update d u) u))"
    using assms(1) by (simp add: keys_plain_update)
  show "map fst (plain_update (plain_update d u) u) = map fst (plain_update d u)"
    by (simp add: keys_plain_update fold_add_key_present)
  show "map_of (plain_update (plain_update d u) u) = map_of (plain_update d u)"
    by (simp add: map_of_plain_update map_add_def fun_eq_iff split: option.split)
qed

lemma addict_merge_Nil_left:
  "distinct (map fst u) \<Longrightarrow> addict_merge [] u = u"
  by (rule alist_ext)
     (auto simp: keys_addict_merge fold_add_key_distinct map_of_addict_merge
        merge_value_def fun_eq_iff split: option.split)

lemma plain_update_self:
  "distinct (map fst u) \<Longrightarrow> plain_update u u = u"
  using plain_update_idem [of "[]" u] by (simp add: plain_update_Nil)

lemma merge_value_idem:
  assumes v: "wf_val v" and old: "\<And>x. old = Some x \<Longrightarrow> wf_val x"
    and IH: "\<And>kv vi d. v = VDict kv vi \<Longrightarrow> wf_dict d \<Longrightarrow>
               addict_merge (addict_merge d vi) vi = addict_merge d vi"
  shows "merge_value (Some (merge_value old v)) v = merge_value old v"
proof (cases v)
  case (VDict kv vi)
  with v have vi: "distinct (map fst vi)" "wf_dict vi" by auto
  have self: "addict_merge vi vi = vi"
    using IH [OF VDict, of "[]"] vi by (simp add: addict_merge_Nil_left)
  show ?thesis
  proof (cases "\<exists>ko sub. old = Some (VDict ko sub)")
    case True
    then obtain ko sub where o: "old = Some (VDict ko sub)" by blast
    with old have sub: "wf_dict sub" "distinct (map fst sub)" by auto
    show ?thesis
      using o VDict IH [OF VDict sub(1)] plain_update_idem [OF sub(2) vi(1)]
      by (cases ko) (simp_all add: merge_value_def)
  next
    case False
    then have "merge_value old v = v"
      using VDict by (auto simp: merge_value_def split: option.split pyval.split)
    then show ?thesis
      using VDict self plain_update_self [OF vi(1)]
      by (cases kv) (simp_all add: merge_value_def)
  qed
qed (simp_all add: merge_value_def split: option.split pyval.split dkind.split)

lemma addict_merge_idem:
  "wf_dict d \<Longrightarrow> wf_dict u \<Longrightarrow> addict_merge (addict_merge d u) u = addict_merge d u"
proof (induction u arbitrary: d rule: measure_induct_rule [where f = "\<lambda>u. size (VDict AddictDict u)"])
  case (less u)
  from less.prems have dd: "distinct (map fst d)" and du: "distinct (map fst u)" by simp_all
  have mv: "merge_value (Some (merge_value (map_of d k) v)) v = merge_value (map_of d k) v"
    if kv: "map_of u k = Some v" for k v
  proof -
    from kv have mem: "(k, v) \<in> set u" by (rule map_of_SomeD)
    with less.prems(2) have wv: "wf_val v" by (auto simp: list_all_iff)
    show ?thesis
    proof (rule merge_value_idem)
      show "wf_val v" by (rule wv)
      show "\<And>x. map_of d k = Some x \<Longrightarrow> wf_val x" using less.prems(1) wf_map_of by blast
    next
      fix kv' vi d'
      assume v: "v = VDict kv' vi" and d': "wf_dict d'"
      have "size (VDict AddictDict vi) < size (VDict AddictDict u)"
        using size_item_less [OF mem, of AddictDict] v by simp
      moreover have "wf_dict vi" using wv v by simp
      ultimately show "addict_merge (addict_merge d' vi) vi = addict_merge d' vi"
        using less.IH d' by blast
    qed
  qed
  show ?case
  proof (rule alist_ext)
    show "distinct (map fst (addict_merge (addict_merge d u) u))"
      using dd by (simp add: keys_addict_merge)
    show "map fst (addict_merge (addict_merge d u) u) = map fst (addict_merge d u)"
      by (simp add: keys_addict_merge fold_add_key_present)
    show "map_of (addict_merge (addict_merge d u) u) = map_of (addict_merge d u)"
      using mv by (auto simp: fun_eq_iff map_of_addict_merge [OF du] split: option.split)
  qed
qed


subsection \<open>Paths and attribute stores\<close>

lemma lookup_items_eq [simp]:
  "lookup_items items k ks = (case map_of items k of None \<Rightarrow> None | Some v \<Rightarrow> lookup_path v ks)"
  by (induction items) auto

declare lookup_items.simps [simp del]

lemma setattr_path_Inr_lookup:
  "setattr_path d a as v = Inr d' \<Longrightarrow> cfg_get d' (a # as) = Some v"
proof (induction as arbitrary: d a d')
  case Nil
  then have "d' = alist_set d a v" by (simp split: if_splits)
  then show ?case by simp
next
  case (Cons b bs)
  then show ?case
    by (auto split: if_splits option.splits pyval.splits dkind.splits sum.splits)
qed

lemma setattr_path_keys:
  "setattr_path d a as v = Inr d' \<Longrightarrow> map fst d' = add_key (map fst d) a"
  by (induction d a as v rule: setattr_path.induct)
     (auto split: if_splits option.splits pyval.splits dkind.splits sum.splits)

lemma setattr_path_other:
  "setattr_path d a as v = Inr d' \<Longrightarrow> k \<noteq> a \<Longrightarrow> map_of d' k = map_of d k"
  by (induction d a as v rule: setattr_path.induct)
     (auto split: if_splits option.splits pyval.splits dkind.splits sum.splits)

lemma wf_setattr_path:
  "setattr_path d a as v = Inr d' \<Longrightarrow> wf_dict d \<Longrightarrow> wf_val v \<Longrightarrow> wf_dict d'"
proof (induction d a as v arbitrary: d' rule: setattr_path.induct)
  case (1 d a v)
  then have "d' = alist_set d a v" by (simp split: if_splits)
  with "1.prems" show ?case by (simp add: wf_alist_set del: wf_val.simps(1))
next
  case (2 d a b bs v)
  show ?case
  proof (cases "map_of d a")
    case None
    with "2.prems" obtain child where c: "setattr_path [] b bs v = Inr child"
      and d': "d' = alist_set d a (VDict AddictDict child)"
      by (auto split: if_splits sum.splits)
    with "2.IH"(1) [OF _ None] "2.prems" have "wf_dict child"
      by (auto split: if_splits)
    with d' "2.prems"(2) show ?thesis by (simp add: wf_alist_set del: wf_val.simps(1))
  next
    case (Some x)
    with "2.prems" obtain sub sub' where x: "x = VDict AddictDict sub"
      and c: "setattr_path sub b bs v = Inr sub'"
      and d': "d' = alist_set d a (VDict AddictDict sub')"
      by (auto split: if_splits sum.splits pyval.splits dkind.splits)
    from wf_map_of [OF "2.prems"(2) Some] x have "wf_dict sub" by simp
    with "2.IH"(2) [OF _ Some [unfolded x]] c "2.prems" have "wf_dict sub'"
      by (auto split: if_splits)
    with d' "2.prems"(2) show ?thesis by (simp add: wf_alist_set del: wf_val.simps(1))
  qed
qed

lemma setattr_path_keys_Nil:
  "setattr_path [] b bs v = Inr child \<Longrightarrow> map fst child = [b]"
  using setattr_path_keys [of "[]" b bs v child] by (simp add: add_key_def)

lemma setattr_path_sibling:
  assumes "setattr_path d a (b # bs) v = Inr d'" and "(x, y) \<noteq> (a, b)"
  shows "cfg_get d' (x # y # p) = cfg_get d (x # y # p)"
proof (cases "x = a")
  case False
  with setattr_path_other [OF assms(1)] show ?thesis by simp
next
  case True
  with assms(2) have yb: "y \<noteq> b" by simp
  show ?thesis
  proof (cases "map_of d a")
    case None
    with assms(1) obtain child where c: "setattr_path [] b bs v = Inr child"
      and d': "d' = alist_set d a (VDict AddictDict child)"
      by (auto split: if_splits sum.splits)
    from setattr_path_keys_Nil [OF c] yb have "y \<notin> set (map fst child)" by simp
    then have "map_of child y = None" by (simp add: map_of_eq_None_iff)
    with None d' True show ?thesis by simp
  next
    case (Some z)
    with assms(1) obtain sub sub' where z: "z = VDict AddictDict sub"
      and c: "setattr_path sub b bs v = Inr sub'"
      and d': "d' = alist_set d a (VDict AddictDict sub')"
      by (auto split: if_splits sum.splits pyval.splits dkind.splits)
    from setattr_path_other [OF c yb] Some z d' True show ?thesis by simp
  qed
qed

subsection \<open>Merging into a merge-stable dictionary\<close>

text \<open>A dictionary \<open>x\<close> is stable under \<open>u\<close> when merging \<open>u\<close> into it changes
  nothing; every result of a merge is (\<open>addict_merge_idem\<close>). A store into a stable
  dictionary commutes with a later merge, and a successful attribute store survives it.\<close>

lemma stable_keys:
  "addict_merge x u = x \<Longrightarrow> set (map fst u) \<subseteq> set (map fst x)"
  using keys_addict_merge [of x u] by (metis set_fold_add_key sup.orderI)

lemma merge_value_stable:
  assumes "addict_merge x u = x" and "distinct (map fst u)" and "map_of u j = Some w"
  shows "merge_value (map_of x j) w = the (map_of x j)"
proof -
  have "map_of (addict_merge x u) j = Some (merge_value (map_of x j) w)"
    using assms(3) by (simp add: map_of_addict_merge [OF assms(2)])
  then show ?thesis using assms(1) by (metis option.sel)
qed

lemma addict_merge_alist_set_stable:
  assumes stable: "addict_merge x u = x" and dx: "distinct (map fst x)"
    and du: "distinct (map fst u)"
  shows "addict_merge (alist_set x k y) u =
           alist_set x k (case map_of u k of None \<Rightarrow> y | Some w \<Rightarrow> merge_value (Some y) w)"
proof (rule alist_ext)
  have sub: "fold (\<lambda>k ks. add_key ks k) (map fst u) (add_key (map fst x) k) = add_key (map fst x) k"
    by (rule fold_add_key_present) (use stable_keys [OF stable] in auto)
  show "distinct (map fst (addict_merge (alist_set x k y) u))"
    using dx by (simp add: keys_addict_merge)
  show "map fst (addict_merge (alist_set x k y) u) =
        map fst (alist_set x k (case map_of u k of None \<Rightarrow> y | Some w \<Rightarrow> merge_value (Some y) w))"
    using sub by (simp add: keys_addict_merge)
  show "map_of (addict_merge (alist_set x k y) u) =
        map_of (alist_set x k (case map_of u k of None \<Rightarrow> y | Some w \<Rightarrow> merge_value (Some y) w))"
  proof
    fix j
    show "map_of (addict_merge (alist_set x k y) u) j =
          map_of (alist_set x k (case map_of u k of None \<Rightarrow> y | Some w \<Rightarrow> merge_value (Some y) w)) j"
    proof (cases "j = k")
      case True
      then show ?thesis by (simp add: map_of_addict_merge [OF du] split: option.split)
    next
      case False
      show ?thesis
      proof (cases "map_of u j")
        case None
        with False show ?thesis by (simp add: map_of_addict_merge [OF du])
      next
        case (Some w)
        then have "j \<in> set (map fst u)" by (cases "j \<in> set (map fst u)") (auto simp: map_of_eq_None_iff [symmetric])
        with stable_keys [OF stable] have "j \<in> set (map fst x)" by blast
        then obtain z where z: "map_of x j = Some z"
          by (cases "map_of x j") (auto simp: map_of_eq_None_iff)
        with merge_value_stable [OF stable du Some] have "merge_value (Some z) w = z" by simp
        with False Some z show ?thesis by (simp add: map_of_addict_merge [OF du])
      qed
    qed
  qed
qed

lemma setattr_path_stable:
  assumes set: "setattr_path m a [b] v = Inr c"
    and stable: "addict_merge m u = m" and wm: "wf_dict m" and wu: "wf_dict u"
  shows "setattr_path (addict_merge c u) a [b] v = Inr c"
proof -
  from wm wu have dm: "distinct (map fst m)" and du: "distinct (map fst u)" by simp_all
  from set have na: "a \<notin> set dict_getattr_attrs" and nb: "b \<notin> set dict_class_attrs"
    by (auto split: if_splits option.splits pyval.splits dkind.splits)
  show ?thesis
  proof (cases "map_of m a")
    case None
    with set nb have c: "c = alist_set m a (VDict AddictDict [(b, v)])"
      by (simp add: na)
    from None stable_keys [OF stable] have "map_of u a = None"
      by (auto simp: map_of_eq_None_iff)
    with c have "addict_merge c u = c"
      by (simp add: addict_merge_alist_set_stable [OF stable dm du])
    with c na nb show ?thesis by simp
  next
    case (Some z)
    with set na obtain sub where z: "z = VDict AddictDict sub"
      and c: "c = alist_set m a (VDict AddictDict (alist_set sub b v))"
      by (auto simp: nb split: pyval.splits dkind.splits)
    from wf_map_of [OF wm Some] z have wsub: "wf_dict sub" by simp
    have "\<exists>X2. (case map_of u a of None \<Rightarrow> VDict AddictDict (alist_set sub b v)
                 | Some w \<Rightarrow> merge_value (Some (VDict AddictDict (alist_set sub b v))) w)
               = VDict AddictDict X2 \<and> alist_set X2 b v = alist_set sub b v"
    proof (cases "map_of u a")
      case None
      then show ?thesis by simp
    next
      case (Some w)
      from merge_value_stable [OF stable du Some] \<open>map_of m a = Some z\<close> z
      have mv: "merge_value (Some (VDict AddictDict sub)) w = VDict AddictDict sub" by simp
      show ?thesis
      proof (cases w)
        case (VDict kw I)
        with mv have sI: "addict_merge sub I = sub" by (simp add: merge_value_def)
        from wf_map_of [OF wu Some] VDict have wI: "wf_dict I" by simp
        have "addict_merge (alist_set sub b v) I =
              alist_set sub b (case map_of I b of None \<Rightarrow> v | Some w' \<Rightarrow> merge_value (Some v) w')"
          using wsub wI by (simp add: addict_merge_alist_set_stable [OF sI])
        with Some VDict show ?thesis by (simp add: merge_value_def)
      qed (use mv in \<open>simp_all add: merge_value_def\<close>)
    qed
    then obtain X2 where x2: "(case map_of u a of None \<Rightarrow> VDict AddictDict (alist_set sub b v)
                 | Some w \<Rightarrow> merge_value (Some (VDict AddictDict (alist_set sub b v))) w)
               = VDict AddictDict X2" and x2b: "alist_set X2 b v = alist_set sub b v"
      by blast
    have "addict_merge c u = alist_set m a (VDict AddictDict X2)"
      using c x2 by (simp add: addict_merge_alist_set_stable [OF stable dm du])
    with c x2b na nb show ?thesis by simp
  qed
qed


subsection \<open>Properties of \<^verbatim>\<open>Dict.update\<close> and attribute stores\<close>

lemma addict_update_idempotent:
  assumes "wf_dict d" and "wf_val u" and "addict_update d u = Inr d'"
  shows "addict_update d' u = Inr d'"
proof (cases u)
  case (VDict kd items)
  with assms(2) have items: "distinct (map fst items)" "wf_dict items" by simp_all
  with assms(3) VDict have d': "d' = addict_merge d items"
    by (simp add: addict_update_def plain_update_Nil)
  from addict_merge_idem [OF assms(1) items(2)] d' VDict items(1) show ?thesis
    by (simp add: addict_update_def plain_update_Nil)
next
  case (VStr s)
  with assms(3) show ?thesis by (auto simp: addict_update_def split: if_splits)
qed (use assms(3) in \<open>simp_all add: addict_update_def\<close>)

lemma setattr_path_roundtrip:
  assumes "setattr_path d a as v = Inr d'"
  shows "cfg_get d' (a # as) = Some v \<and> map fst d' = add_key (map fst d) a
         \<and> (\<forall>k. k \<noteq> a \<longrightarrow> map_of d' k = map_of d k)"
  using setattr_path_Inr_lookup [OF assms] setattr_path_keys [OF assms]
    setattr_path_other [OF assms] by blast

lemma addict_update_key_order:
  assumes "wf_val (VDict kd u)" and "addict_update d (VDict kd u) = Inr d'"
  shows "map fst d' = map fst d @ filter (\<lambda>k. k \<notin> set (map fst d)) (map fst u)"
proof -
  from assms(1) have u: "distinct (map fst u)" by simp
  with assms(2) have "d' = addict_merge d u"
    by (simp add: addict_update_def plain_update_Nil)
  with u show ?thesis by (simp add: keys_addict_merge fold_add_key_filter)
qed

lemma addict_update_arg_errors:
  "(\<exists>e. addict_update d arg = Inl e) =
     (case arg of VDict _ _ \<Rightarrow> False | VStr s \<Rightarrow> s \<noteq> [] | _ \<Rightarrow> True)
   \<and> addict_update d (VStr []) = Inr d
   \<and> addict_update d (VStr (c # cs)) = Inl ValueError
   \<and> addict_update d VNone = Inl TypeError
   \<and> addict_update d (VBool b) = Inl TypeError
   \<and> addict_update d (VInt i) = Inl TypeError
   \<and> addict_update d (VFloat r) = Inl TypeError"
  by (cases arg) (simp_all add: addict_update_def)

end
