(* ===== verification/ConfigDefault.thy ===== *)
theory ConfigDefault
  imports PyDict
begin

text \<open>
  The default settings table of \<^verbatim>\<open>src/pyEPR/_config_default.py\<close> (lines 20--113):
  the module-level \<^verbatim>\<open>config = Dict(root_dir=..., ansys=Dict(...), ...)\<close>, one
  definition per section in the order of the source, keyword arguments in their
  order (addict's constructor stores them in that order). Float literals are their
  exact decimal values; the raw string \<^verbatim>\<open>r'C:\data-pyEPR'\<close> contains a backslash
  (character 0x5C), and the missing-import message starts with an escaped newline
  and continues over three source lines. \<open>required_sections\<close> and \<open>has_sections\<close>
  state the data-model invariant of the specification: the top-level keys the rest
  of the package relies on.
\<close>

definition root_dir_default :: string where
  "root_dir_default = ''C:'' @ [CHR 0x5C] @ ''data-pyEPR''"

definition ansys_defaults :: pydict where
  "ansys_defaults =
     [(''method_calc_P_mj'', VStr ''line_voltage''),
      (''save_mesh_stats'', VBool True)]"

definition dissipation_defaults :: pydict where
  "dissipation_defaults =
     [(''tan_delta_sapp'', VFloat (1 / 1000000)),
      (''epsi'', VInt 10),
      (''th'', VFloat (3 / 1000000000)),
      (''eps_r'', VInt 10),
      (''tan_delta_surf'', VFloat (1 / 1000)),
      (''surface_Rs'', VFloat (250 / 1000000000)),
      (''gseam'', VFloat 1000)]"

definition plotting_defaults :: pydict where
  "plotting_defaults = [(''default_color_map'', VStr ''viridis'')]"

definition error_msg_missing_import :: string where
  "error_msg_missing_import =
     [CHR 0x0A] @ ''   If you need a part of pyEPR that uses this package,'' @ [CHR 0x0A] @
     ''        then please install it. Then add it to the system path (if needed).'' @
     [CHR 0x0A] @ ''        See online setup instructions at'' @ [CHR 0x0A] @
     ''        github.com/zlatko-minev/pyEPR''"

definition internal_defaults :: pydict where
  "internal_defaults =
     [(''ipython'', VNone),
      (''error_msg_missing_import'', VStr error_msg_missing_import),
      (''warn_missing_import'', VBool False)]"

definition log_defaults :: pydict where
  "log_defaults =
     [(''format'', VStr ''%(asctime)s %(levelname)s [%(funcName)s]: %(message)s''),
      (''datefmt'', VStr ''%I:%M%p %Ss''),
      (''level'', VStr ''INFO'')]"

definition default_config :: pydict where
  "default_config =
     [(''root_dir'', VStr root_dir_default),
      (''ansys'', VDict AddictDict ansys_defaults),
      (''dissipation'', VDict AddictDict dissipation_defaults),
      (''plotting'', VDict AddictDict plotting_defaults),
      (''internal'', VDict AddictDict internal_defaults),
      (''log'', VDict AddictDict log_defaults)]"

definition section_names :: "string list" where
  "section_names = [''ansys'', ''dissipation'', ''plotting'', ''internal'', ''log'']"

definition required_sections :: "string list" where
  "required_sections = ''root_dir'' # section_names"

definition has_sections :: "pydict \<Rightarrow> bool" where
  "has_sections d = list_all (\<lambda>k. k \<in> set (map fst d)) required_sections"

definition nonempty_section :: "pydict \<Rightarrow> string \<Rightarrow> bool" where
  "nonempty_section d k =
     (case map_of d k of Some (VDict AddictDict sub) \<Rightarrow> sub \<noteq> [] | _ \<Rightarrow> False)"

lemmas default_sections_defs =
  default_config_def ansys_defaults_def dissipation_defaults_def plotting_defaults_def
  internal_defaults_def log_defaults_def

lemma wf_default_config: "wf_dict default_config"
  by (simp add: default_sections_defs)

lemma has_sections_default: "has_sections default_config"
  by (simp add: has_sections_def required_sections_def section_names_def default_config_def)

lemma has_sections_mono:
  "has_sections d \<Longrightarrow> set (map fst d) \<subseteq> set (map fst d') \<Longrightarrow> has_sections d'"
  by (auto simp: has_sections_def list_all_iff)

lemma default_internal:
  "map_of default_config ''internal'' = Some (VDict AddictDict internal_defaults)"
  by (simp add: default_config_def)

end
