(* ===== verification/GetConfig.thy ===== *)
theory GetConfig
  imports ConfigDefault
begin

text \<open>
  The module \<^verbatim>\<open>src/pyEPR/_config_default.py\<close> as a stateful component: its two
  globals \<^verbatim>\<open>__config_defined__\<close> and \<^verbatim>\<open>config\<close>, and the printed lines, form
  the record \<open>modstate\<close>; executing the module body (first import or
  \<^verbatim>\<open>importlib.reload\<close>) is \<open>exec_module\<close>; the probe \<^verbatim>\<open>is_using_ipython\<close> and the
  accessor \<^verbatim>\<open>get_config\<close> are functions of the process environment \<open>env\<close> (the
  builtins the probe reads, and the user's \<^verbatim>\<open>config_user\<close> module) and of the state.
  Every exception \<^verbatim>\<open>get_config\<close> lets escape is an \<open>Inl\<close> result, returned together
  with the state as it stands when the exception is raised: a failure after the merge
  leaves the merged configuration installed.
\<close>

text \<open>
  The package's \<^verbatim>\<open>config_user\<close> module, which is not part of the sources: missing,
  raising while it is executed, lacking the attribute \<^verbatim>\<open>config\<close>, or defining it.
\<close>

datatype user_module =
    UserModuleMissing
  | UserModuleRaises
  | UserModuleNoConfig
  | UserModule pyval

record env =
  builtins :: "string \<rightharpoonup> pyval"
  config_user :: user_module

record modstate =
  config :: pydict
  config_defined :: bool
  stdout :: "string list"

subsection \<open>Executing the module body (lines 14--20)\<close>

text \<open>
  \<^verbatim>\<open>__config_defined__ = 'config' in locals()\<close> is evaluated in the module namespace:
  false on the first import, true when the module is reloaded, since the namespace
  keeps the previous \<^verbatim>\<open>config\<close>. The next statement rebinds \<^verbatim>\<open>config\<close> to a fresh
  default table in both cases.
\<close>

definition exec_module :: "modstate option \<Rightarrow> modstate" where
  "exec_module prev =
     (case prev of
        None \<Rightarrow> \<lparr>config = default_config, config_defined = False, stdout = []\<rparr>
      | Some s \<Rightarrow> s\<lparr>config := default_config, config_defined := True\<rparr>)"

subsection \<open>The environment probe (lines 116--126)\<close>

definition name_lookup :: "env \<Rightarrow> string \<Rightarrow> pyerror + pyval" where
  "name_lookup e x = (case builtins e x of None \<Rightarrow> Inl (NameError x) | Some v \<Rightarrow> Inr v)"

definition is_using_ipython :: "env \<Rightarrow> bool" where
  "is_using_ipython e =
     (case name_lookup e ''__IPYTHON__'' of Inr _ \<Rightarrow> True | Inl _ \<Rightarrow> False)"

subsection \<open>The accessor (lines 129--155)\<close>

text \<open>\<^verbatim>\<open>from . import config_user\<close> followed by the read of \<^verbatim>\<open>config_user.config\<close>.\<close>

definition import_config_user :: "env \<Rightarrow> pyerror + pyval" where
  "import_config_user e =
     (case config_user e of
        UserModuleMissing \<Rightarrow> Inl (ImportError ''config_user'')
      | UserModuleRaises \<Rightarrow> Inl UserModuleException
      | UserModuleNoConfig \<Rightarrow> Inl (AttributeError ''config'')
      | UserModule v \<Rightarrow> Inr v)"

definition get_config :: "env \<Rightarrow> modstate \<Rightarrow> modstate \<times> (pyerror + pydict)" where
  "get_config e s =
     (if config_defined s then
        (s\<lparr>stdout := stdout s @ [''Config is already defined.'']\<rparr>, Inr (config s))
      else
        (let s1 = s\<lparr>stdout := stdout s @ [''First time load of config'']\<rparr> in
         case import_config_user e of
           Inl err \<Rightarrow> (s1, Inl err)
         | Inr user \<Rightarrow>
             (case addict_update (config s1) user of
                Inl err \<Rightarrow> (s1, Inl err)
              | Inr merged \<Rightarrow>
                  (let s2 = s1\<lparr>config := merged\<rparr> in
                   case setattr_path (config s2) ''internal'' [''ipython'']
                          (VBool (is_using_ipython e)) of
                     Inl err \<Rightarrow> (s2, Inl err)
                   | Inr c \<Rightarrow> (s2\<lparr>config := c\<rparr>, Inr c)))))"

definition fresh_module :: modstate where
  "fresh_module = exec_module None"

definition wf_user :: "env \<Rightarrow> bool" where
  "wf_user e = (case config_user e of UserModule v \<Rightarrow> wf_val v | _ \<Rightarrow> True)"

text \<open>Example environments: the override of the specification's example, an override
  that replaces the \<open>internal\<close> section by None, and one that replaces the
  \<open>ansys\<close> section by an integer.\<close>

definition spec_example_env :: env where
  "spec_example_env =
     \<lparr>builtins = Map.empty,
      config_user = UserModule (VDict AddictDict [(''dissipation'', VDict AddictDict [(''epsi'', VInt 12)])])\<rparr>"

definition internal_none_env :: env where
  "internal_none_env =
     \<lparr>builtins = Map.empty, config_user = UserModule (VDict AddictDict [(''internal'', VNone)])\<rparr>"

definition ansys_int_env :: env where
  "ansys_int_env =
     \<lparr>builtins = Map.empty, config_user = UserModule (VDict AddictDict [(''ansys'', VInt 5)])\<rparr>"

subsection \<open>The branches of \<^verbatim>\<open>get_config\<close>\<close>

lemmas get_config_eval =
  get_config_def fresh_module_def exec_module_def import_config_user_def addict_update_def
  plain_update_def addict_merge_Cons merge_value_def default_sections_defs
  is_using_ipython_def name_lookup_def dict_attrs_defs

lemma get_config_first_Inr:
  assumes "\<not> config_defined s" and run: "get_config e s = (s', Inr c)"
  obtains user merged where "import_config_user e = Inr user"
    and "addict_update (config s) user = Inr merged"
    and "setattr_path merged ''internal'' [''ipython''] (VBool (is_using_ipython e)) = Inr c"
    and "s' = s\<lparr>stdout := stdout s @ [''First time load of config''], config := c\<rparr>"
proof (cases "import_config_user e")
  case (Inl err)
  with assms show ?thesis by (simp add: get_config_def)
next
  case (Inr user)
  note imp = Inr
  show ?thesis
  proof (cases "addict_update (config s) user")
    case (Inl err)
    with assms imp show ?thesis by (simp add: get_config_def)
  next
    case (Inr m)
    note upd = Inr
    show ?thesis
    proof (cases "setattr_path m ''internal'' [''ipython''] (VBool (is_using_ipython e))")
      case (Inl err)
      with assms imp upd show ?thesis by (simp add: get_config_def del: setattr_path.simps)
    next
      case (Inr c')
      with assms(1) imp upd have "get_config e s = (s\<lparr>stdout := stdout s @ [''First time load of config''],
          config := c'\<rparr>, Inr c')"
        by (simp add: get_config_def del: setattr_path.simps)
      with run have "c' = c" and "s' = s\<lparr>stdout := stdout s @ [''First time load of config''],
          config := c\<rparr>" by auto
      with that imp upd Inr show ?thesis by blast
    qed
  qed
qed

lemma get_config_cases:
  obtains (same) "config (fst (get_config e s)) = config s"
  | (merged) user where "import_config_user e = Inr user"
      and "addict_update (config s) user = Inr (config (fst (get_config e s)))"
  | (stored) user m where "import_config_user e = Inr user"
      and "addict_update (config s) user = Inr m"
      and "setattr_path m ''internal'' [''ipython''] (VBool (is_using_ipython e))
             = Inr (config (fst (get_config e s)))"
proof (cases "config_defined s")
  case True
  then show ?thesis using same by (simp add: get_config_def)
next
  case False
  show ?thesis
  proof (cases "import_config_user e")
    case (Inl err)
    with False show ?thesis using same by (simp add: get_config_def)
  next
    case (Inr user)
    note imp = Inr
    show ?thesis
    proof (cases "addict_update (config s) user")
      case (Inl err)
      with False imp show ?thesis using same by (simp add: get_config_def)
    next
      case (Inr m)
      note upd = Inr
      show ?thesis
      proof (cases "setattr_path m ''internal'' [''ipython''] (VBool (is_using_ipython e))")
        case (Inl err)
        with False imp upd show ?thesis using merged [of user]
          by (simp add: get_config_def del: setattr_path.simps)
      next
        case (Inr c)
        with False imp upd show ?thesis using stored [of user m]
          by (simp add: get_config_def del: setattr_path.simps)
      qed
    qed
  qed
qed

lemma addict_update_Inr:
  assumes "addict_update d u = Inr d'"
  obtains other where "dict_items u = Inr other" and "d' = addict_merge d other"
  using assms by (auto simp: addict_update_def split: sum.splits)

lemma dict_items_wf:
  assumes "dict_items u = Inr other" and "wf_val u"
  shows "wf_dict other"
proof (cases u)
  case (VDict kd items)
  with assms have "other = items" by (simp add: plain_update_Nil)
  with assms(2) VDict show ?thesis by simp
qed (use assms in \<open>auto split: if_splits\<close>)

lemma addict_update_keys_mono:
  assumes "addict_update d u = Inr d'"
  shows "set (map fst d) \<subseteq> set (map fst d')"
proof -
  obtain other where "d' = addict_merge d other"
    using assms by (rule addict_update_Inr)
  then show ?thesis by (simp add: keys_addict_merge)
qed

lemma addict_update_wf:
  assumes "addict_update d u = Inr d'" and "wf_dict d" and "wf_val u"
  shows "wf_dict d'"
proof -
  obtain other where o: "dict_items u = Inr other" and d': "d' = addict_merge d other"
    using assms(1) by (rule addict_update_Inr)
  from o assms(3) have "wf_dict other" by (rule dict_items_wf)
  with assms(2) d' show ?thesis by (simp add: wf_addict_merge del: wf_val.simps(1))
qed

lemma setattr_path_keys_mono:
  "setattr_path d a as v = Inr d' \<Longrightarrow> set (map fst d) \<subseteq> set (map fst d')"
  by (drule setattr_path_keys) (metis set_add_key subset_insertI)

lemma get_config_keys_mono:
  "set (map fst (config s)) \<subseteq> set (map fst (config (fst (get_config e s))))"
proof (cases rule: get_config_cases [of e s])
  case same
  then show ?thesis by simp
next
  case (merged user)
  then show ?thesis by (blast dest: addict_update_keys_mono)
next
  case (stored user m)
  then show ?thesis by (blast dest: addict_update_keys_mono setattr_path_keys_mono)
qed

lemma get_config_defined_same [simp]:
  "config_defined (fst (get_config e s)) = config_defined s"
  by (simp add: get_config_def Let_def split: sum.splits)

lemma import_config_user_wf:
  "wf_user e \<Longrightarrow> import_config_user e = Inr user \<Longrightarrow> wf_val user"
  by (auto simp: wf_user_def import_config_user_def split: user_module.splits)

lemma get_config_wf:
  assumes "wf_dict (config s)" and "wf_user e"
  shows "wf_dict (config (fst (get_config e s)))"
proof (cases rule: get_config_cases [of e s])
  case same
  with assms show ?thesis by simp
next
  case (merged user)
  with assms show ?thesis by (blast dest: import_config_user_wf addict_update_wf)
next
  case (stored user m)
  with assms have "wf_dict m" by (blast dest: import_config_user_wf addict_update_wf)
  with stored(3) show ?thesis by (rule wf_setattr_path) simp
qed


lemma addict_update_dict:
  "wf_val (VDict kd u) \<Longrightarrow> addict_update d (VDict kd u) = Inr (addict_merge d u)"
  by (simp add: addict_update_def plain_update_Nil)

lemma get_config_stdout_first:
  "\<not> config_defined s \<Longrightarrow>
   stdout (fst (get_config e s)) = stdout s @ [''First time load of config'']"
  by (simp add: get_config_def Let_def del: setattr_path.simps split: sum.split)

lemma nonempty_section_merge:
  assumes "nonempty_section d k" and "distinct (map fst u)"
    and "case map_of u k of Some (VDict _ _) \<Rightarrow> True | None \<Rightarrow> True | Some _ \<Rightarrow> False"
  shows "nonempty_section (addict_merge d u) k"
proof -
  from assms(1) obtain sub where sub: "map_of d k = Some (VDict AddictDict sub)" "sub \<noteq> []"
    by (auto simp: nonempty_section_def split: option.splits pyval.splits dkind.splits)
  show ?thesis
  proof (cases "map_of u k")
    case None
    with sub show ?thesis by (simp add: nonempty_section_def map_of_addict_merge [OF assms(2)])
  next
    case (Some v)
    with assms(3) obtain kv vi where v: "v = VDict kv vi"
      by (auto split: pyval.splits)
    obtain zs where "fold (\<lambda>k ks. add_key ks k) (map fst vi) (map fst sub) = map fst sub @ zs"
      using fold_add_key_prefix by blast
    with sub(2) have "map fst (addict_merge sub vi) \<noteq> []" by (simp add: keys_addict_merge)
    then have "addict_merge sub vi \<noteq> []" by auto
    with Some v sub show ?thesis
      by (simp add: nonempty_section_def map_of_addict_merge [OF assms(2)] merge_value_def)
  qed
qed

lemma nonempty_section_setattr:
  assumes "nonempty_section d k" and "setattr_path d a (b # bs) v = Inr d'"
  shows "nonempty_section d' k"
proof (cases "k = a")
  case False
  with setattr_path_other [OF assms(2)] assms(1) show ?thesis
    by (simp add: nonempty_section_def)
next
  case True
  from assms(1) obtain sub where sub: "map_of d k = Some (VDict AddictDict sub)" "sub \<noteq> []"
    by (auto simp: nonempty_section_def split: option.splits pyval.splits dkind.splits)
  with True assms(2) obtain sub' where c: "setattr_path sub b bs v = Inr sub'"
    and d': "d' = alist_set d a (VDict AddictDict sub')"
    by (auto split: if_splits sum.splits)
  from setattr_path_keys [OF c] have "sub' \<noteq> []"
    by (auto simp: add_key_def split: if_splits)
  with d' True show ?thesis by (simp add: nonempty_section_def)
qed

lemma get_config_first_config:
  assumes "\<not> config_defined s" and "import_config_user e = Inr user"
    and "addict_update (config s) user = Inr m"
  shows "config (fst (get_config e s)) =
           (case setattr_path m ''internal'' [''ipython''] (VBool (is_using_ipython e)) of
              Inl _ \<Rightarrow> m | Inr c \<Rightarrow> c)"
  using assms by (simp add: get_config_def del: setattr_path.simps split: sum.split)

lemma map_of_plain_update_Nil_None:
  "map_of u k = None \<Longrightarrow> map_of (plain_update [] u) k = None"
  by (simp add: map_of_plain_update map_of_eq_None_iff)

lemma get_config_untouched_key:
  assumes "config_user e = UserModule (VDict kd u)" and "map_of u k = None"
    and "k \<noteq> ''internal''"
  shows "map_of (config (fst (get_config e s))) k = map_of (config s) k"
proof -
  let ?o = "plain_update [] u"
  have o: "distinct (map fst ?o)" "map_of ?o k = None"
    using assms(2) by (simp_all add: keys_plain_update map_of_plain_update_Nil_None)
  have upd: "addict_update d (VDict kd u) = Inr (addict_merge d ?o)" for d
    by (simp add: addict_update_def)
  have keep: "map_of (addict_merge d ?o) k = map_of d k" for d
    using o by (simp add: map_of_addict_merge)
  show ?thesis
  proof (cases rule: get_config_cases [of e s])
    case same
    then show ?thesis by simp
  next
    case (merged user)
    from merged(1) assms(1) have "user = VDict kd u" by (simp add: import_config_user_def)
    with merged(2) upd have "config (fst (get_config e s)) = addict_merge (config s) ?o" by simp
    with keep show ?thesis by simp
  next
    case (stored user m)
    from stored(1) assms(1) have "user = VDict kd u" by (simp add: import_config_user_def)
    with stored(2) upd have "m = addict_merge (config s) ?o" by simp
    with setattr_path_other [OF stored(3) assms(3)] keep show ?thesis by simp
  qed
qed

subsection \<open>Properties of the accessor\<close>

text \<open>
  C2. The first call merges the user's override recursively (addict's
  \<^verbatim>\<open>Dict.update\<close>), not section by section: in a section that both the defaults and
  the override hold as dictionaries, a key the override does not mention keeps its
  value, a key it sets to a non-dictionary takes the override's value, and a nested
  dictionary is merged again (\<open>merge_value\<close>); only \<open>internal.ipython\<close> is then
  overwritten by the probe.
\<close>

theorem get_config_deep_merge:
  assumes "\<not> config_defined s" and "config_user e = UserModule (VDict kd u)"
    and "wf_val (VDict kd u)"
    and "map_of (config s) sec = Some (VDict AddictDict dsec)"
    and "map_of u sec = Some (VDict ks items)"
    and "get_config e s = (s', Inr c)"
    and "(sec, k) \<noteq> (''internal'', ''ipython'')"
  shows "cfg_get c [sec, k] =
           (case map_of items k of
              None \<Rightarrow> map_of dsec k
            | Some v \<Rightarrow> Some (merge_value (map_of dsec k) v))"
proof -
  from assms(3) have du: "distinct (map fst u)" by simp
  from wf_map_of [OF assms(3) assms(5)] have di: "distinct (map fst items)" by simp
  obtain user merged where imp: "import_config_user e = Inr user"
    and upd: "addict_update (config s) user = Inr merged"
    and set: "setattr_path merged ''internal'' [''ipython''] (VBool (is_using_ipython e)) = Inr c"
    using assms(1,6) by (rule get_config_first_Inr)
  from imp assms(2) have "user = VDict kd u" by (simp add: import_config_user_def)
  with upd assms(3) have m: "merged = addict_merge (config s) u"
    by (simp add: addict_update_dict)
  have "map_of merged sec = Some (VDict AddictDict (addict_merge dsec items))"
    using m assms(4,5) by (simp add: map_of_addict_merge [OF du] merge_value_def)
  then have "cfg_get merged [sec, k] =
      (case map_of items k of None \<Rightarrow> map_of dsec k | Some v \<Rightarrow> Some (merge_value (map_of dsec k) v))"
    by (simp add: map_of_addict_merge [OF di] split: option.split)
  moreover have "cfg_get c [sec, k] = cfg_get merged [sec, k]"
    using setattr_path_sibling [OF set assms(7), of "[]"] by simp
  ultimately show ?thesis by simp
qed

theorem get_config_deep_merge_witness:
  "cfg_get (projr (snd (get_config spec_example_env fresh_module))) [''dissipation'', ''epsi'']
     = Some (VInt 12)
   \<and> cfg_get (projr (snd (get_config spec_example_env fresh_module))) [''dissipation'', ''th'']
     = Some (VFloat (3 / 1000000000))"
proof -
  have run: "get_config spec_example_env fresh_module
      = (fst (get_config spec_example_env fresh_module),
         Inr (projr (snd (get_config spec_example_env fresh_module))))"
    by (simp add: get_config_eval spec_example_env_def)
  have pre: "\<not> config_defined fresh_module"
    "config_user spec_example_env
       = UserModule (VDict AddictDict [(''dissipation'', VDict AddictDict [(''epsi'', VInt 12)])])"
    "wf_val (VDict AddictDict [(''dissipation'', VDict AddictDict [(''epsi'', VInt 12)])])"
    "map_of (config fresh_module) ''dissipation'' = Some (VDict AddictDict dissipation_defaults)"
    "map_of [(''dissipation'', VDict AddictDict [(''epsi'', VInt 12)])] ''dissipation''
       = Some (VDict AddictDict [(''epsi'', VInt 12)])"
    by (simp_all add: fresh_module_def exec_module_def spec_example_env_def default_config_def)
  show ?thesis
    using get_config_deep_merge [OF pre run, of "''epsi''"]
      get_config_deep_merge [OF pre run, of "''th''"]
    by (simp add: merge_value_def dissipation_defaults_def)
qed

text \<open>
  C3. After a first call that returns, \<open>internal.ipython\<close> holds a boolean, never the
  None placeholder of the defaults: the probe's answer, which is whether the name
  \<^verbatim>\<open>__IPYTHON__\<close> is bound (the probe catches the NameError and never raises).
\<close>

theorem get_config_sets_ipython:
  assumes "\<not> config_defined s" and "get_config e s = (s', Inr c)"
  shows "cfg_get c [''internal'', ''ipython''] = Some (VBool (is_using_ipython e))
         \<and> is_using_ipython e = (builtins e ''__IPYTHON__'' \<noteq> None)"
proof -
  obtain user merged where
    "setattr_path merged ''internal'' [''ipython''] (VBool (is_using_ipython e)) = Inr c"
    using assms by (rule get_config_first_Inr)
  from setattr_path_Inr_lookup [OF this] show ?thesis
    by (simp add: is_using_ipython_def name_lookup_def split: option.split)
qed

theorem get_config_sets_ipython_witness:
  "cfg_get (projr (snd (get_config spec_example_env fresh_module))) [''internal'', ''ipython'']
     = Some (VBool False)"
proof -
  have pre: "\<not> config_defined fresh_module"
    by (simp add: fresh_module_def exec_module_def)
  have run: "get_config spec_example_env fresh_module
      = (fst (get_config spec_example_env fresh_module),
         Inr (projr (snd (get_config spec_example_env fresh_module))))"
    by (simp add: get_config_eval spec_example_env_def)
  show ?thesis
    using get_config_sets_ipython [OF pre run]
    by (simp add: is_using_ipython_def name_lookup_def spec_example_env_def)
qed

text \<open>
  C4. If the override replaces the \<open>internal\<close> section by a value that is not a
  dictionary, the first call raises AttributeError at \<^verbatim>\<open>config.internal.ipython = ...\<close>,
  after the merge has already replaced the module's configuration: the exception
  leaves a merged configuration without the probe's answer behind.
\<close>

theorem get_config_internal_replaced:
  assumes "\<not> config_defined s" and "config_user e = UserModule (VDict kd u)"
    and "wf_val (VDict kd u)" and "map_of u ''internal'' = Some x"
    and "case x of VDict _ _ \<Rightarrow> False | _ \<Rightarrow> True"
  shows "get_config e s =
           (s\<lparr>stdout := stdout s @ [''First time load of config''],
              config := addict_merge (config s) u\<rparr>,
            Inl (AttributeError ''ipython''))"
proof -
  from assms(3) have du: "distinct (map fst u)" by simp
  from assms(5) have "merge_value old x = x" for old
    by (auto simp: merge_value_def split: option.split pyval.split dkind.split)
  with assms(4) have mi: "map_of (addict_merge (config s) u) ''internal'' = Some x"
    by (simp add: map_of_addict_merge [OF du])
  have "setattr_path (addict_merge (config s) u) ''internal'' [''ipython''] b
          = Inl (AttributeError ''ipython'')" for b
    using mi assms(5) by (auto simp: dict_attrs_defs split: pyval.split dkind.split)
  with assms(1,2,3) show ?thesis
    by (simp add: get_config_def import_config_user_def addict_update_dict del: setattr_path.simps)
qed

theorem get_config_internal_replaced_witness:
  "get_config internal_none_env fresh_module =
     (fresh_module\<lparr>stdout := [''First time load of config''],
        config := addict_merge default_config [(''internal'', VNone)]\<rparr>,
      Inl (AttributeError ''ipython''))"
proof -
  have pre: "\<not> config_defined fresh_module"
    "config_user internal_none_env = UserModule (VDict AddictDict [(''internal'', VNone)])"
    "wf_val (VDict AddictDict [(''internal'', VNone)])"
    "map_of [(''internal'', VNone)] ''internal'' = Some VNone"
    "case VNone of VDict _ _ \<Rightarrow> False | _ \<Rightarrow> True"
    by (simp_all add: fresh_module_def exec_module_def internal_none_env_def)
  show ?thesis
    using get_config_internal_replaced [OF pre]
    by (simp add: fresh_module_def exec_module_def)
qed

text \<open>
  C5. \<^verbatim>\<open>get_config\<close> never sets \<^verbatim>\<open>__config_defined__\<close>: in a freshly imported
  module every call, not only the first, takes the first-load branch, prints
  "First time load of config" and merges the override again.
\<close>

theorem get_config_never_sets_defined:
  assumes "\<not> config_defined s" and "get_config e s = (s', r)"
  shows "\<not> config_defined s' \<and> stdout s' = stdout s @ [''First time load of config'']"
  using get_config_defined_same [of e s] get_config_stdout_first [OF assms(1), of e] assms
  by simp

theorem get_config_never_sets_defined_witness:
  "stdout (fst (get_config spec_example_env (fst (get_config spec_example_env fresh_module))))
     = [''First time load of config'', ''First time load of config'']"
proof -
  let ?s1 = "fst (get_config spec_example_env fresh_module)"
  have pre0: "\<not> config_defined fresh_module" by (simp add: fresh_module_def exec_module_def)
  have run0: "get_config spec_example_env fresh_module = (?s1, snd (get_config spec_example_env fresh_module))"
    by simp
  have s1: "\<not> config_defined ?s1 \<and> stdout ?s1 = [''First time load of config'']"
    using get_config_never_sets_defined [OF pre0 run0] by (simp add: fresh_module_def exec_module_def)
  then have pre1: "\<not> config_defined ?s1" by simp
  have run1: "get_config spec_example_env ?s1
      = (fst (get_config spec_example_env ?s1), snd (get_config spec_example_env ?s1))"
    by simp
  show ?thesis using get_config_never_sets_defined [OF pre1 run1] s1 by simp
qed

text \<open>
  C12. If every section of the configuration is a non-empty addict \<open>Dict\<close> and the
  override gives each section it mentions a dictionary, every section is still a
  non-empty addict \<open>Dict\<close> after the call, whichever branch it takes (merging a
  dictionary into a section only adds keys). Without the second hypothesis the
  section is replaced: see \<open>get_config_section_replaced\<close>.
\<close>

theorem get_config_sections_nonempty:
  assumes "list_all (nonempty_section (config s)) section_names"
    and "config_user e = UserModule (VDict kd u)" and "wf_val (VDict kd u)"
    and "list_all (\<lambda>k. case map_of u k of Some (VDict _ _) \<Rightarrow> True | None \<Rightarrow> True
                       | Some _ \<Rightarrow> False) section_names"
  shows "list_all (nonempty_section (config (fst (get_config e s)))) section_names"
proof -
  from assms(3) have du: "distinct (map fst u)" by simp
  have merge: "list_all (nonempty_section (addict_merge (config s) u)) section_names"
    using assms(1,4) nonempty_section_merge [OF _ du] by (auto simp: list_all_iff)
  show ?thesis
  proof (cases rule: get_config_cases [of e s])
    case same
    with assms(1) show ?thesis by simp
  next
    case (merged user)
    from merged(1) assms(2) have "user = VDict kd u" by (simp add: import_config_user_def)
    with merged(2) assms(3) have "config (fst (get_config e s)) = addict_merge (config s) u"
      by (simp add: addict_update_dict)
    with merge show ?thesis by simp
  next
    case (stored user m)
    from stored(1) assms(2) have "user = VDict kd u" by (simp add: import_config_user_def)
    with stored(2) assms(3) have "m = addict_merge (config s) u"
      by (simp add: addict_update_dict)
    with merge stored(3) show ?thesis
      by (auto simp: list_all_iff intro: nonempty_section_setattr)
  qed
qed

theorem get_config_sections_nonempty_witness:
  "list_all (nonempty_section (config (fst (get_config spec_example_env fresh_module))))
     section_names"
proof -
  have pre: "list_all (nonempty_section (config fresh_module)) section_names"
    "config_user spec_example_env
       = UserModule (VDict AddictDict [(''dissipation'', VDict AddictDict [(''epsi'', VInt 12)])])"
    "wf_val (VDict AddictDict [(''dissipation'', VDict AddictDict [(''epsi'', VInt 12)])])"
    "list_all (\<lambda>k. case map_of [(''dissipation'', VDict AddictDict [(''epsi'', VInt 12)])] k of
        Some (VDict _ _) \<Rightarrow> True | None \<Rightarrow> True | Some _ \<Rightarrow> False) section_names"
    by (simp_all add: fresh_module_def exec_module_def spec_example_env_def section_names_def
        nonempty_section_def default_sections_defs)
  show ?thesis by (rule get_config_sections_nonempty [OF pre])
qed

lemma get_config_section_replaced:
  "\<not> nonempty_section (config (fst (get_config ansys_int_env fresh_module))) ''ansys''
   \<and> cfg_get (config (fst (get_config ansys_int_env fresh_module))) [''ansys''] = Some (VInt 5)"
  by (simp add: get_config_eval ansys_int_env_def nonempty_section_def)

text \<open>
  C13. When the override cannot be obtained (no \<^verbatim>\<open>config_user\<close> module, a module
  that raises, no attribute \<^verbatim>\<open>config\<close>), the first-load branch raises that error
  with the configuration untouched; only "First time load of config" has been
  printed.
\<close>

theorem get_config_import_error:
  assumes "\<not> config_defined s" and "import_config_user e = Inl err"
  shows "get_config e s = (s\<lparr>stdout := stdout s @ [''First time load of config'']\<rparr>, Inl err)"
  using assms by (simp add: get_config_def)

theorem get_config_import_error_witness:
  "get_config \<lparr>builtins = Map.empty, config_user = UserModuleMissing\<rparr> fresh_module
     = (fresh_module\<lparr>stdout := [''First time load of config'']\<rparr>,
        Inl (ImportError ''config_user''))"
proof -
  have pre: "\<not> config_defined fresh_module" by (simp add: fresh_module_def exec_module_def)
  have imp: "import_config_user \<lparr>builtins = Map.empty, config_user = UserModuleMissing\<rparr>
      = Inl (ImportError ''config_user'')"
    by (simp add: import_config_user_def)
  show ?thesis
    using get_config_import_error [OF pre imp] by (simp add: fresh_module_def exec_module_def)
qed

text \<open>
  C11. If \<^verbatim>\<open>config_user.config\<close> is not a mapping, \<^verbatim>\<open>config.update\<close> raises before
  changing anything: TypeError for None, a bool, an int or a float, ValueError for a
  non-empty string (its items are one-character strings, not key-value pairs).
  (The empty string is an empty iterable and is accepted.)
\<close>

theorem get_config_override_not_mapping:
  assumes "\<not> config_defined s" and "config_user e = UserModule arg"
    and "case arg of VDict _ _ \<Rightarrow> False | VStr cs \<Rightarrow> cs \<noteq> [] | _ \<Rightarrow> True"
  shows "get_config e s =
           (s\<lparr>stdout := stdout s @ [''First time load of config'']\<rparr>,
            Inl (case arg of VStr _ \<Rightarrow> ValueError | _ \<Rightarrow> TypeError))"
proof -
  have "addict_update (config s) arg = Inl (case arg of VStr _ \<Rightarrow> ValueError | _ \<Rightarrow> TypeError)"
    using assms(3) by (cases arg) (simp_all add: addict_update_def)
  with assms(1,2) show ?thesis by (simp add: get_config_def import_config_user_def)
qed

theorem get_config_override_not_mapping_witness:
  "snd (get_config \<lparr>builtins = Map.empty, config_user = UserModule (VStr ''x'')\<rparr> fresh_module)
     = Inl ValueError
   \<and> snd (get_config \<lparr>builtins = Map.empty, config_user = UserModule (VInt 3)\<rparr> fresh_module)
     = Inl TypeError"
proof -
  have pre: "\<not> config_defined fresh_module" by (simp add: fresh_module_def exec_module_def)
  show ?thesis
    using get_config_override_not_mapping [OF pre, of "\<lparr>builtins = Map.empty, config_user = UserModule (VStr ''x'')\<rparr>" "VStr ''x''"]
      get_config_override_not_mapping [OF pre, of "\<lparr>builtins = Map.empty, config_user = UserModule (VInt 3)\<rparr>" "VInt 3"]
    by simp
qed

lemma first_load_stable:
  assumes "\<not> config_defined s" and "wf_dict (config s)" and "wf_user e"
    and "get_config e s = (s1, Inr c)"
    and "config s' = c" and "\<not> config_defined s'"
  shows "get_config e s' = (s'\<lparr>stdout := stdout s' @ [''First time load of config'']\<rparr>, Inr c)"
proof -
  obtain user m where imp: "import_config_user e = Inr user"
    and upd: "addict_update (config s) user = Inr m"
    and set: "setattr_path m ''internal'' [''ipython''] (VBool (is_using_ipython e)) = Inr c"
    using assms(1,4) by (rule get_config_first_Inr)
  obtain other where o: "dict_items user = Inr other" and m: "m = addict_merge (config s) other"
    using upd by (rule addict_update_Inr)
  from o import_config_user_wf [OF assms(3) imp] have wo: "wf_dict other" by (rule dict_items_wf)
  have stable: "addict_merge m other = m"
    using m assms(2) wo by (simp add: addict_merge_idem del: wf_val.simps(1))
  have wm: "wf_dict m"
    using m assms(2) wo by (simp add: wf_addict_merge del: wf_val.simps(1))
  have upd2: "addict_update c user = Inr (addict_merge c other)"
    using o by (simp add: addict_update_def)
  have "setattr_path (addict_merge c other) ''internal'' [''ipython''] (VBool (is_using_ipython e))
          = Inr c"
    by (rule setattr_path_stable [OF set stable wm wo])
  with assms(5,6) imp upd2 show ?thesis
    by (simp add: get_config_def del: setattr_path.simps)
qed

text \<open>
  C8. Calling \<^verbatim>\<open>get_config\<close> again is harmless when nobody changed the
  configuration in between: from any state holding the configuration a successful
  first load produced (and, like every state of a module that was not reloaded,
  \<^verbatim>\<open>__config_defined__\<close> false), the call merges the override once more,
  stores the probe's answer once more, and returns the very same configuration.
  This is the idempotence of addict's merge and of the attribute store over it.
\<close>

theorem get_config_repeat:
  assumes "\<not> config_defined s" and "wf_dict (config s)" and "wf_user e"
    and "get_config e s = (s1, Inr c)"
    and "config s' = c" and "\<not> config_defined s'"
  shows "get_config e s' = (s'\<lparr>stdout := stdout s' @ [''First time load of config'']\<rparr>, Inr c)"
  using assms by (rule first_load_stable)

theorem get_config_repeat_witness:
  "get_config spec_example_env (fst (get_config spec_example_env fresh_module))
     = ((fst (get_config spec_example_env fresh_module))\<lparr>stdout :=
          stdout (fst (get_config spec_example_env fresh_module)) @ [''First time load of config'']\<rparr>,
        Inr (projr (snd (get_config spec_example_env fresh_module))))"
proof -
  have pre: "\<not> config_defined fresh_module" "wf_dict (config fresh_module)"
    "wf_user spec_example_env"
    by (simp_all add: fresh_module_def exec_module_def wf_default_config del: wf_val.simps(1))
       (simp add: wf_user_def spec_example_env_def)
  have run: "get_config spec_example_env fresh_module
      = (fst (get_config spec_example_env fresh_module),
         Inr (projr (snd (get_config spec_example_env fresh_module))))"
    by (simp add: get_config_eval spec_example_env_def)
  have s1: "config (fst (get_config spec_example_env fresh_module))
      = projr (snd (get_config spec_example_env fresh_module))"
    "\<not> config_defined (fst (get_config spec_example_env fresh_module))"
    by (simp_all add: get_config_eval spec_example_env_def)
  show ?thesis by (rule get_config_repeat [OF pre run s1])
qed

text \<open>
  C10. The first load keeps the top-level keys of the configuration in their order
  and appends the override's new keys in the override's order (Python dictionaries
  are insertion-ordered), when \<open>internal\<close> is already present: the probe's store
  adds no key.
\<close>

theorem get_config_key_order:
  assumes "\<not> config_defined s" and "config_user e = UserModule (VDict kd u)"
    and "wf_val (VDict kd u)" and "''internal'' \<in> set (map fst (config s))"
  shows "map fst (config (fst (get_config e s)))
           = map fst (config s) @ filter (\<lambda>k. k \<notin> set (map fst (config s))) (map fst u)"
proof -
  have imp: "import_config_user e = Inr (VDict kd u)"
    using assms(2) by (simp add: import_config_user_def)
  have upd: "addict_update (config s) (VDict kd u) = Inr (addict_merge (config s) u)"
    using assms(3) by (simp add: addict_update_dict)
  have km: "map fst (addict_merge (config s) u)
      = map fst (config s) @ filter (\<lambda>k. k \<notin> set (map fst (config s))) (map fst u)"
    by (rule addict_update_key_order [OF assms(3) upd])
  with assms(4) have "''internal'' \<in> set (map fst (addict_merge (config s) u))" by simp
  then have "map fst c = map fst (addict_merge (config s) u)"
    if "setattr_path (addict_merge (config s) u) ''internal'' [''ipython''] b = Inr c" for b c
    using setattr_path_keys [OF that] by (simp add: add_key_present del: setattr_path.simps)
  with get_config_first_config [OF assms(1) imp upd] km show ?thesis
    by (simp del: setattr_path.simps split: sum.split)
qed

theorem get_config_key_order_witness:
  "map fst (config (fst (get_config ansys_int_env fresh_module))) = map fst default_config"
proof -
  have pre: "\<not> config_defined fresh_module"
    "config_user ansys_int_env = UserModule (VDict AddictDict [(''ansys'', VInt 5)])"
    "wf_val (VDict AddictDict [(''ansys'', VInt 5)])"
    "''internal'' \<in> set (map fst (config fresh_module))"
    by (simp_all add: fresh_module_def exec_module_def ansys_int_env_def default_config_def)
  show ?thesis
    using get_config_key_order [OF pre]
    by (simp add: fresh_module_def exec_module_def default_config_def)
qed

end
