(* ===== verification/Process.thy ===== *)
theory Process
  imports GetConfig
begin

text \<open>
  The module inside a running process. A process imports the module (once: later
  imports find it in \<^verbatim>\<open>sys.modules\<close>), may reload it, calls \<^verbatim>\<open>get_config\<close>, and,
  since every call returns the shared configuration object, may store into that
  object (\<^verbatim>\<open>config.a.b = v\<close>). Before the import the module has no state
  (\<open>None\<close>), and nothing but the import is possible. The steps are a function
  \<open>proc_step\<close> of the event; \<open>reachable\<close> collects the states of every sequence of
  events whose stored values are Python values (well-formed). The environment
  (builtins and \<^verbatim>\<open>config_user\<close> module) is fixed for a process, since
  \<^verbatim>\<open>config_user\<close> is cached after its first import.
\<close>

datatype event =
    ImportModule
  | ReloadModule
  | CallGetConfig
  | CallerSetattr string "string list" pyval

text \<open>The caller's statement \<^verbatim>\<open>cfg.a.b... = v\<close> on the object \<^verbatim>\<open>get_config\<close> returned.\<close>

definition caller_setattr :: "modstate \<Rightarrow> string \<Rightarrow> string list \<Rightarrow> pyval \<Rightarrow> modstate" where
  "caller_setattr s a as v =
     (case setattr_path (config s) a as v of Inl _ \<Rightarrow> s | Inr c \<Rightarrow> s\<lparr>config := c\<rparr>)"

fun proc_step :: "env \<Rightarrow> modstate option \<Rightarrow> event \<Rightarrow> modstate option" where
  "proc_step e None ImportModule = Some (exec_module None)"
| "proc_step e None _ = None"
| "proc_step e (Some s) ImportModule = Some s"
| "proc_step e (Some s) ReloadModule = Some (exec_module (Some s))"
| "proc_step e (Some s) CallGetConfig = Some (fst (get_config e s))"
| "proc_step e (Some s) (CallerSetattr a as v) = Some (caller_setattr s a as v)"

fun proc_run :: "env \<Rightarrow> modstate option \<Rightarrow> event list \<Rightarrow> modstate option" where
  "proc_run e p [] = p"
| "proc_run e p (ev # evs) = proc_run e (proc_step e p ev) evs"

fun wf_event :: "event \<Rightarrow> bool" where
  "wf_event (CallerSetattr a as v) = wf_val v"
| "wf_event _ = True"

inductive reachable :: "env \<Rightarrow> modstate option \<Rightarrow> bool" for e :: env where
  init: "reachable e None"
| step: "reachable e p \<Longrightarrow> wf_event ev \<Longrightarrow> reachable e (proc_step e p ev)"

definition state_inv :: "env \<Rightarrow> modstate option \<Rightarrow> bool" where
  "state_inv e p =
     (case p of None \<Rightarrow> True
      | Some s \<Rightarrow> has_sections (config s) \<and> (wf_user e \<longrightarrow> wf_dict (config s)))"

subsection \<open>Runs and reachable states\<close>

lemma reachable_run:
  "reachable e p \<Longrightarrow> list_all wf_event evs \<Longrightarrow> reachable e (proc_run e p evs)"
  by (induction evs arbitrary: p) (auto intro: reachable.step)

lemma caller_setattr_keys_mono:
  "set (map fst (config s)) \<subseteq> set (map fst (config (caller_setattr s a as v)))"
proof (cases "setattr_path (config s) a as v")
  case (Inl err)
  then show ?thesis by (simp add: caller_setattr_def)
next
  case (Inr c)
  with setattr_path_keys_mono [OF Inr] show ?thesis by (simp add: caller_setattr_def)
qed

lemma caller_setattr_wf:
  "wf_dict (config s) \<Longrightarrow> wf_val v \<Longrightarrow> wf_dict (config (caller_setattr s a as v))"
  by (auto simp: caller_setattr_def dest: wf_setattr_path split: sum.split)

lemma exec_module_config [simp]: "config (exec_module p) = default_config"
  by (simp add: exec_module_def split: option.split)

lemma state_inv_step:
  assumes "state_inv e p" and "wf_event ev"
  shows "state_inv e (proc_step e p ev)"
proof (cases p)
  case None
  then show ?thesis
    by (cases ev)
       (simp_all add: state_inv_def has_sections_default wf_default_config del: wf_val.simps(1))
next
  case (Some s)
  with assms(1) have hs: "has_sections (config s)"
    and wf: "wf_user e \<Longrightarrow> wf_dict (config s)" by (simp_all add: state_inv_def)
  show ?thesis
  proof (cases ev)
    case CallGetConfig
    have "has_sections (config (fst (get_config e s)))"
      using hs get_config_keys_mono by (rule has_sections_mono)
    moreover have "wf_user e \<Longrightarrow> wf_dict (config (fst (get_config e s)))"
      using wf get_config_wf by blast
    ultimately show ?thesis using Some CallGetConfig
      by (simp add: state_inv_def del: wf_val.simps(1))
  next
    case (CallerSetattr a as v)
    with assms(2) have v: "wf_val v" by simp
    have "has_sections (config (caller_setattr s a as v))"
      using hs caller_setattr_keys_mono by (rule has_sections_mono)
    moreover have "wf_user e \<Longrightarrow> wf_dict (config (caller_setattr s a as v))"
      using wf caller_setattr_wf v by blast
    ultimately show ?thesis using Some CallerSetattr
      by (simp add: state_inv_def del: wf_val.simps(1))
  qed (use Some hs wf in \<open>simp_all add: state_inv_def has_sections_default wf_default_config
      del: wf_val.simps(1)\<close>)
qed

lemma reachable_state_inv: "reachable e p \<Longrightarrow> state_inv e p"
proof (induction rule: reachable.induct)
  case init
  then show ?case by (simp add: state_inv_def)
next
  case (step p ev)
  from step.IH step.hyps(2) show ?case by (rule state_inv_step)
qed

subsection \<open>Invariants of the module state\<close>

text \<open>
  C1. In every reachable state of a process the configuration has the keys the
  rest of the package depends on: \<^verbatim>\<open>root_dir\<close>, \<^verbatim>\<open>ansys\<close>, \<^verbatim>\<open>dissipation\<close>,
  \<^verbatim>\<open>plotting\<close>, \<^verbatim>\<open>internal\<close> and \<^verbatim>\<open>log\<close>, whatever the override, the reloads
  and the callers' stores (none of which removes a key).
\<close>

theorem reachable_required_sections:
  assumes "reachable e (Some s)"
  shows "has_sections (config s)"
  using reachable_state_inv [OF assms] by (simp add: state_inv_def)

theorem reachable_required_sections_witness:
  "has_sections (config (the (proc_run ansys_int_env None
     [ImportModule, CallGetConfig, CallerSetattr ''root_dir'' [] (VInt 0), ReloadModule])))"
proof -
  have r: "reachable ansys_int_env (proc_run ansys_int_env None
     [ImportModule, CallGetConfig, CallerSetattr ''root_dir'' [] (VInt 0), ReloadModule])"
    by (rule reachable_run [OF reachable.init]) simp
  have "proc_run ansys_int_env None
     [ImportModule, CallGetConfig, CallerSetattr ''root_dir'' [] (VInt 0), ReloadModule]
     = Some (the (proc_run ansys_int_env None
     [ImportModule, CallGetConfig, CallerSetattr ''root_dir'' [] (VInt 0), ReloadModule]))"
    by simp
  with r show ?thesis using reachable_required_sections by metis
qed

end
