(* ===== verification/Heap.thy ===== *)
theory Heap
  imports PyDict
begin

text \<open>
  An object store for the dictionaries of the configuration. The value model of
  \<open>PyDict\<close> treats a dictionary as the value it holds; Python treats it as an
  object that several names, and several dictionaries, may refer to. Here a heap
  (\<open>heap\<close>) is a list of dictionary objects indexed by address, a value
  (\<open>hval\<close>) is a scalar or a reference \<open>HRef a\<close>, and objects are created by
  appending (\<open>alloc\<close>), so that an address, once handed out, names the same object
  for the rest of the run. \<open>h_getitem\<close> and \<open>h_setitem\<close> are \<^verbatim>\<open>d[k]\<close> and
  \<^verbatim>\<open>d[k] = v\<close> on the object at an address, mutating it in place.

  Reading a heap value back into the value model (\<open>read_val\<close>) follows
  references with a fuel bound, since a heap may contain cycles (\<open>None\<close> when the
  fuel runs out); \<open>foot_val\<close> lists the addresses such a read visits, with
  repetitions. A distinct footprint means the value is a tree of objects that share
  nothing. The lemmas show that a read only depends on the objects of its footprint
  (\<open>heap_frame\<close>), that more fuel never changes a successful read
  (\<open>read_val_mono\<close>), and that writing a Python literal into the heap
  (\<open>alloc_val\<close>, the evaluation of a dictionary display) creates fresh objects
  that read back as the literal (\<open>alloc_fresh\<close>).
\<close>

type_synonym addr = nat

datatype hval =
    HNone
  | HBool bool
  | HInt int
  | HFloat rat
  | HStr string
  | HRef addr

datatype hobj = HDict dkind "(string \<times> hval) list"

type_synonym heap = "hobj list"

definition obj :: "heap \<Rightarrow> addr \<Rightarrow> hobj option" where
  "obj h a = (if a < length h then Some (h ! a) else None)"

definition alloc :: "heap \<Rightarrow> hobj \<Rightarrow> heap \<times> addr" where
  "alloc h x = (h @ [x], length h)"

definition h_getitem :: "heap \<Rightarrow> addr \<Rightarrow> string \<Rightarrow> hval option" where
  "h_getitem h a k = (case obj h a of None \<Rightarrow> None | Some (HDict _ its) \<Rightarrow> map_of its k)"

definition h_setitem :: "heap \<Rightarrow> addr \<Rightarrow> string \<Rightarrow> hval \<Rightarrow> heap" where
  "h_setitem h a k v =
     (case obj h a of None \<Rightarrow> h | Some (HDict kd its) \<Rightarrow> h[a := HDict kd (alist_set its k v)])"

fun read_val :: "nat \<Rightarrow> heap \<Rightarrow> hval \<Rightarrow> pyval option"
  and read_items :: "nat \<Rightarrow> heap \<Rightarrow> (string \<times> hval) list \<Rightarrow> pydict option" where
  "read_val n h HNone = Some VNone"
| "read_val n h (HBool b) = Some (VBool b)"
| "read_val n h (HInt i) = Some (VInt i)"
| "read_val n h (HFloat r) = Some (VFloat r)"
| "read_val n h (HStr s) = Some (VStr s)"
| "read_val 0 h (HRef a) = None"
| "read_val (Suc n) h (HRef a) =
     (case obj h a of
        None \<Rightarrow> None
      | Some (HDict kd its) \<Rightarrow> map_option (VDict kd) (read_items n h its))"
| "read_items n h [] = Some []"
| "read_items n h ((k, v) # its) =
     (case read_val n h v of
        None \<Rightarrow> None
      | Some x \<Rightarrow> map_option (Cons (k, x)) (read_items n h its))"

fun foot_val :: "nat \<Rightarrow> heap \<Rightarrow> hval \<Rightarrow> addr list"
  and foot_items :: "nat \<Rightarrow> heap \<Rightarrow> (string \<times> hval) list \<Rightarrow> addr list" where
  "foot_val (Suc n) h (HRef a) =
     a # (case obj h a of None \<Rightarrow> [] | Some (HDict _ its) \<Rightarrow> foot_items n h its)"
| "foot_val _ h _ = []"
| "foot_items n h [] = []"
| "foot_items n h ((k, v) # its) = foot_val n h v @ foot_items n h its"

fun alloc_val :: "heap \<Rightarrow> pyval \<Rightarrow> heap \<times> hval"
  and alloc_items :: "heap \<Rightarrow> pydict \<Rightarrow> heap \<times> (string \<times> hval) list" where
  "alloc_val h VNone = (h, HNone)"
| "alloc_val h (VBool b) = (h, HBool b)"
| "alloc_val h (VInt i) = (h, HInt i)"
| "alloc_val h (VFloat r) = (h, HFloat r)"
| "alloc_val h (VStr s) = (h, HStr s)"
| "alloc_val h (VDict kd its) =
     (let (h1, hits) = alloc_items h its; (h2, a) = alloc h1 (HDict kd hits) in (h2, HRef a))"
| "alloc_items h [] = (h, [])"
| "alloc_items h ((k, v) # its) =
     (let (h1, x) = alloc_val h v; (h2, xs) = alloc_items h1 its in (h2, (k, x) # xs))"

subsection \<open>Objects and item stores\<close>

lemma obj_update [simp]:
  "obj (h[c := x]) p = (if p = c \<and> c < length h then Some x else obj h p)"
  by (auto simp: obj_def)

lemma obj_length: "obj h a = Some x \<Longrightarrow> a < length h"
  by (simp add: obj_def split: if_splits)

lemma h_getitem_obj: "obj h a = Some (HDict kd its) \<Longrightarrow> h_getitem h a k = map_of its k"
  by (simp add: h_getitem_def)

lemma h_setitem_obj:
  "obj h a = Some (HDict kd its) \<Longrightarrow> h_setitem h a k v = h[a := HDict kd (alist_set its k v)]"
  by (simp add: h_setitem_def)

lemma length_h_setitem [simp]: "length (h_setitem h a k v) = length h"
  by (simp add: h_setitem_def split: option.split hobj.split)

subsection \<open>Reading a heap value back\<close>

lemma foot_items_Cons' [simp]: "foot_items n h (p # its) = foot_val n h (snd p) @ foot_items n h its"
  by (cases p) simp

lemma read_items_Cons':
  "read_items n h (p # its) =
     (case read_val n h (snd p) of None \<Rightarrow> None
      | Some x \<Rightarrow> map_option (Cons (fst p, x)) (read_items n h its))"
  by (metis prod.collapse read_items.simps(2))

declare foot_items.simps(2) [simp del]

lemma foot_items_append [simp]:
  "foot_items n h (xs @ ys) = foot_items n h xs @ foot_items n h ys"
  by (induction xs) auto


lemma read_val_0: "read_val 0 h' v = read_val 0 h v"
  by (cases v) simp_all

lemma heap_frame:
  "(\<forall>p \<in> set (foot_val n h v). obj h' p = obj h p) \<Longrightarrow>
     read_val n h' v = read_val n h v \<and> foot_val n h' v = foot_val n h v"
  "(\<forall>p \<in> set (foot_items n h its). obj h' p = obj h p) \<Longrightarrow>
     read_items n h' its = read_items n h its \<and> foot_items n h' its = foot_items n h its"
  by (induction n h v and n h its rule: foot_val_foot_items.induct)
     (auto split: option.split hobj.split intro: read_val_0)

lemma foot_val_HRef [simp]:
  "obj h a = Some (HDict kd its) \<Longrightarrow> foot_val (Suc n) h (HRef a) = a # foot_items n h its"
  by simp

lemma read_val_HRef [simp]:
  "obj h a = Some (HDict kd its) \<Longrightarrow>
   read_val (Suc n) h (HRef a) = map_option (VDict kd) (read_items n h its)"
  by simp

declare foot_val.simps(1) [simp del] read_val.simps(7) [simp del]

lemma read_items_keys: "read_items n h its = Some s \<Longrightarrow> map fst s = map fst its"
  by (induction its arbitrary: s) (auto simp: read_items_Cons' split: option.splits)

lemma read_items_append:
  "read_items n h (xs @ ys) =
     (case read_items n h xs of None \<Rightarrow> None | Some a \<Rightarrow> map_option ((@) a) (read_items n h ys))"
  by (induction xs) (auto simp: read_items_Cons' map_option_case split: option.splits)

lemma read_items_map_of:
  "read_items n h its = Some s \<Longrightarrow>
   map_of s k = (case map_of its k of None \<Rightarrow> None | Some w \<Rightarrow> read_val n h w)"
  by (induction its arbitrary: s) (auto simp: read_items_Cons' split: option.splits)

lemma read_items_alist_set:
  "read_items n h its = Some s \<Longrightarrow> read_val n h v = Some x \<Longrightarrow>
   read_items n h (alist_set its k v) = Some (alist_set s k x)"
  by (induction its arbitrary: s) (auto simp: read_items_Cons' split: option.splits)

lemma read_items_plain_update:
  "read_items n h its = Some s \<Longrightarrow> read_items n h vits = Some vu \<Longrightarrow>
   read_items n h (plain_update its vits) = Some (plain_update s vu)"
proof (induction vits arbitrary: its s vu)
  case Nil
  then show ?case by (simp add: plain_update_def)
next
  case (Cons p vits)
  then obtain x vu' where "read_val n h (snd p) = Some x" and "read_items n h vits = Some vu'"
    and "vu = (fst p, x) # vu'"
    by (auto simp: read_items_Cons' split: option.splits)
  with Cons show ?case
    by (cases p) (simp add: plain_update_def read_items_alist_set)
qed

lemma read_val_VDict:
  "read_val n h w = Some (VDict kd s) \<Longrightarrow>
   \<exists>c m its. w = HRef c \<and> n = Suc m \<and> obj h c = Some (HDict kd its) \<and> read_items m h its = Some s"
  by (cases "(n, h, w)" rule: read_val.cases) (auto simp: read_val.simps(7) split: option.splits hobj.splits)

lemma alist_split:
  "map_of its k = Some w \<Longrightarrow> \<exists>pre post. its = pre @ (k, w) # post \<and> map_of pre k = None"
proof (induction its)
  case Nil
  then show ?case by simp
next
  case (Cons p its)
  show ?case
  proof (cases "fst p = k")
    case True
    with Cons.prems have "p = (k, w)" by (cases p) simp
    then show ?thesis by (intro exI [of _ "[]"] exI [of _ its]) simp
  next
    case False
    with Cons obtain pre post where "its = pre @ (k, w) # post" and "map_of pre k = None"
      by (cases p) auto
    with False show ?thesis by (intro exI [of _ "p # pre"] exI [of _ post]) (cases p, auto)
  qed
qed

lemma alist_set_split:
  "map_of pre k = None \<Longrightarrow> alist_set (pre @ (k, w) # post) k v = pre @ (k, v) # post"
  by (induction pre) (auto split: if_splits)

lemma alist_set_absent: "map_of its k = None \<Longrightarrow> alist_set its k v = its @ [(k, v)]"
  by (induction its) (auto split: if_splits)

lemma foot_alist_set:
  assumes "distinct (foot_items n h its @ foot_val n h v @ R)"
  shows "distinct (foot_items n h (alist_set its k v) @ R) \<and>
   set (foot_items n h (alist_set its k v)) \<subseteq> set (foot_items n h its) \<union> set (foot_val n h v)"
proof (cases "map_of its k")
  case None
  with assms show ?thesis by (auto simp: alist_set_absent)
next
  case (Some w)
  then obtain pre post where its: "its = pre @ (k, w) # post" and "map_of pre k = None"
    by (blast dest: alist_split)
  then have "alist_set its k v = pre @ (k, v) # post" by (simp add: alist_set_split)
  with assms its show ?thesis by auto
qed

lemma foot_plain_update:
  "distinct (foot_items n h its @ foot_items n h vits @ R) \<Longrightarrow>
   distinct (foot_items n h (plain_update its vits) @ R) \<and>
   set (foot_items n h (plain_update its vits)) \<subseteq> set (foot_items n h its) \<union> set (foot_items n h vits)"
proof (induction vits arbitrary: its)
  case Nil
  then show ?case by (simp add: plain_update_def)
next
  case (Cons p vits)
  obtain k v where p: "p = (k, v)" by fastforce
  from Cons.prems p have "distinct (foot_items n h its @ foot_val n h v @ (foot_items n h vits @ R))"
    by simp
  from foot_alist_set [OF this] have
    d: "distinct (foot_items n h (alist_set its k v) @ foot_items n h vits @ R)"
    and sub: "set (foot_items n h (alist_set its k v)) \<subseteq> set (foot_items n h its) \<union> set (foot_val n h v)"
    by simp_all
  from Cons.IH [OF d] sub p show ?case by (auto simp: plain_update_def)
qed

lemma foot_filter: "set (foot_items n h (filter P its)) \<subseteq> set (foot_items n h its)"
  by (induction its) auto

lemma foot_member: "map_of its k = Some w \<Longrightarrow> set (foot_val n h w) \<subseteq> set (foot_items n h its)"
  by (induction its) (auto split: if_splits)

lemma read_val_Suc:
  "read_val n h v = Some x \<Longrightarrow> read_val (Suc n) h v = Some x \<and> foot_val (Suc n) h v = foot_val n h v"
  "read_items n h its = Some s \<Longrightarrow> read_items (Suc n) h its = Some s \<and> foot_items (Suc n) h its = foot_items n h its"
proof (induction n h v and n h its arbitrary: x and s rule: read_val_read_items.induct)
  case (7 n h a)
  then show ?case
    by (auto simp: read_val.simps(7) foot_val.simps(1) split: option.splits hobj.splits)
next
  case (9 n h k v its)
  then show ?case by (auto split: option.splits)
qed (auto simp: read_val.simps(7))

lemma read_val_mono:
  assumes "read_val n h v = Some x" and "n \<le> m"
  shows "read_val m h v = Some x \<and> foot_val m h v = foot_val n h v"
  using assms(2,1)
proof (induction m rule: dec_induct)
  case base
  then show ?case by simp
next
  case (step m)
  then show ?case using read_val_Suc(1) [of m h v x] by simp
qed

lemma read_items_mono:
  assumes "read_items n h its = Some s" and "n \<le> m"
  shows "read_items m h its = Some s \<and> foot_items m h its = foot_items n h its"
  using assms(2,1)
proof (induction m rule: dec_induct)
  case base
  then show ?case by simp
next
  case (step m)
  then show ?case using read_val_Suc(2) [of m h its s] by simp
qed

lemma obj_append: "p < length h \<Longrightarrow> obj (h @ ext) p = obj h p"
  by (simp add: obj_def nth_append)

lemma alloc_fresh:
  "alloc_val h v = (h', x) \<Longrightarrow> size v \<le> n \<Longrightarrow>
     (\<exists>ext. h' = h @ ext) \<and> read_val n h' x = Some v
     \<and> distinct (foot_val n h' x) \<and> set (foot_val n h' x) \<subseteq> {length h..<length h'}"
  "alloc_items h its = (h', xs) \<Longrightarrow> (\<forall>p \<in> set its. size (snd p) \<le> n) \<Longrightarrow>
     (\<exists>ext. h' = h @ ext) \<and> read_items n h' xs = Some its
     \<and> distinct (foot_items n h' xs) \<and> set (foot_items n h' xs) \<subseteq> {length h..<length h'}"
proof (induction h v and h its arbitrary: h' x n and h' xs n rule: alloc_val_alloc_items.induct)
  case (6 h kd its)
  obtain h1 hits where ai: "alloc_items h its = (h1, hits)" by fastforce
  with "6.prems"(1) have h': "h' = h1 @ [HDict kd hits]" and x: "x = HRef (length h1)"
    by (simp_all add: alloc_def)
  from "6.prems"(2) obtain m where n: "n = Suc m" by (cases n) auto
  have "\<forall>p \<in> set its. size (snd p) \<le> m"
    using "6.prems"(2) n size_item_less [of _ _ its kd] by fastforce
  from "6.IH" [OF ai this] obtain ext where h1: "h1 = h @ ext" and r: "read_items m h1 hits = Some its"
    and d: "distinct (foot_items m h1 hits)" and s: "set (foot_items m h1 hits) \<subseteq> {length h..<length h1}"
    by blast
  have "\<forall>p \<in> set (foot_items m h1 hits). obj h' p = obj h1 p"
    using s h' obj_append by auto
  from heap_frame(2) [OF this] r d s h1 h' x n show ?case
    by (auto simp: obj_def)
next
  case (8 h k v its)
  obtain h1 x1 where av: "alloc_val h v = (h1, x1)" by fastforce
  obtain h2 xs2 where ai: "alloc_items h1 its = (h2, xs2)" by fastforce
  from "8.prems"(1) av ai have h': "h' = h2" and xs: "xs = (k, x1) # xs2" by simp_all
  have sv: "size v \<le> n" and si: "\<forall>p \<in> set its. size (snd p) \<le> n" using "8.prems"(2) by simp_all
  from "8.IH"(1) [OF av sv] obtain e1 where h1: "h1 = h @ e1"
    and r1: "read_val n h1 x1 = Some v" and d1: "distinct (foot_val n h1 x1)"
    and s1: "set (foot_val n h1 x1) \<subseteq> {length h..<length h1}" by blast
  from "8.IH"(2) [OF av [symmetric] refl ai si] obtain e2 where h2: "h2 = h1 @ e2"
    and r2: "read_items n h2 xs2 = Some its" and d2: "distinct (foot_items n h2 xs2)"
    and s2: "set (foot_items n h2 xs2) \<subseteq> {length h1..<length h2}" by blast
  have "\<forall>p \<in> set (foot_val n h1 x1). obj h2 p = obj h1 p"
    using s1 h2 obj_append by auto
  moreover have "set (foot_val n h1 x1) \<inter> set (foot_items n h2 xs2) = {}"
    using s1 s2 by (force simp: subset_iff)
  ultimately have "read_val n h2 x1 = Some v" and "foot_val n h2 x1 = foot_val n h1 x1"
    using heap_frame(1) r1 by metis+
  then show ?case using \<open>set (foot_val n h1 x1) \<inter> set (foot_items n h2 xs2) = {}\<close>
      d1 s1 r2 d2 s2 h1 h2 h' xs
    by (auto simp: read_items_Cons')
qed auto

lemma foot_lt:
  "read_val n h v = Some x \<Longrightarrow> set (foot_val n h v) \<subseteq> {..<length h}"
  "read_items n h its = Some s \<Longrightarrow> set (foot_items n h its) \<subseteq> {..<length h}"
proof (induction n h v and n h its arbitrary: x and s rule: read_val_read_items.induct)
  case (7 n h a)
  then show ?case
    by (auto simp: read_val.simps(7) foot_val.simps(1) obj_def split: option.splits hobj.splits if_splits)
next
  case (9 n h k v its)
  then show ?case by (auto split: option.splits)
qed (auto simp: read_val.simps(7))

lemma scalar_read: "read_val 0 h' v = Some x \<Longrightarrow> read_val n h v = Some x \<and> foot_val n h v = []"
  by (cases v; cases n) (auto simp: read_val.simps(7) foot_val.simps(1))

end
