(* ===== verification/HeapDict.thy ===== *)
theory HeapDict
  imports Heap
begin

text \<open>
  The operations of addict's \<^verbatim>\<open>Dict\<close> that \<^verbatim>\<open>get_config\<close> and its callers use,
  on the object store of \<open>Heap\<close>, where they mutate objects in place:
  \<^item> \<open>h_merge\<close>: the loop of \<^verbatim>\<open>Dict.update\<close>. A key whose value is a dictionary on
    both sides is merged recursively into the object \<open>self[k]\<close> already holds (by
    \<^verbatim>\<open>dict.update\<close> when that object is a plain \<open>dict\<close>); any other key is stored,
    and the stored value is the argument's own object, not a copy. On a heap with
    cycles this recursion need not end, so \<open>h_merge\<close> is a
    \<^theory_text>\<open>partial_function (option)\<close>: \<open>None\<close> is "does not return".
  \<^item> \<open>h_update\<close>: \<^verbatim>\<open>Dict.update(arg)\<close>, the copy of \<open>arg\<close>'s items followed by the loop.
  \<^item> \<open>h_setattr\<close>: \<^verbatim>\<open>d.a.b... = v\<close>, where a missing key produces a fresh child
    object (addict's \<^verbatim>\<open>__missing__\<close>) that is attached to its parent once the store
    below it has happened.

  The main results are refinements of the value model under separation: when the
  object being updated and the argument are trees of objects that share nothing,
  \<open>h_merge\<close> returns, and reading the result back gives \<open>addict_merge\<close> of the
  values read before (\<open>h_merge_sep\<close>); likewise \<open>h_setattr\<close> with a scalar value
  gives \<open>setattr_path\<close> (\<open>h_setattr_sep\<close>). The postconditions \<open>merge_post\<close> and
  \<open>setattr_post\<close> also say which objects the operation may have changed, which is
  what lets the proofs compose over the iterations of the loop and the levels of the
  recursion.
\<close>

partial_function (option) h_merge :: "heap \<Rightarrow> addr \<Rightarrow> (string \<times> hval) list \<Rightarrow> heap option" where
  "h_merge h a its =
     (case its of
        [] \<Rightarrow> Some h
      | (k, v) # rest \<Rightarrow>
          (case (h_getitem h a k, v) of
             (Some (HRef c), HRef b) \<Rightarrow>
               (case (obj h c, obj h b) of
                  (Some (HDict AddictDict _), Some (HDict _ vits)) \<Rightarrow>
                    Option.bind (h_merge h c vits) (\<lambda>h'. h_merge h' a rest)
                | (Some (HDict PlainDict sits), Some (HDict _ vits)) \<Rightarrow>
                    h_merge (h[c := HDict PlainDict (plain_update sits vits)]) a rest
                | _ \<Rightarrow> h_merge (h_setitem h a k v) a rest)
           | _ \<Rightarrow> h_merge (h_setitem h a k v) a rest))"

declare h_merge.simps [code]

fun h_setattr :: "heap \<Rightarrow> addr \<Rightarrow> string \<Rightarrow> string list \<Rightarrow> hval \<Rightarrow> pyerror + heap" where
  "h_setattr h d a [] v =
     (if a \<in> set dict_class_attrs then Inl (AttributeError a) else Inr (h_setitem h d a v))"
| "h_setattr h d a (b # bs) v =
     (if a \<in> set dict_getattr_attrs then Inl (AttributeError b)
      else
        (case h_getitem h d a of
           None \<Rightarrow>
             (case alloc h (HDict AddictDict []) of
                (h1, c) \<Rightarrow>
                  (case h_setattr h1 c b bs v of
                     Inl e \<Rightarrow> Inl e
                   | Inr h2 \<Rightarrow> Inr (h_setitem h2 d a (HRef c))))
         | Some (HRef c) \<Rightarrow>
             (case obj h c of
                Some (HDict AddictDict _) \<Rightarrow> h_setattr h c b bs v
              | _ \<Rightarrow> Inl (AttributeError b))
         | Some _ \<Rightarrow> Inl (AttributeError b)))"

text \<open>\<^verbatim>\<open>other = {}; other.update(arg)\<close>: the items of a dictionary argument, in order.\<close>

fun h_dict_items :: "heap \<Rightarrow> hval \<Rightarrow> pyerror + (string \<times> hval) list" where
  "h_dict_items h (HRef b) =
     (case obj h b of Some (HDict _ its) \<Rightarrow> Inr (plain_update [] its) | None \<Rightarrow> Inl TypeError)"
| "h_dict_items h (HStr s) = (if s = [] then Inr [] else Inl ValueError)"
| "h_dict_items h _ = Inl TypeError"

definition h_update :: "heap \<Rightarrow> addr \<Rightarrow> hval \<Rightarrow> (pyerror + heap) option" where
  "h_update h a arg =
     (case h_dict_items h arg of
        Inl e \<Rightarrow> Some (Inl e)
      | Inr its \<Rightarrow> map_option Inr (h_merge h a its))"

fun the_dict :: "pyval \<Rightarrow> pydict" where
  "the_dict (VDict _ d) = d"
| "the_dict _ = []"

definition merge_post ::
  "nat \<Rightarrow> heap \<Rightarrow> addr \<Rightarrow> dkind \<Rightarrow> (string \<times> hval) list \<Rightarrow> (string \<times> hval) list \<Rightarrow> pydict \<Rightarrow> heap \<Rightarrow> bool"
  where
  "merge_post n h a kd sits its r h' =
     (\<exists>sits'. obj h' a = Some (HDict kd sits') \<and> distinct (map fst sits')
        \<and> read_items n h' sits' = Some r
        \<and> distinct (a # foot_items n h' sits')
        \<and> set (foot_items n h' sits') \<subseteq> set (foot_items n h sits) \<union> set (foot_items n h its)
        \<and> length h' = length h
        \<and> (\<forall>p. p \<notin> set (a # foot_items n h (filter (\<lambda>q. fst q \<in> set (map fst its)) sits))
               \<longrightarrow> obj h' p = obj h p)
        \<and> (\<forall>j. j \<notin> set (map fst its) \<longrightarrow> map_of sits' j = map_of sits j)
        \<and> (\<forall>j v. map_of its j = Some v \<longrightarrow> map_of sits j = None \<longrightarrow> map_of sits' j = Some v))"

definition setattr_post ::
  "nat \<Rightarrow> heap \<Rightarrow> addr \<Rightarrow> (string \<times> hval) list \<Rightarrow> string \<Rightarrow> pydict \<Rightarrow> heap \<Rightarrow> bool" where
  "setattr_post n h d dits a r h' =
     (\<exists>dits'. obj h' d = Some (HDict AddictDict dits') \<and> read_items n h' dits' = Some r
        \<and> distinct (d # foot_items n h' dits')
        \<and> set (foot_items n h' dits') \<subseteq> set (foot_items n h dits) \<union> {length h..<length h'}
        \<and> length h \<le> length h'
        \<and> (\<forall>q. q < length h \<longrightarrow> q \<notin> set (d # foot_items n h dits) \<longrightarrow> obj h' q = obj h q)
        \<and> (\<forall>j. j \<noteq> a \<longrightarrow> map_of dits' j = map_of dits j))"

lemma h_merge_Nil: "h_merge h a [] = Some h"
  by (simp add: h_merge.simps)

lemma h_merge_addict:
  "h_getitem h a k = Some (HRef c) \<Longrightarrow> obj h c = Some (HDict AddictDict csits) \<Longrightarrow>
   obj h b = Some (HDict kb vits) \<Longrightarrow>
   h_merge h a ((k, HRef b) # rest) = Option.bind (h_merge h c vits) (\<lambda>h'. h_merge h' a rest)"
  by (subst h_merge.simps) simp

lemma h_merge_plain:
  "h_getitem h a k = Some (HRef c) \<Longrightarrow> obj h c = Some (HDict PlainDict csits) \<Longrightarrow>
   obj h b = Some (HDict kb vits) \<Longrightarrow>
   h_merge h a ((k, HRef b) # rest) =
     h_merge (h[c := HDict PlainDict (plain_update csits vits)]) a rest"
  by (subst h_merge.simps) simp

lemma h_merge_store:
  assumes "\<not> (\<exists>c b kc csits kb vits. h_getitem h a k = Some (HRef c) \<and> v = HRef b \<and>
               obj h c = Some (HDict kc csits) \<and> obj h b = Some (HDict kb vits))"
  shows "h_merge h a ((k, v) # rest) = h_merge (h_setitem h a k v) a rest"
  using assms
  by (subst h_merge.simps)
     (auto split: option.split hval.split hobj.split dkind.split)

lemma child_step:
  assumes a: "obj h a = Some (HDict kd sits)" and ks: "distinct (map fst sits)"
    and rs: "read_items (Suc m) h sits = Some s"
    and kc: "map_of sits k = Some (HRef c)" and c: "obj h c = Some (HDict kc csits)"
    and rr: "read_items (Suc m) h rest = Some u'"
    and d: "distinct (a # foot_items (Suc m) h sits @ foot_items (Suc m) h rest)"
    and X: "X \<inter> set (a # foot_items (Suc m) h sits @ foot_items (Suc m) h rest) = {}"
    and c1: "obj h1 c = Some (HDict kc csits')" and r1: "read_items m h1 csits' = Some cs'"
    and d1: "distinct (c # foot_items m h1 csits')"
    and sub1: "set (foot_items m h1 csits') \<subseteq> set (foot_items m h csits) \<union> X"
    and fr1: "\<forall>p. p < length h \<longrightarrow> p \<notin> set (c # foot_items m h csits) \<longrightarrow> obj h1 p = obj h p"
  shows "obj h1 a = Some (HDict kd sits)
    \<and> read_items (Suc m) h1 sits = Some (alist_set s k (VDict kc cs'))
    \<and> read_items (Suc m) h1 rest = Some u'
    \<and> foot_items (Suc m) h1 rest = foot_items (Suc m) h rest
    \<and> distinct (a # foot_items (Suc m) h1 sits @ foot_items (Suc m) h1 rest)
    \<and> set (foot_items (Suc m) h1 sits) \<subseteq> set (foot_items (Suc m) h sits) \<union> X
    \<and> (\<forall>P. \<not> P (k, HRef c) \<longrightarrow>
          foot_items (Suc m) h1 (filter P sits) = foot_items (Suc m) h (filter P sits))"
proof -
  obtain pre post where sp: "sits = pre @ (k, HRef c) # post" and pk: "map_of pre k = None"
    using alist_split [OF kc] by blast
  let ?C = "c # foot_items m h csits"
  have fc: "foot_val (Suc m) h (HRef c) = ?C" using c by simp
  have dis: "distinct (a # foot_items (Suc m) h pre @ ?C @ foot_items (Suc m) h post
      @ foot_items (Suc m) h rest)"
    using d sp fc by simp
  have lt: "set (foot_items (Suc m) h sits) \<union> set (foot_items (Suc m) h rest) \<subseteq> {..<length h}"
    using foot_lt(2) [OF rs] foot_lt(2) [OF rr] by blast
  have same: "read_items (Suc m) h1 xs = read_items (Suc m) h xs
      \<and> foot_items (Suc m) h1 xs = foot_items (Suc m) h xs"
    if "set (foot_items (Suc m) h xs) \<inter> set ?C = {}"
      and "set (foot_items (Suc m) h xs) \<subseteq> {..<length h}" for xs
    using that fr1 by (intro heap_frame(2)) blast
  have pre1: "read_items (Suc m) h1 pre = read_items (Suc m) h pre
      \<and> foot_items (Suc m) h1 pre = foot_items (Suc m) h pre"
    using dis lt sp by (intro same) auto
  have post1: "read_items (Suc m) h1 post = read_items (Suc m) h post
      \<and> foot_items (Suc m) h1 post = foot_items (Suc m) h post"
    using dis lt sp by (intro same) auto
  have rest1: "read_items (Suc m) h1 rest = read_items (Suc m) h rest
      \<and> foot_items (Suc m) h1 rest = foot_items (Suc m) h rest"
    using dis lt by (intro same) auto
  have a1: "obj h1 a = obj h a" using fr1 dis obj_length [OF a] by auto
  obtain spre spost cs where rpre: "read_items (Suc m) h pre = Some spre"
    and rpost: "read_items (Suc m) h post = Some spost"
    and rcs: "read_items m h csits = Some cs"
    and ss: "s = spre @ (k, VDict kc cs) # spost"
    using rs sp c by (auto simp: read_items_append read_items_Cons' split: option.splits)
  have "fst ` set spre = fst ` set pre"
    by (metis read_items_keys [OF rpre] set_map)
  then have "map_of spre k = None" using pk by (simp add: map_of_eq_None_iff)
  then have sset: "alist_set s k (VDict kc cs') = spre @ (k, VDict kc cs') # spost"
    using ss by (simp add: alist_set_split)
  have fc1: "foot_val (Suc m) h1 (HRef c) = c # foot_items m h1 csits'" using c1 by simp
  have rc1: "read_val (Suc m) h1 (HRef c) = Some (VDict kc cs')" using c1 r1 by simp
  show ?thesis
  proof (intro conjI allI impI)
    show "obj h1 a = Some (HDict kd sits)" using a1 a by simp
    show "read_items (Suc m) h1 sits = Some (alist_set s k (VDict kc cs'))"
      using sp pre1 post1 rpre rpost rc1 sset
      by (simp add: read_items_append read_items_Cons')
    show "read_items (Suc m) h1 rest = Some u'" using rest1 rr by simp
    show "foot_items (Suc m) h1 rest = foot_items (Suc m) h rest" using rest1 by simp
    show "distinct (a # foot_items (Suc m) h1 sits @ foot_items (Suc m) h1 rest)"
      using dis d1 sub1 X sp pre1 post1 rest1 fc1 by auto
    show "set (foot_items (Suc m) h1 sits) \<subseteq> set (foot_items (Suc m) h sits) \<union> X"
      using sub1 sp pre1 post1 fc1 fc by auto
  next
    fix P assume "\<not> P (k, HRef c)"
    then have eq: "filter P sits = filter P pre @ filter P post" using sp by simp
    have "set (foot_items (Suc m) h (filter P pre @ filter P post)) \<inter> set ?C = {}"
      using dis foot_filter [of "Suc m" h P pre] foot_filter [of "Suc m" h P post] by auto
    moreover have "set (foot_items (Suc m) h (filter P pre @ filter P post)) \<subseteq> {..<length h}"
      using lt sp foot_filter [of "Suc m" h P pre] foot_filter [of "Suc m" h P post] by auto
    ultimately have "foot_items (Suc m) h1 (filter P pre @ filter P post)
        = foot_items (Suc m) h (filter P pre @ filter P post)"
      using same by blast
    then show "foot_items (Suc m) h1 (filter P sits) = foot_items (Suc m) h (filter P sits)"
      by (simp only: eq)
  qed
qed

lemma foot_filter_mono:
  "(\<And>q. P q \<Longrightarrow> P' q) \<Longrightarrow> set (foot_items n h (filter P xs)) \<subseteq> set (foot_items n h (filter P' xs))"
  by (induction xs) auto

lemma filter_alist_set:
  "\<not> P (k, v) \<Longrightarrow> (\<And>w. \<not> P (k, w)) \<Longrightarrow> filter P (alist_set xs k v) = filter P xs"
  by (induction xs) auto

lemma store_step:
  assumes a: "obj h a = Some (HDict kd sits)" and ks: "distinct (map fst sits)"
    and rs: "read_items n h sits = Some s" and rv: "read_val n h v = Some x"
    and rr: "read_items n h rest = Some u'"
    and d: "distinct (a # foot_items n h sits @ foot_val n h v @ foot_items n h rest)"
    and h1_def: "h1 = h_setitem h a k v"
  shows "obj h1 a = Some (HDict kd (alist_set sits k v))
    \<and> distinct (map fst (alist_set sits k v))
    \<and> read_items n h1 (alist_set sits k v) = Some (alist_set s k x)
    \<and> read_items n h1 rest = Some u'
    \<and> foot_items n h1 rest = foot_items n h rest
    \<and> distinct (a # foot_items n h1 (alist_set sits k v) @ foot_items n h1 rest)
    \<and> set (foot_items n h1 (alist_set sits k v)) \<subseteq> set (foot_items n h sits) \<union> set (foot_val n h v)
    \<and> length h1 = length h
    \<and> (\<forall>p. p \<noteq> a \<longrightarrow> obj h1 p = obj h p)
    \<and> (\<forall>P. foot_items n h1 (filter P (alist_set sits k v)) = foot_items n h (filter P (alist_set sits k v)))"
proof -
  have h1: "h1 = h[a := HDict kd (alist_set sits k v)]" using a by (simp add: h1_def h_setitem_obj)
  have la: "a < length h" using a by (rule obj_length)
  have fr: "\<forall>p. p \<noteq> a \<longrightarrow> obj h1 p = obj h p" using h1 by simp
  from foot_alist_set [of n h sits v "foot_items n h rest" k] d
  have fd: "distinct (foot_items n h (alist_set sits k v) @ foot_items n h rest)"
    and fs: "set (foot_items n h (alist_set sits k v)) \<subseteq> set (foot_items n h sits) \<union> set (foot_val n h v)"
    by simp_all
  have same: "read_items n h1 xs = read_items n h xs \<and> foot_items n h1 xs = foot_items n h xs"
    if "a \<notin> set (foot_items n h xs)" for xs
    using that fr by (intro heap_frame(2)) metis
  have na: "a \<notin> set (foot_items n h (alist_set sits k v))" using fs d by auto
  have nr: "a \<notin> set (foot_items n h rest)" using d by auto
  have "a \<notin> set (foot_items n h (filter P (alist_set sits k v)))" for P
    using na foot_filter [of n h P "alist_set sits k v"] by blast
  then have "foot_items n h1 (filter P (alist_set sits k v)) = foot_items n h (filter P (alist_set sits k v))"
    for P using same by blast
  moreover have "read_items n h (alist_set sits k v) = Some (alist_set s k x)"
    using rs rv by (rule read_items_alist_set)
  ultimately show ?thesis
    using h1 la ks fd fs same [OF na] same [OF nr] na nr rr fr
    by simp
qed

lemma plain_child:
  assumes c: "obj h c = Some (HDict PlainDict csits)" and ks: "distinct (map fst csits)"
    and rc: "read_items m h csits = Some cs" and rv: "read_items m h vits = Some vu"
    and kv: "distinct (map fst vits)"
    and d: "distinct (c # foot_items m h csits @ foot_items m h vits)"
  shows "merge_post m h c PlainDict csits vits (plain_update cs vu)
           (h[c := HDict PlainDict (plain_update csits vits)])"
proof -
  let ?h1 = "h[c := HDict PlainDict (plain_update csits vits)]"
  have lc: "c < length h" using c by (rule obj_length)
  from foot_plain_update [of m h csits vits "[]"] d
  have fd: "distinct (foot_items m h (plain_update csits vits))"
    and fs: "set (foot_items m h (plain_update csits vits)) \<subseteq> set (foot_items m h csits) \<union> set (foot_items m h vits)"
    by simp_all
  have "c \<notin> set (foot_items m h (plain_update csits vits))" using fs d by auto
  then have same: "read_items m ?h1 (plain_update csits vits) = read_items m h (plain_update csits vits)
      \<and> foot_items m ?h1 (plain_update csits vits) = foot_items m h (plain_update csits vits)"
    by (intro heap_frame(2)) auto
  have "distinct (map fst (plain_update csits vits))"
    using ks by (simp add: keys_plain_update)
  moreover have mp: "map_of (plain_update csits vits) = map_of csits ++ map_of vits"
    using kv by (simp add: map_of_plain_update map_of_rev_distinct)
  moreover have "\<forall>j. j \<notin> set (map fst vits) \<longrightarrow> map_of (plain_update csits vits) j = map_of csits j"
    using mp by (simp add: map_add_def map_of_eq_None_iff [symmetric] del: map_of_eq_None_iff)
  ultimately show ?thesis
    unfolding merge_post_def
    using lc same fd fs d read_items_plain_update [OF rc rv]
    by (intro exI [of _ "plain_update csits vits"]) (auto simp: map_add_def split: option.split)
qed

lemma read_items_member:
  "read_items n h its = Some s \<Longrightarrow> map_of its k = Some w \<Longrightarrow>
   \<exists>y. read_val n h w = Some y \<and> map_of s k = Some y"
  by (induction its arbitrary: s) (auto simp: read_items_Cons' split: option.splits if_splits)

lemma merge_value_store:
  "\<not> (\<exists>kc cs kb vu. old = Some (VDict kc cs) \<and> x = VDict kb vu) \<Longrightarrow> merge_value old x = x"
  by (auto simp: merge_value_def split: option.split pyval.split dkind.split)

lemma merge_post_step:
  assumes R: "merge_post n h1 a kd sits1 rest r h'"
    and len: "length h1 = length h"
    and fr: "\<forall>p. p \<notin> set (a # foot_items n h (filter (\<lambda>q. fst q \<in> set (map fst ((k, v) # rest))) sits))
               \<longrightarrow> obj h1 p = obj h p"
    and sub: "set (foot_items n h1 sits1) \<union> set (foot_items n h1 rest)
                \<subseteq> set (foot_items n h sits) \<union> set (foot_items n h ((k, v) # rest))"
    and touch: "set (foot_items n h1 (filter (\<lambda>q. fst q \<in> set (map fst rest)) sits1))
                \<subseteq> set (foot_items n h (filter (\<lambda>q. fst q \<in> set (map fst ((k, v) # rest))) sits))"
    and kr: "k \<notin> set (map fst rest)"
    and S1: "\<forall>j. j \<noteq> k \<longrightarrow> map_of sits1 j = map_of sits j"
    and S2: "map_of sits k = None \<longrightarrow> map_of sits1 k = Some v"
  shows "merge_post n h a kd sits ((k, v) # rest) r h'"
proof -
  let ?its = "(k, v) # rest"
  from R obtain sits' where o: "obj h' a = Some (HDict kd sits')" and k: "distinct (map fst sits')"
    and r: "read_items n h' sits' = Some r" and d: "distinct (a # foot_items n h' sits')"
    and s: "set (foot_items n h' sits') \<subseteq> set (foot_items n h1 sits1) \<union> set (foot_items n h1 rest)"
    and l: "length h' = length h1"
    and f: "\<forall>p. p \<notin> set (a # foot_items n h1 (filter (\<lambda>q. fst q \<in> set (map fst rest)) sits1))
               \<longrightarrow> obj h' p = obj h1 p"
    and K1: "\<forall>j. j \<notin> set (map fst rest) \<longrightarrow> map_of sits' j = map_of sits1 j"
    and K2: "\<forall>j w. map_of rest j = Some w \<longrightarrow> map_of sits1 j = None \<longrightarrow> map_of sits' j = Some w"
    unfolding merge_post_def by blast
  have "\<forall>p. p \<notin> set (a # foot_items n h (filter (\<lambda>q. fst q \<in> set (map fst ?its)) sits))
           \<longrightarrow> obj h' p = obj h p"
    using f fr touch by auto
  moreover have "set (foot_items n h' sits') \<subseteq> set (foot_items n h sits) \<union> set (foot_items n h ?its)"
    using s sub by blast
  moreover have "\<forall>j. j \<notin> set (map fst ?its) \<longrightarrow> map_of sits' j = map_of sits j"
    using K1 S1 by simp
  moreover have "\<forall>j w. map_of ?its j = Some w \<longrightarrow> map_of sits j = None \<longrightarrow> map_of sits' j = Some w"
  proof (intro allI impI)
    fix j w assume jw: "map_of ?its j = Some w" and sj: "map_of sits j = None"
    show "map_of sits' j = Some w"
    proof (cases "j = k")
      case True
      with jw sj S2 K1 kr show ?thesis by simp
    next
      case False
      with jw sj S1 K2 show ?thesis by simp
    qed
  qed
  ultimately show ?thesis using o k r d l len unfolding merge_post_def by auto
qed

lemma foot_mem: "(k, w) \<in> set xs \<Longrightarrow> set (foot_val n h w) \<subseteq> set (foot_items n h xs)"
  by (induction xs) auto

lemma child_case:
  assumes a: "obj h a = Some (HDict kd sits)" and ws: "wf_val (VDict kd s)"
    and rs: "read_items (Suc m) h sits = Some s"
    and kc: "map_of sits k = Some (HRef c)" and c: "obj h c = Some (HDict kc csits)"
    and rr: "read_items (Suc m) h rest = Some u'" and kr: "k \<notin> set (map fst rest)"
    and d: "distinct (a # foot_items (Suc m) h sits @ foot_items (Suc m) h ((k, HRef b) # rest))"
    and ob: "obj h b = Some (HDict kb vits)"
    and M: "merge_post m h c kc csits vits cs' h1" and W: "wf_val (VDict kc cs')"
    and IH: "\<And>h sits s. obj h a = Some (HDict kd sits) \<Longrightarrow> wf_val (VDict kd s) \<Longrightarrow>
              read_items (Suc m) h sits = Some s \<Longrightarrow> read_items (Suc m) h rest = Some u' \<Longrightarrow>
              distinct (a # foot_items (Suc m) h sits @ foot_items (Suc m) h rest) \<Longrightarrow>
              \<exists>h'. h_merge h a rest = Some h' \<and> merge_post (Suc m) h a kd sits rest (addict_merge s u') h'"
  shows "\<exists>h'. h_merge h1 a rest = Some h'
           \<and> merge_post (Suc m) h a kd sits ((k, HRef b) # rest) (addict_merge (alist_set s k (VDict kc cs')) u') h'"
proof -
  let ?Q = "\<lambda>q. fst q \<in> set (map fst rest)" and ?Q' = "\<lambda>q. fst q \<in> set (map fst ((k, HRef b) # rest))"
  from M obtain csits' where c1: "obj h1 c = Some (HDict kc csits')" and r1: "read_items m h1 csits' = Some cs'"
    and d1: "distinct (c # foot_items m h1 csits')"
    and s1: "set (foot_items m h1 csits') \<subseteq> set (foot_items m h csits) \<union> set (foot_items m h vits)"
    and l1: "length h1 = length h"
    and f1: "\<forall>p. p \<notin> set (c # foot_items m h (filter (\<lambda>q. fst q \<in> set (map fst vits)) csits))
               \<longrightarrow> obj h1 p = obj h p"
    unfolding merge_post_def by blast
  have sub1: "set (foot_items m h1 csits') \<subseteq> set (foot_items m h csits) \<union> set (foot_val (Suc m) h (HRef b))"
    using s1 ob by auto
  have fr1: "\<forall>p. p \<notin> set (c # foot_items m h csits) \<longrightarrow> obj h1 p = obj h p"
    using f1 foot_filter [of m h _ csits] by auto
  have d0: "distinct (a # foot_items (Suc m) h sits @ foot_items (Suc m) h rest)" using d by auto
  have X: "set (foot_val (Suc m) h (HRef b)) \<inter> set (a # foot_items (Suc m) h sits @ foot_items (Suc m) h rest) = {}"
    using d by auto
  have fr1': "\<forall>p. p < length h \<longrightarrow> p \<notin> set (c # foot_items m h csits) \<longrightarrow> obj h1 p = obj h p"
    using fr1 by blast
  note cs = child_step [OF a _ rs kc c rr d0 X c1 r1 d1 sub1 fr1']
  have ks: "distinct (map fst sits)" using ws read_items_keys [OF rs] by simp
  have "wf_val (VDict kd (alist_set s k (VDict kc cs')))" using ws W by (rule wf_alist_set)
  with cs ks obtain h' where run: "h_merge h1 a rest = Some h'"
    and R: "merge_post (Suc m) h1 a kd sits rest (addict_merge (alist_set s k (VDict kc cs')) u') h'"
    using IH by blast
  have "(k, HRef c) \<in> set (filter ?Q' sits)" using kc by (auto dest: map_of_SomeD)
  then have "set (foot_val (Suc m) h (HRef c)) \<subseteq> set (foot_items (Suc m) h (filter ?Q' sits))"
    by (rule foot_mem)
  then have fr: "\<forall>p. p \<notin> set (a # foot_items (Suc m) h (filter ?Q' sits)) \<longrightarrow> obj h1 p = obj h p"
    using fr1 c by auto
  have sub: "set (foot_items (Suc m) h1 sits) \<union> set (foot_items (Suc m) h1 rest)
      \<subseteq> set (foot_items (Suc m) h sits) \<union> set (foot_items (Suc m) h ((k, HRef b) # rest))"
    using cs ks by auto
  have "foot_items (Suc m) h1 (filter ?Q sits) = foot_items (Suc m) h (filter ?Q sits)"
    using cs ks kr by auto
  then have touch: "set (foot_items (Suc m) h1 (filter ?Q sits)) \<subseteq> set (foot_items (Suc m) h (filter ?Q' sits))"
    using foot_filter_mono [of ?Q ?Q' "Suc m" h sits] by auto
  from merge_post_step [OF R l1 fr sub touch kr] kc run show ?thesis by simp
qed

lemma store_case:
  assumes a: "obj h a = Some (HDict kd sits)" and ws: "wf_val (VDict kd s)"
    and rs: "read_items n h sits = Some s" and rv: "read_val n h v = Some x" and wx: "wf_val x"
    and rr: "read_items n h rest = Some u'" and kr: "k \<notin> set (map fst rest)"
    and d: "distinct (a # foot_items n h sits @ foot_items n h ((k, v) # rest))"
    and IH: "\<And>h sits s. obj h a = Some (HDict kd sits) \<Longrightarrow> wf_val (VDict kd s) \<Longrightarrow>
              read_items n h sits = Some s \<Longrightarrow> read_items n h rest = Some u' \<Longrightarrow>
              distinct (a # foot_items n h sits @ foot_items n h rest) \<Longrightarrow>
              \<exists>h'. h_merge h a rest = Some h' \<and> merge_post n h a kd sits rest (addict_merge s u') h'"
  shows "\<exists>h'. h_merge (h_setitem h a k v) a rest = Some h'
           \<and> merge_post n h a kd sits ((k, v) # rest) (addict_merge (alist_set s k x) u') h'"
proof -
  let ?h1 = "h_setitem h a k v"
  let ?Q = "\<lambda>q. fst q \<in> set (map fst rest)" and ?Q' = "\<lambda>q. fst q \<in> set (map fst ((k, v) # rest))"
  have ks: "distinct (map fst sits)" using ws read_items_keys [OF rs] by simp
  have d': "distinct (a # foot_items n h sits @ foot_val n h v @ foot_items n h rest)" using d by simp
  note st = store_step [OF a ks rs rv rr d' refl]
  have "wf_val (VDict kd (alist_set s k x))" using ws wx by (rule wf_alist_set)
  with st obtain h' where run: "h_merge ?h1 a rest = Some h'"
    and R: "merge_post n ?h1 a kd (alist_set sits k v) rest (addict_merge (alist_set s k x) u') h'"
    using IH by blast
  have fr: "\<forall>p. p \<notin> set (a # foot_items n h (filter ?Q' sits)) \<longrightarrow> obj ?h1 p = obj h p"
    using st by auto
  have sub: "set (foot_items n ?h1 (alist_set sits k v)) \<union> set (foot_items n ?h1 rest)
      \<subseteq> set (foot_items n h sits) \<union> set (foot_items n h ((k, v) # rest))"
    using st by auto
  have "filter ?Q (alist_set sits k v) = filter ?Q sits" using kr by (intro filter_alist_set) auto
  then have "foot_items n ?h1 (filter ?Q (alist_set sits k v)) = foot_items n h (filter ?Q sits)"
    using st by metis
  then have touch: "set (foot_items n ?h1 (filter ?Q (alist_set sits k v)))
      \<subseteq> set (foot_items n h (filter ?Q' sits))"
    using foot_filter_mono [of ?Q ?Q' n h sits] by auto
  from merge_post_step [OF R _ fr sub touch kr] st run show ?thesis by simp
qed

lemma foot_child_split:
  assumes kc: "map_of sits k = Some (HRef c)" and c: "obj h c = Some (HDict kc csits)"
    and ob: "obj h b = Some (HDict kb vits)"
    and d: "distinct (a # foot_items (Suc m) h sits @ foot_items (Suc m) h ((k, HRef b) # rest))"
  shows "distinct (c # foot_items m h csits @ foot_items m h vits)"
proof -
  obtain pre post where "sits = pre @ (k, HRef c) # post"
    using alist_split [OF kc] by blast
  with d c ob show ?thesis by auto
qed

lemma dict_child_result:
  assumes CH: "\<And>h c csits cs vits vu kb.
      obj h c = Some (HDict AddictDict csits) \<Longrightarrow> wf_val (VDict AddictDict cs) \<Longrightarrow>
      read_items m h csits = Some cs \<Longrightarrow> read_items m h vits = Some vu \<Longrightarrow>
      wf_val (VDict kb vu) \<Longrightarrow> distinct (c # foot_items m h csits @ foot_items m h vits) \<Longrightarrow>
      \<exists>h'. h_merge h c vits = Some h' \<and>
           merge_post m h c AddictDict csits vits (addict_merge cs vu) h'"
    and gk: "h_getitem h a k = Some (HRef c)" and oc: "obj h c = Some (HDict kc csits)"
    and ob: "obj h b = Some (HDict kb vits)"
    and wcs: "wf_val (VDict kc cs)" and rcs: "read_items m h csits = Some cs"
    and rvu: "read_items m h vits = Some vu" and wvu: "wf_val (VDict kb vu)"
    and dc: "distinct (c # foot_items m h csits @ foot_items m h vits)"
  shows "\<exists>h1. h_merge h a ((k, HRef b) # rest) = h_merge h1 a rest
     \<and> merge_post m h c kc csits vits (the_dict (merge_value (Some (VDict kc cs)) (VDict kb vu))) h1
     \<and> wf_val (merge_value (Some (VDict kc cs)) (VDict kb vu))"
proof (cases kc)
  case AddictDict
  from CH [OF oc [unfolded AddictDict] wcs [unfolded AddictDict] rcs rvu wvu dc]
  obtain h1 where r1: "h_merge h c vits = Some h1"
    and M: "merge_post m h c AddictDict csits vits (addict_merge cs vu) h1" by blast
  have "h_merge h a ((k, HRef b) # rest) = h_merge h1 a rest"
    using h_merge_addict [OF gk oc [unfolded AddictDict] ob] r1 by simp
  moreover have "wf_val (VDict AddictDict (addict_merge cs vu))"
    using wcs wvu AddictDict by (blast intro: wf_addict_merge)
  ultimately show ?thesis using M AddictDict by (auto simp: merge_value_def)
next
  case PlainDict
  have kcs: "distinct (map fst csits)" using wcs read_items_keys [OF rcs] by simp
  have kvs: "distinct (map fst vits)" using wvu read_items_keys [OF rvu] by simp
  have "h_merge h a ((k, HRef b) # rest)
      = h_merge (h[c := HDict PlainDict (plain_update csits vits)]) a rest"
    using h_merge_plain [OF gk oc [unfolded PlainDict] ob] .
  moreover have "wf_val (VDict PlainDict (plain_update cs vu))"
    using wcs wvu PlainDict by (blast intro: wf_plain_update)
  ultimately show ?thesis
    using plain_child [OF oc [unfolded PlainDict] kcs rcs rvu kvs dc] PlainDict
    by (auto simp: merge_value_def)
qed

lemma loop_dict_case:
  assumes CH: "\<And>m h c csits cs vits vu kb. n = Suc m \<Longrightarrow>
      obj h c = Some (HDict AddictDict csits) \<Longrightarrow> wf_val (VDict AddictDict cs) \<Longrightarrow>
      read_items m h csits = Some cs \<Longrightarrow> read_items m h vits = Some vu \<Longrightarrow>
      wf_val (VDict kb vu) \<Longrightarrow> distinct (c # foot_items m h csits @ foot_items m h vits) \<Longrightarrow>
      \<exists>h'. h_merge h c vits = Some h' \<and>
           merge_post m h c AddictDict csits vits (addict_merge cs vu) h'"
    and a: "obj h a = Some (HDict kd sits)" and ws: "wf_val (VDict kd s)"
    and rs: "read_items n h sits = Some s" and rv: "read_val n h (HRef b) = Some x" and wx: "wf_val x"
    and rr: "read_items n h rest = Some u'" and kr: "k \<notin> set (map fst rest)"
    and d: "distinct (a # foot_items n h sits @ foot_items n h ((k, HRef b) # rest))"
    and IH: "\<And>h sits s. obj h a = Some (HDict kd sits) \<Longrightarrow> wf_val (VDict kd s) \<Longrightarrow>
              read_items n h sits = Some s \<Longrightarrow> read_items n h rest = Some u' \<Longrightarrow>
              distinct (a # foot_items n h sits @ foot_items n h rest) \<Longrightarrow>
              \<exists>h'. h_merge h a rest = Some h' \<and> merge_post n h a kd sits rest (addict_merge s u') h'"
    and gk: "h_getitem h a k = Some (HRef c)" and oc: "obj h c = Some (HDict kc csits)"
    and ob: "obj h b = Some (HDict kb vits)"
  shows "\<exists>h'. h_merge h a ((k, HRef b) # rest) = Some h'
           \<and> merge_post n h a kd sits ((k, HRef b) # rest) (addict_merge s ((k, x) # u')) h'"
proof -
  have kc: "map_of sits k = Some (HRef c)" using gk a by (simp add: h_getitem_obj)
  from read_items_member [OF rs kc] obtain y
    where ry: "read_val n h (HRef c) = Some y" and sy: "map_of s k = Some y" by blast
  obtain m where n: "n = Suc m" using ry by (cases n) auto
  from ry oc n obtain cs where rcs: "read_items m h csits = Some cs" and y: "y = VDict kc cs" by auto
  from rv ob n obtain vu where rvu: "read_items m h vits = Some vu" and x: "x = VDict kb vu" by auto
  have wvu: "wf_val (VDict kb vu)" using wx x by simp
  have wcs: "wf_val (VDict kc cs)" using wf_map_of [OF ws sy] y by simp
  have dc: "distinct (c # foot_items m h csits @ foot_items m h vits)"
    using foot_child_split [OF kc oc ob] d n by simp
  have CH': "\<And>h c csits cs vits vu kb.
      obj h c = Some (HDict AddictDict csits) \<Longrightarrow> wf_val (VDict AddictDict cs) \<Longrightarrow>
      read_items m h csits = Some cs \<Longrightarrow> read_items m h vits = Some vu \<Longrightarrow>
      wf_val (VDict kb vu) \<Longrightarrow> distinct (c # foot_items m h csits @ foot_items m h vits) \<Longrightarrow>
      \<exists>h'. h_merge h c vits = Some h' \<and>
           merge_post m h c AddictDict csits vits (addict_merge cs vu) h'"
    using CH n by blast
  have "\<exists>h1. h_merge h a ((k, HRef b) # rest) = h_merge h1 a rest
     \<and> merge_post m h c kc csits vits (the_dict (merge_value (Some (VDict kc cs)) (VDict kb vu))) h1
     \<and> wf_val (merge_value (Some (VDict kc cs)) (VDict kb vu))"
    using CH' by (rule dict_child_result [OF _ gk oc ob wcs rcs rvu wvu dc])
  then obtain h1
    where run: "h_merge h a ((k, HRef b) # rest) = h_merge h1 a rest"
      and M: "merge_post m h c kc csits vits (the_dict (merge_value (Some y) x)) h1"
      and W: "wf_val (merge_value (Some y) x)"
    using x y by blast
  obtain cs' where mv: "merge_value (Some y) x = VDict kc cs'"
    using x y by (cases kc) (auto simp: merge_value_def)
  have eq: "addict_merge s ((k, x) # u') = addict_merge (alist_set s k (VDict kc cs')) u'"
    using sy mv by (simp add: addict_merge_Cons)
  from child_case [OF a ws rs [unfolded n] kc oc rr [unfolded n] kr d [unfolded n] ob
      M [unfolded mv, simplified] W [unfolded mv] IH [unfolded n]]
  obtain h' where "h_merge h1 a rest = Some h'"
    and "merge_post (Suc m) h a kd sits ((k, HRef b) # rest)
           (addict_merge (alist_set s k (VDict kc cs')) u') h'"
    by blast
  with run eq n show ?thesis by auto
qed

lemma loop_store_case:
  assumes a: "obj h a = Some (HDict kd sits)" and ws: "wf_val (VDict kd s)"
    and rs: "read_items n h sits = Some s" and rv: "read_val n h v = Some x" and wx: "wf_val x"
    and rr: "read_items n h rest = Some u'" and kr: "k \<notin> set (map fst rest)"
    and d: "distinct (a # foot_items n h sits @ foot_items n h ((k, v) # rest))"
    and IH: "\<And>h sits s. obj h a = Some (HDict kd sits) \<Longrightarrow> wf_val (VDict kd s) \<Longrightarrow>
              read_items n h sits = Some s \<Longrightarrow> read_items n h rest = Some u' \<Longrightarrow>
              distinct (a # foot_items n h sits @ foot_items n h rest) \<Longrightarrow>
              \<exists>h'. h_merge h a rest = Some h' \<and> merge_post n h a kd sits rest (addict_merge s u') h'"
    and nd: "\<not> (\<exists>c b kc csits kb vits. h_getitem h a k = Some (HRef c) \<and> v = HRef b \<and>
                  obj h c = Some (HDict kc csits) \<and> obj h b = Some (HDict kb vits))"
  shows "\<exists>h'. h_merge h a ((k, v) # rest) = Some h'
           \<and> merge_post n h a kd sits ((k, v) # rest) (addict_merge s ((k, x) # u')) h'"
proof -
  have run: "h_merge h a ((k, v) # rest) = h_merge (h_setitem h a k v) a rest"
    using nd by (rule h_merge_store)
  have "merge_value (map_of s k) x = x"
  proof (rule merge_value_store, clarify)
    fix kc cs kb vu assume sk: "map_of s k = Some (VDict kc cs)" and xv: "x = VDict kb vu"
    from sk read_items_map_of [OF rs, of k] obtain w
      where "map_of sits k = Some w" and "read_val n h w = Some (VDict kc cs)"
      by (auto split: option.splits)
    moreover from rv xv obtain b m vits where "v = HRef b" and "obj h b = Some (HDict kb vits)"
      using read_val_VDict by blast
    ultimately show False
      using nd a read_val_VDict by (fastforce simp: h_getitem_obj)
  qed
  then have eq: "addict_merge s ((k, x) # u') = addict_merge (alist_set s k x) u'"
    by (simp add: addict_merge_Cons)
  from store_case [OF a ws rs rv wx rr kr d IH] obtain h'
    where "h_merge (h_setitem h a k v) a rest = Some h'"
      and "merge_post n h a kd sits ((k, v) # rest) (addict_merge (alist_set s k x) u') h'"
    by blast
  with run eq show ?thesis by simp
qed

lemma h_merge_loop:
  assumes CH: "\<And>m h c csits cs vits vu kb. n = Suc m \<Longrightarrow>
      obj h c = Some (HDict AddictDict csits) \<Longrightarrow> wf_val (VDict AddictDict cs) \<Longrightarrow>
      read_items m h csits = Some cs \<Longrightarrow> read_items m h vits = Some vu \<Longrightarrow>
      wf_val (VDict kb vu) \<Longrightarrow> distinct (c # foot_items m h csits @ foot_items m h vits) \<Longrightarrow>
      \<exists>h'. h_merge h c vits = Some h' \<and>
           merge_post m h c AddictDict csits vits (addict_merge cs vu) h'"
  shows "obj h a = Some (HDict kd sits) \<Longrightarrow> wf_val (VDict kd s) \<Longrightarrow>
    read_items n h sits = Some s \<Longrightarrow> read_items n h its = Some u \<Longrightarrow> wf_val (VDict kd' u) \<Longrightarrow>
    distinct (a # foot_items n h sits @ foot_items n h its) \<Longrightarrow>
    \<exists>h'. h_merge h a its = Some h' \<and> merge_post n h a kd sits its (addict_merge s u) h'"
proof (induction its arbitrary: h sits s u)
  case Nil
  then show ?case
    using read_items_keys [OF Nil.prems(3)] by (auto simp: h_merge_Nil merge_post_def)
next
  case (Cons p rest)
  obtain k v where p: "p = (k, v)" by fastforce
  from Cons.prems(4) p obtain x u' where rv: "read_val n h v = Some x"
    and rr: "read_items n h rest = Some u'" and u: "u = (k, x) # u'"
    by (auto split: option.splits)
  have kr: "k \<notin> set (map fst rest)" and wx: "wf_val x" and wu': "wf_val (VDict kd' u')"
    using Cons.prems(5) u read_items_keys [OF rr] by auto
  have IH: "\<And>h sits s. obj h a = Some (HDict kd sits) \<Longrightarrow> wf_val (VDict kd s) \<Longrightarrow>
      read_items n h sits = Some s \<Longrightarrow> read_items n h rest = Some u' \<Longrightarrow>
      distinct (a # foot_items n h sits @ foot_items n h rest) \<Longrightarrow>
      \<exists>h'. h_merge h a rest = Some h' \<and> merge_post n h a kd sits rest (addict_merge s u') h'"
    using Cons.IH wu' by blast
  have d: "distinct (a # foot_items n h sits @ foot_items n h ((k, v) # rest))"
    using Cons.prems(6) p by simp
  show ?case
  proof (cases "\<exists>c b kc csits kb vits. h_getitem h a k = Some (HRef c) \<and> v = HRef b \<and>
                  obj h c = Some (HDict kc csits) \<and> obj h b = Some (HDict kb vits)")
    case False
    from loop_store_case [OF Cons.prems(1,2,3) rv wx rr kr d IH False] show ?thesis
      unfolding p u .
  next
    case True
    then obtain c b kc csits kb vits where gk: "h_getitem h a k = Some (HRef c)" and vb: "v = HRef b"
      and oc: "obj h c = Some (HDict kc csits)" and ob: "obj h b = Some (HDict kb vits)"
      by blast
    have "\<exists>h'. h_merge h a ((k, HRef b) # rest) = Some h'
           \<and> merge_post n h a kd sits ((k, HRef b) # rest) (addict_merge s ((k, x) # u')) h'"
      using CH by (rule loop_dict_case [OF _ Cons.prems(1,2,3) rv [unfolded vb] wx rr kr
          d [unfolded vb] IH gk oc ob])
    then show ?thesis unfolding p u vb .
  qed
qed

theorem h_merge_sep:
  "obj h a = Some (HDict kd sits) \<Longrightarrow> wf_val (VDict kd s) \<Longrightarrow>
   read_items n h sits = Some s \<Longrightarrow> read_items n h its = Some u \<Longrightarrow> wf_val (VDict kd' u) \<Longrightarrow>
   distinct (a # foot_items n h sits @ foot_items n h its) \<Longrightarrow>
   \<exists>h'. h_merge h a its = Some h' \<and> merge_post n h a kd sits its (addict_merge s u) h'"
proof (induction n arbitrary: h a kd sits s its u kd')
  case 0
  show ?case by (rule h_merge_loop [OF _ 0(1-6)]) simp
next
  case (Suc m)
  show ?case by (rule h_merge_loop [OF _ Suc.prems]) (use Suc.IH in blast)
qed


lemma setattr_store:
  assumes d: "obj h d = Some (HDict AddictDict dits)" and r: "read_items n h dits = Some dv"
    and dd: "distinct (d # foot_items n h dits)" and v: "read_val n h v = Some x"
    and dv: "set (foot_val n h v) \<inter> set (d # foot_items n h dits) = {}" and dv': "distinct (foot_val n h v)"
    and ks: "distinct (map fst dits)"
  shows "read_items n (h_setitem h d a v) (alist_set dits a v) = Some (alist_set dv a x)
    \<and> obj (h_setitem h d a v) d = Some (HDict AddictDict (alist_set dits a v))
    \<and> distinct (d # foot_items n (h_setitem h d a v) (alist_set dits a v))
    \<and> set (foot_items n (h_setitem h d a v) (alist_set dits a v)) \<subseteq> set (foot_items n h dits) \<union> set (foot_val n h v)
    \<and> length (h_setitem h d a v) = length h
    \<and> (\<forall>q. q \<noteq> d \<longrightarrow> obj (h_setitem h d a v) q = obj h q)"
proof -
  have "distinct (d # foot_items n h dits @ foot_val n h v @ foot_items n h [])"
    using dd dv dv' by auto
  from store_step [OF d ks r v _ this refl, of "[]"] show ?thesis by auto
qed

lemma setattr_missing:
  assumes IH: "case setattr_path [] b bs x of
      Inl e \<Rightarrow> h_setattr (h @ [HDict AddictDict []]) (length h) b bs v = Inl e
    | Inr dv' \<Rightarrow> \<exists>h'. h_setattr (h @ [HDict AddictDict []]) (length h) b bs v = Inr h'
                 \<and> setattr_post m (h @ [HDict AddictDict []]) (length h) [] b dv' h'"
    and d: "obj h d = Some (HDict AddictDict dits)" and rs: "read_items (Suc m) h dits = Some dv"
    and ks: "distinct (map fst dits)" and dd: "distinct (d # foot_items (Suc m) h dits)"
    and na: "map_of dits a = None" and nc: "a \<notin> set dict_getattr_attrs"
  shows "case setattr_path dv a (b # bs) x of
      Inl e \<Rightarrow> h_setattr h d a (b # bs) v = Inl e
    | Inr dv' \<Rightarrow> \<exists>h'. h_setattr h d a (b # bs) v = Inr h' \<and> setattr_post (Suc m) h d dits a dv' h'"
proof -
  let ?h1 = "h @ [HDict AddictDict []]" and ?c = "length h"
  have dvn: "map_of dv a = None" using read_items_map_of [OF rs, of a] na by simp
  have run: "h_setattr h d a (b # bs) v =
      (case h_setattr ?h1 ?c b bs v of Inl e \<Rightarrow> Inl e | Inr h2 \<Rightarrow> Inr (h_setitem h2 d a (HRef ?c)))"
    using nc na d by (simp add: h_getitem_obj alloc_def)
  show ?thesis
  proof (cases "setattr_path [] b bs x")
    case (Inl e)
    with IH run nc dvn show ?thesis by simp
  next
    case (Inr child)
    with IH obtain h2 where r2: "h_setattr ?h1 ?c b bs v = Inr h2"
      and "setattr_post m ?h1 ?c [] b child h2" by auto
    then obtain cits' where c2: "obj h2 ?c = Some (HDict AddictDict cits')"
      and rc2: "read_items m h2 cits' = Some child" and dc2: "distinct (?c # foot_items m h2 cits')"
      and sc2: "set (foot_items m h2 cits') \<subseteq> {length ?h1..<length h2}" and l2: "length ?h1 \<le> length h2"
      and f2: "\<forall>q. q < length ?h1 \<longrightarrow> q \<noteq> ?c \<longrightarrow> obj h2 q = obj ?h1 q"
      unfolding setattr_post_def by auto
    have old: "\<forall>q. q < length h \<longrightarrow> obj h2 q = obj h q" using f2 obj_append by auto
    have ld: "d < length h" using d by (rule obj_length)
    have lt: "set (foot_items (Suc m) h dits) \<subseteq> {..<length h}" using foot_lt(2) [OF rs] .
    have d2: "obj h2 d = Some (HDict AddictDict dits)" using old ld d by simp
    have rd2: "read_items (Suc m) h2 dits = Some dv \<and> foot_items (Suc m) h2 dits = foot_items (Suc m) h dits"
      using heap_frame(2) [of "Suc m" h dits h2] old lt rs by auto
    have rv2: "read_val (Suc m) h2 (HRef ?c) = Some (VDict AddictDict child)" using c2 rc2 by simp
    have fv2: "foot_val (Suc m) h2 (HRef ?c) = ?c # foot_items m h2 cits'" using c2 by simp
    have disj: "set (foot_val (Suc m) h2 (HRef ?c)) \<inter> set (d # foot_items (Suc m) h2 dits) = {}"
    proof -
      have "set (foot_items m h2 cits') \<subseteq> {Suc (length h)..<length h2}" using sc2 by simp
      then have "\<forall>q \<in> set (foot_val (Suc m) h2 (HRef ?c)). length h \<le> q" using fv2 by auto
      moreover have "\<forall>q \<in> set (d # foot_items (Suc m) h2 dits). q < length h" using rd2 lt ld by auto
      ultimately show ?thesis by fastforce
    qed
    have "distinct (d # foot_items (Suc m) h2 dits)" using dd rd2 by simp
    note st = setattr_store [OF d2 conjunct1 [OF rd2] this rv2 disj _ ks, of a]
    have "distinct (foot_val (Suc m) h2 (HRef ?c))" using fv2 dc2 by simp
    with st have st': "read_items (Suc m) (h_setitem h2 d a (HRef ?c)) (alist_set dits a (HRef ?c))
          = Some (alist_set dv a (VDict AddictDict child))"
      "obj (h_setitem h2 d a (HRef ?c)) d = Some (HDict AddictDict (alist_set dits a (HRef ?c)))"
      "distinct (d # foot_items (Suc m) (h_setitem h2 d a (HRef ?c)) (alist_set dits a (HRef ?c)))"
      "set (foot_items (Suc m) (h_setitem h2 d a (HRef ?c)) (alist_set dits a (HRef ?c)))
          \<subseteq> set (foot_items (Suc m) h2 dits) \<union> set (foot_val (Suc m) h2 (HRef ?c))"
      "length (h_setitem h2 d a (HRef ?c)) = length h2"
      "\<forall>q. q \<noteq> d \<longrightarrow> obj (h_setitem h2 d a (HRef ?c)) q = obj h2 q"
      by blast+
    have s1: "set (foot_items m h2 cits') \<subseteq> {length h..<length h2}" using sc2 by auto
    have "length h < length h2" using l2 by simp
    then have "set (foot_val (Suc m) h2 (HRef ?c)) \<subseteq> {length h..<length h2}" using fv2 s1 by auto
    then have "set (foot_items (Suc m) h2 dits) \<union> set (foot_val (Suc m) h2 (HRef ?c))
        \<subseteq> set (foot_items (Suc m) h dits) \<union> {length h..<length h2}"
      using rd2 by auto
    with st' old l2 have "setattr_post (Suc m) h d dits a (alist_set dv a (VDict AddictDict child))
        (h_setitem h2 d a (HRef ?c))"
      unfolding setattr_post_def by (intro exI [of _ "alist_set dits a (HRef ?c)"]) auto
    with run r2 Inr nc dvn show ?thesis by simp
  qed
qed

lemma setattr_child:
  assumes IH: "case setattr_path cs b bs x of
      Inl e \<Rightarrow> h_setattr h c b bs v = Inl e
    | Inr dv' \<Rightarrow> \<exists>h'. h_setattr h c b bs v = Inr h' \<and> setattr_post m h c cits b dv' h'"
    and d: "obj h d = Some (HDict AddictDict dits)" and rs: "read_items (Suc m) h dits = Some dv"
    and ks: "distinct (map fst dits)" and dd: "distinct (d # foot_items (Suc m) h dits)"
    and kc: "map_of dits a = Some (HRef c)" and oc: "obj h c = Some (HDict AddictDict cits)"
    and rcs: "read_items m h cits = Some cs" and nc: "a \<notin> set dict_getattr_attrs"
  shows "case setattr_path dv a (b # bs) x of
      Inl e \<Rightarrow> h_setattr h d a (b # bs) v = Inl e
    | Inr dv' \<Rightarrow> \<exists>h'. h_setattr h d a (b # bs) v = Inr h' \<and> setattr_post (Suc m) h d dits a dv' h'"
proof -
  have dva: "map_of dv a = Some (VDict AddictDict cs)"
    using read_items_map_of [OF rs, of a] kc oc rcs by simp
  have run: "h_setattr h d a (b # bs) v = h_setattr h c b bs v"
    using nc kc d oc by (simp add: h_getitem_obj)
  show ?thesis
  proof (cases "setattr_path cs b bs x")
    case (Inl e)
    with IH run nc dva show ?thesis by simp
  next
    case (Inr cs')
    with IH obtain h2 where r2: "h_setattr h c b bs v = Inr h2"
      and "setattr_post m h c cits b cs' h2" by auto
    then obtain cits' where c2: "obj h2 c = Some (HDict AddictDict cits')"
      and rc2: "read_items m h2 cits' = Some cs'" and dc2: "distinct (c # foot_items m h2 cits')"
      and sc2: "set (foot_items m h2 cits') \<subseteq> set (foot_items m h cits) \<union> {length h..<length h2}"
      and l2: "length h \<le> length h2"
      and f2: "\<forall>q. q < length h \<longrightarrow> q \<notin> set (c # foot_items m h cits) \<longrightarrow> obj h2 q = obj h q"
      unfolding setattr_post_def by blast
    have lt: "set (foot_items (Suc m) h dits) \<subseteq> {..<length h}" using foot_lt(2) [OF rs] .
    have X: "{length h..<length h2} \<inter> set (d # foot_items (Suc m) h dits @ foot_items (Suc m) h []) = {}"
      using lt obj_length [OF d] by auto
    have "distinct (d # foot_items (Suc m) h dits @ foot_items (Suc m) h [])" using dd by simp
    from child_step [OF d ks rs kc oc _ this X c2 rc2 dc2 sc2 f2, of "[]"]
    have cs: "obj h2 d = Some (HDict AddictDict dits)"
      "read_items (Suc m) h2 dits = Some (alist_set dv a (VDict AddictDict cs'))"
      "distinct (d # foot_items (Suc m) h2 dits)"
      "set (foot_items (Suc m) h2 dits) \<subseteq> set (foot_items (Suc m) h dits) \<union> {length h..<length h2}"
      by auto
    have "set (c # foot_items m h cits) \<subseteq> set (foot_items (Suc m) h dits)"
      using foot_member [OF kc, of "Suc m" h] oc by simp
    then have "\<forall>q. q < length h \<longrightarrow> q \<notin> set (d # foot_items (Suc m) h dits) \<longrightarrow> obj h2 q = obj h q"
      using f2 by auto
    with cs l2 have "setattr_post (Suc m) h d dits a (alist_set dv a (VDict AddictDict cs')) h2"
      unfolding setattr_post_def by blast
    with run r2 Inr nc dva show ?thesis by simp
  qed
qed

lemma h_setattr_sep:
  "obj h d = Some (HDict AddictDict dits) \<Longrightarrow> read_items n h dits = Some dv \<Longrightarrow>
   wf_val (VDict AddictDict dv) \<Longrightarrow> distinct (d # foot_items n h dits) \<Longrightarrow> length p \<le> n \<Longrightarrow>
   read_val 0 h v = Some x \<Longrightarrow>
   (case setattr_path dv a p x of
      Inl e \<Rightarrow> h_setattr h d a p v = Inl e
    | Inr dv' \<Rightarrow> \<exists>h'. h_setattr h d a p v = Inr h' \<and> setattr_post n h d dits a dv' h')"
proof (induction p arbitrary: h d a dits dv n)
  case Nil
  show ?case
  proof (cases "a \<in> set dict_class_attrs")
    case False
    from scalar_read [OF Nil.prems(6), of n h] have "read_val n h v = Some x" and "foot_val n h v = []"
      by simp_all
    have "distinct (map fst dits)" using Nil.prems(3) read_items_keys [OF Nil.prems(2)] by simp
    from setattr_store [OF Nil.prems(1,2) Nil.prems(4) \<open>read_val n h v = Some x\<close> _ _ this]
      \<open>foot_val n h v = []\<close> False
    show ?thesis by (auto simp: setattr_post_def)
  qed simp
next
  case (Cons b bs)
  have ks: "distinct (map fst dits)" using Cons.prems(3) read_items_keys [OF Cons.prems(2)] by simp
  show ?case
  proof (cases "a \<in> set dict_getattr_attrs")
    case False
    obtain m where n: "n = Suc m" using Cons.prems(5) by (cases n) auto
    have bs: "length bs \<le> m" using Cons.prems(5) n by simp
    show ?thesis
    proof (cases "map_of dits a")
      case None
      have "obj (h @ [HDict AddictDict []]) (length h) = Some (HDict AddictDict [])"
        by (simp add: obj_def)
      from Cons.IH [OF this _ _ _ bs, of "[]"] Cons.prems(6) read_val_0 [of h v]
      have "case setattr_path [] b bs x of
          Inl e \<Rightarrow> h_setattr (h @ [HDict AddictDict []]) (length h) b bs v = Inl e
        | Inr dv' \<Rightarrow> \<exists>h'. h_setattr (h @ [HDict AddictDict []]) (length h) b bs v = Inr h'
                     \<and> setattr_post m (h @ [HDict AddictDict []]) (length h) [] b dv' h'"
        by (simp add: read_val_0)
      from setattr_missing [OF this Cons.prems(1) Cons.prems(2) [unfolded n] ks
          Cons.prems(4) [unfolded n] None False]
      show ?thesis unfolding n .
    next
      case (Some w)
      from read_items_member [OF Cons.prems(2) Some] obtain y
        where ry: "read_val n h w = Some y" and sy: "map_of dv a = Some y" by blast
      show ?thesis
      proof (cases "\<exists>c cits. w = HRef c \<and> obj h c = Some (HDict AddictDict cits)")
        case True
        then obtain c cits where w: "w = HRef c" and oc: "obj h c = Some (HDict AddictDict cits)"
          by blast
        from ry w oc n obtain cs where rcs: "read_items m h cits = Some cs"
          and y: "y = VDict AddictDict cs" by auto
        have wcs: "wf_val (VDict AddictDict cs)" using wf_map_of [OF Cons.prems(3) sy] y by simp
        obtain pre post where "dits = pre @ (a, HRef c) # post"
          using alist_split [OF Some [unfolded w]] by blast
        then have dc: "distinct (c # foot_items m h cits)" using Cons.prems(4) oc n by auto
        from Cons.IH [OF oc rcs wcs dc bs Cons.prems(6), of b]
        have "case setattr_path cs b bs x of
            Inl e \<Rightarrow> h_setattr h c b bs v = Inl e
          | Inr dv' \<Rightarrow> \<exists>h'. h_setattr h c b bs v = Inr h' \<and> setattr_post m h c cits b dv' h'" .
        from setattr_child [OF this Cons.prems(1) Cons.prems(2) [unfolded n] ks
            Cons.prems(4) [unfolded n] Some [unfolded w] oc rcs False]
        show ?thesis unfolding n .
      next
        case False
        have "\<not> (\<exists>cs. y = VDict AddictDict cs)"
          using False ry read_val_VDict by blast
        then have "setattr_path dv a (b # bs) x = Inl (AttributeError b)"
          using sy \<open>a \<notin> set dict_getattr_attrs\<close> by (auto split: pyval.split dkind.split)
        moreover have "h_setattr h d a (b # bs) v = Inl (AttributeError b)"
          using False Some Cons.prems(1) \<open>a \<notin> set dict_getattr_attrs\<close>
          by (auto simp: h_getitem_obj split: hval.split option.split hobj.split dkind.split)
        ultimately show ?thesis by simp
      qed
    qed
  qed simp
qed


lemma merge_post_Nil:
  assumes "obj h a = Some (HDict kd sits)" and "distinct (map fst sits)"
    and "read_items n h sits = Some s" and "distinct (a # foot_items n h sits)"
  shows "merge_post n h a kd sits [] s h"
  using assms unfolding merge_post_def by auto

lemma h_update_sep:
  assumes a: "obj h a = Some (HDict kd sits)" and ws: "wf_val (VDict kd s)"
    and rs: "read_items n h sits = Some s"
    and ra: "read_val (Suc n) h arg = Some v" and wv: "wf_val v"
    and d: "distinct (a # foot_items n h sits @ foot_val (Suc n) h arg)"
  shows "case addict_update s v of
      Inl e \<Rightarrow> h_update h a arg = Some (Inl e)
    | Inr r \<Rightarrow> \<exists>h' its. h_update h a arg = Some (Inr h') \<and> h_dict_items h arg = Inr its
                 \<and> merge_post n h a kd sits its r h'"
proof (cases arg)
  case (HRef b)
  from ra HRef obtain kb bits bu where ob: "obj h b = Some (HDict kb bits)"
    and rb: "read_items n h bits = Some bu" and v: "v = VDict kb bu"
    by (auto simp: read_val.simps(7) split: option.splits hobj.splits)
  have kbu: "distinct (map fst bu)" using wv v by simp
  then have kbits: "distinct (map fst bits)" using read_items_keys [OF rb] by simp
  have di: "h_dict_items h arg = Inr bits" using HRef ob kbits by (simp add: plain_update_Nil)
  have au: "addict_update s v = Inr (addict_merge s bu)"
    using v kbu by (simp add: addict_update_def plain_update_Nil)
  have "distinct (a # foot_items n h sits @ foot_items n h bits)" using d HRef ob by auto
  from h_merge_sep [OF a ws rs rb wv [unfolded v] this] obtain h'
    where "h_merge h a bits = Some h'" and "merge_post n h a kd sits bits (addict_merge s bu) h'"
    by blast
  with di au show ?thesis by (simp add: h_update_def)
next
  case (HStr str)
  have ks: "distinct (map fst sits)" using ws read_items_keys [OF rs] by simp
  have "distinct (a # foot_items n h sits)" using d by simp
  note mp = merge_post_Nil [OF a ks rs this]
  show ?thesis using HStr ra mp
    by (cases str) (auto simp: h_update_def addict_update_def h_merge_Nil)
qed (use ra in \<open>auto simp: h_update_def addict_update_def\<close>)

end
