(* ===== verification/HeapModule.thy ===== *)
theory HeapModule
  imports HeapDict GetConfig
begin

text \<open>
  The module \<^verbatim>\<open>src/pyEPR/_config_default.py\<close> on the object store. The state
  \<open>hstate\<close> holds the process heap, the object the global \<^verbatim>\<open>config\<close> is bound to
  (an address), \<^verbatim>\<open>__config_defined__\<close>, the printed lines, and the user's
  \<^verbatim>\<open>config_user.config\<close> object once that module has been imported (Python caches
  an imported module in \<^verbatim>\<open>sys.modules\<close>, so every later import returns the same
  object). \<open>h_exec_module\<close> is the module body: a fresh tree of \<^verbatim>\<open>Dict\<close> objects for
  the default table, bound to \<^verbatim>\<open>config\<close>. \<open>h_get_config\<close> is \<^verbatim>\<open>get_config\<close>: it
  returns the address of the module's object, the "config pointer" of its docstring,
  and its merge and probe store mutate that object in place.

  \<open>abs_state\<close> reads a heap state back into the value model of \<open>GetConfig\<close>. The
  first results are that the heap model refines the value model on the first load
  and that this load returns; the others are what only the heap model can state:
  that the returned object is always the module's own, that the merge stores the
  user's nested dictionaries themselves into \<^verbatim>\<open>config\<close>, so that a caller's store
  through \<^verbatim>\<open>config\<close> changes \<^verbatim>\<open>config_user.config\<close>, and that a reload rebinds
  \<^verbatim>\<open>config\<close> to a new object while older references keep the old one.
\<close>

record hstate =
  hs_heap :: heap
  hs_config :: addr
  hs_defined :: bool
  hs_stdout :: "string list"
  hs_user :: "hval option"

text \<open>A dictionary display evaluated into fresh objects; its address.\<close>

definition alloc_dict :: "heap \<Rightarrow> dkind \<Rightarrow> pydict \<Rightarrow> heap \<times> addr" where
  "alloc_dict h kd d = (case alloc_items h d of (h1, its) \<Rightarrow> alloc h1 (HDict kd its))"

subsection \<open>The module body (lines 14--113)\<close>

definition h_exec_module :: "hstate option \<Rightarrow> hstate" where
  "h_exec_module prev =
     (case prev of
        None \<Rightarrow>
          (case alloc_dict [] AddictDict default_config of
             (h, a) \<Rightarrow> \<lparr>hs_heap = h, hs_config = a, hs_defined = False, hs_stdout = [], hs_user = None\<rparr>)
      | Some s \<Rightarrow>
          (case alloc_dict (hs_heap s) AddictDict default_config of
             (h, a) \<Rightarrow> s\<lparr>hs_heap := h, hs_config := a, hs_defined := True\<rparr>))"

subsection \<open>The accessor (lines 129--155)\<close>

definition h_import_config_user :: "env \<Rightarrow> hstate \<Rightarrow> pyerror + hstate \<times> hval" where
  "h_import_config_user e s =
     (case config_user e of
        UserModuleMissing \<Rightarrow> Inl (ImportError ''config_user'')
      | UserModuleRaises \<Rightarrow> Inl UserModuleException
      | UserModuleNoConfig \<Rightarrow> Inl (AttributeError ''config'')
      | UserModule v \<Rightarrow>
          (case hs_user s of
             Some x \<Rightarrow> Inr (s, x)
           | None \<Rightarrow>
               (case alloc_val (hs_heap s) v of
                  (h, x) \<Rightarrow> Inr (s\<lparr>hs_heap := h, hs_user := Some x\<rparr>, x))))"

definition h_get_config :: "env \<Rightarrow> hstate \<Rightarrow> (hstate \<times> (pyerror + addr)) option" where
  "h_get_config e s =
     (if hs_defined s then
        Some (s\<lparr>hs_stdout := hs_stdout s @ [''Config is already defined.'']\<rparr>, Inr (hs_config s))
      else
        (let s1 = s\<lparr>hs_stdout := hs_stdout s @ [''First time load of config'']\<rparr> in
         case h_import_config_user e s1 of
           Inl err \<Rightarrow> Some (s1, Inl err)
         | Inr (s2, user) \<Rightarrow>
             (case h_update (hs_heap s2) (hs_config s2) user of
                None \<Rightarrow> None
              | Some (Inl err) \<Rightarrow> Some (s2, Inl err)
              | Some (Inr h3) \<Rightarrow>
                  (let s3 = s2\<lparr>hs_heap := h3\<rparr> in
                   case h_setattr h3 (hs_config s3) ''internal'' [''ipython'']
                          (HBool (is_using_ipython e)) of
                     Inl err \<Rightarrow> Some (s3, Inl err)
                   | Inr h4 \<Rightarrow> Some (s3\<lparr>hs_heap := h4\<rparr>, Inr (hs_config s3))))))"

subsection \<open>Reading a heap state back\<close>

definition abs_state :: "nat \<Rightarrow> hstate \<Rightarrow> modstate option" where
  "abs_state n s =
     (case read_val n (hs_heap s) (HRef (hs_config s)) of
        Some (VDict AddictDict c) \<Rightarrow>
          Some \<lparr>config = c, config_defined = hs_defined s, stdout = hs_stdout s\<rparr>
      | _ \<Rightarrow> None)"

text \<open>An override that adds a section of its own, \<^verbatim>\<open>config = Dict(sweep=Dict(n=3))\<close>.\<close>

definition sweep_env :: env where
  "sweep_env =
     \<lparr>builtins = Map.empty,
      config_user = UserModule (VDict AddictDict [(''sweep'', VDict AddictDict [(''n'', VInt 3)])])\<rparr>"

text \<open>The state after the first load under \<open>sweep_env\<close>, and the heap after a caller's
  store \<^verbatim>\<open>config.sweep.n = 7\<close> through the returned pointer.\<close>

definition sweep_loaded :: hstate where
  "sweep_loaded = fst (the (h_get_config sweep_env (h_exec_module None)))"

definition sweep_stored :: heap where
  "sweep_stored = projr (h_setattr (hs_heap sweep_loaded) (hs_config sweep_loaded) ''sweep'' [''n''] (HInt 7))"

lemma alloc_val_VDict:
  "alloc_val h (VDict kd d) = (fst (alloc_dict h kd d), HRef (snd (alloc_dict h kd d)))"
  by (simp add: alloc_dict_def alloc_def split: prod.split)

lemma alloc_dict_fresh:
  assumes "alloc_dict h kd d = (h', a)" and "size (VDict kd d) \<le> Suc n"
  shows "\<exists>its. obj h' a = Some (HDict kd its) \<and> read_items n h' its = Some d
     \<and> distinct (a # foot_items n h' its) \<and> set (a # foot_items n h' its) \<subseteq> {length h..<length h'}
     \<and> (\<exists>ext. h' = h @ ext)"
proof -
  have av: "alloc_val h (VDict kd d) = (h', HRef a)"
    using alloc_val_VDict [of h kd d] assms(1) by (simp del: alloc_val.simps)
  from alloc_fresh(1) [OF av assms(2)] obtain ext where h': "h' = h @ ext"
    and r: "read_val (Suc n) h' (HRef a) = Some (VDict kd d)"
    and di: "distinct (foot_val (Suc n) h' (HRef a))"
    and s: "set (foot_val (Suc n) h' (HRef a)) \<subseteq> {length h..<length h'}" by blast
  from r obtain its where o: "obj h' a = Some (HDict kd its)" and ri: "read_items n h' its = Some d"
    by (auto simp: read_val.simps(7) split: option.splits hobj.splits)
  from o di s have "distinct (a # foot_items n h' its)" and "set (a # foot_items n h' its) \<subseteq> {length h..<length h'}"
    by simp_all
  with o ri h' show ?thesis by blast
qed


lemma abs_state_read:
  "obj (hs_heap s) (hs_config s) = Some (HDict AddictDict its) \<Longrightarrow>
   read_items n (hs_heap s) its = Some c \<Longrightarrow>
   abs_state (Suc n) s = Some \<lparr>config = c, config_defined = hs_defined s, stdout = hs_stdout s\<rparr>"
  by (simp add: abs_state_def)

text \<open>The merge and the probe store of a first load, once \<^verbatim>\<open>config_user.config\<close> is an
  object \<open>x\<close> separate from the module's tree.\<close>

lemma first_load_merge:
  assumes o: "obj h p = Some (HDict AddictDict sits)" and r: "read_items n h sits = Some c"
    and wc: "wf_dict c" and rx: "read_val (Suc n) h x = Some v" and wv: "wf_val v"
    and d: "distinct (p # foot_items n h sits @ foot_val (Suc n) h x)" and n: "1 \<le> n"
  shows "case addict_update c v of
      Inl err \<Rightarrow> h_update h p x = Some (Inl err)
    | Inr merged \<Rightarrow> \<exists>h3 sits3. h_update h p x = Some (Inr h3)
        \<and> obj h3 p = Some (HDict AddictDict sits3) \<and> read_items n h3 sits3 = Some merged
        \<and> (case setattr_path merged ''internal'' [''ipython''] (VBool b) of
             Inl err \<Rightarrow> h_setattr h3 p ''internal'' [''ipython''] (HBool b) = Inl err
           | Inr c' \<Rightarrow> \<exists>h4 sits4. h_setattr h3 p ''internal'' [''ipython''] (HBool b) = Inr h4
               \<and> obj h4 p = Some (HDict AddictDict sits4) \<and> read_items n h4 sits4 = Some c')"
proof (cases "addict_update c v")
  case (Inl err)
  with h_update_sep [OF o wc r rx wv d] show ?thesis by simp
next
  case (Inr merged)
  with h_update_sep [OF o wc r rx wv d] obtain h3 its where u: "h_update h p x = Some (Inr h3)"
    and "merge_post n h p AddictDict sits its merged h3" by auto
  then obtain sits3 where o3: "obj h3 p = Some (HDict AddictDict sits3)"
    and r3: "read_items n h3 sits3 = Some merged" and d3: "distinct (p # foot_items n h3 sits3)"
    unfolding merge_post_def by blast
  have wm: "wf_dict merged" using addict_update_wf [OF Inr wc wv] .
  have "length [''ipython''] \<le> n" using n by simp
  from h_setattr_sep [OF o3 r3 wm d3 this, of "HBool b" "VBool b" "''internal''"]
  have "case setattr_path merged ''internal'' [''ipython''] (VBool b) of
      Inl e \<Rightarrow> h_setattr h3 p ''internal'' [''ipython''] (HBool b) = Inl e
    | Inr dv' \<Rightarrow> \<exists>h'. h_setattr h3 p ''internal'' [''ipython''] (HBool b) = Inr h'
                 \<and> setattr_post n h3 p sits3 ''internal'' dv' h'"
    by simp
  then have "case setattr_path merged ''internal'' [''ipython''] (VBool b) of
      Inl err \<Rightarrow> h_setattr h3 p ''internal'' [''ipython''] (HBool b) = Inl err
    | Inr c' \<Rightarrow> \<exists>h4 sits4. h_setattr h3 p ''internal'' [''ipython''] (HBool b) = Inr h4
        \<and> obj h4 p = Some (HDict AddictDict sits4) \<and> read_items n h4 sits4 = Some c'"
    unfolding setattr_post_def by (auto split: sum.splits)
  with Inr u o3 r3 show ?thesis by auto
qed


lemma user_alloc_sep:
  assumes o: "obj h p = Some (HDict AddictDict sits)" and r: "read_items n h sits = Some c"
    and d: "distinct (p # foot_items n h sits)" and av: "alloc_val h v = (h1, x)"
    and N: "n \<le> N" and sv: "size v \<le> Suc N"
  shows "obj h1 p = Some (HDict AddictDict sits) \<and> read_items N h1 sits = Some c
    \<and> read_val (Suc N) h1 x = Some v
    \<and> distinct (p # foot_items N h1 sits @ foot_val (Suc N) h1 x)"
proof -
  from alloc_fresh(1) [OF av sv] obtain ext where h1: "h1 = h @ ext"
    and rx: "read_val (Suc N) h1 x = Some v" and dx: "distinct (foot_val (Suc N) h1 x)"
    and sx: "set (foot_val (Suc N) h1 x) \<subseteq> {length h..<length h1}" by blast
  from read_items_mono [OF r N] have rN: "read_items N h sits = Some c"
    and fN: "foot_items N h sits = foot_items n h sits" by simp_all
  have lt: "set (foot_items N h sits) \<subseteq> {..<length h}" using foot_lt(2) [OF rN] .
  have "\<forall>q \<in> set (foot_items N h sits). obj h1 q = obj h q" using lt h1 obj_append by auto
  from heap_frame(2) [OF this] rN have r1: "read_items N h1 sits = Some c"
    and f1: "foot_items N h1 sits = foot_items N h sits" by simp_all
  have lp: "p < length h" using o by (rule obj_length)
  have o1: "obj h1 p = Some (HDict AddictDict sits)" using o lp h1 obj_append by simp
  have "\<forall>q \<in> set (p # foot_items N h1 sits). q < length h" using lt f1 lp by auto
  moreover have "\<forall>q \<in> set (foot_val (Suc N) h1 x). length h \<le> q" using sx by auto
  ultimately have "set (p # foot_items N h1 sits) \<inter> set (foot_val (Suc N) h1 x) = {}" by fastforce
  with d fN f1 dx have "distinct (p # foot_items N h1 sits @ foot_val (Suc N) h1 x)" by auto
  with o1 r1 rx show ?thesis by blast
qed

lemma h_get_config_user_run:
  assumes nd: "\<not> hs_defined s" and nu: "hs_user s = None" and cu: "config_user e = UserModule v"
    and av: "alloc_val (hs_heap s) v = (h1, x)"
  defines "s2 \<equiv> s\<lparr>hs_stdout := hs_stdout s @ [''First time load of config''], hs_heap := h1, hs_user := Some x\<rparr>"
  shows "h_get_config e s =
      (case h_update h1 (hs_config s) x of
         None \<Rightarrow> None
       | Some (Inl err) \<Rightarrow> Some (s2, Inl err)
       | Some (Inr h3) \<Rightarrow>
           (case h_setattr h3 (hs_config s) ''internal'' [''ipython''] (HBool (is_using_ipython e)) of
              Inl err \<Rightarrow> Some (s2\<lparr>hs_heap := h3\<rparr>, Inl err)
            | Inr h4 \<Rightarrow> Some (s2\<lparr>hs_heap := h4\<rparr>, Inr (hs_config s))))"
proof -
  have "h_import_config_user e (s\<lparr>hs_stdout := hs_stdout s @ [''First time load of config'']\<rparr>) = Inr (s2, x)"
    using cu nu av by (simp add: h_import_config_user_def s2_def)
  with nd show ?thesis
    by (simp add: h_get_config_def Let_def s2_def del: h_setattr.simps split: option.split sum.split)
qed

lemma h_get_config_first:
  assumes nd: "\<not> hs_defined s" and nu: "hs_user s = None"
    and o: "obj (hs_heap s) (hs_config s) = Some (HDict AddictDict sits)"
    and r: "read_items n (hs_heap s) sits = Some c" and wc: "wf_dict c"
    and d: "distinct (hs_config s # foot_items n (hs_heap s) sits)" and we: "wf_user e"
  defines "ms \<equiv> \<lparr>config = c, config_defined = False, stdout = hs_stdout s\<rparr>"
  shows "\<exists>s' res m. h_get_config e s = Some (s', res) \<and> abs_state m s' = Some (fst (get_config e ms))
           \<and> res = map_sum id (\<lambda>_. hs_config s) (snd (get_config e ms))"
proof (cases "config_user e")
  case (UserModule v)
  let ?p = "hs_config s" and ?b = "is_using_ipython e"
  let ?s1 = "s\<lparr>hs_stdout := hs_stdout s @ [''First time load of config'']\<rparr>"
  obtain h1 x where av: "alloc_val (hs_heap s) v = (h1, x)" by fastforce
  let ?N = "Suc (max n (size v))"
  let ?s2 = "?s1\<lparr>hs_heap := h1, hs_user := Some x\<rparr>"
  have wv: "wf_val v" using we UserModule by (simp add: wf_user_def)
  from user_alloc_sep [OF o r d av, of ?N] have o1: "obj h1 ?p = Some (HDict AddictDict sits)"
    and r1: "read_items ?N h1 sits = Some c" and rx: "read_val (Suc ?N) h1 x = Some v"
    and d1: "distinct (?p # foot_items ?N h1 sits @ foot_val (Suc ?N) h1 x)" by auto
  note run = h_get_config_user_run [OF nd nu UserModule av]
  have val: "get_config e ms =
      (case addict_update c v of
         Inl err \<Rightarrow> (ms\<lparr>stdout := hs_stdout s @ [''First time load of config'']\<rparr>, Inl err)
       | Inr merged \<Rightarrow>
           (case setattr_path merged ''internal'' [''ipython''] (VBool ?b) of
              Inl err \<Rightarrow> (ms\<lparr>stdout := hs_stdout s @ [''First time load of config''], config := merged\<rparr>, Inl err)
            | Inr c' \<Rightarrow> (ms\<lparr>stdout := hs_stdout s @ [''First time load of config''], config := c'\<rparr>, Inr c')))"
    using UserModule
    by (simp add: ms_def get_config_def import_config_user_def del: setattr_path.simps split: sum.split)
  note fl = first_load_merge [OF o1 r1 wc rx wv d1, of ?b]
  show ?thesis
  proof (cases "addict_update c v")
    case (Inl err)
    with fl run val o1 r1 nd show ?thesis
      by (intro exI [of _ ?s2] exI [of _ "Inl err"] exI [of _ "Suc ?N"])
         (simp add: abs_state_read ms_def)
  next
    case (Inr merged)
    with fl obtain h3 sits3 where u: "h_update h1 ?p x = Some (Inr h3)"
      and o3: "obj h3 ?p = Some (HDict AddictDict sits3)" and r3: "read_items ?N h3 sits3 = Some merged"
      and st: "case setattr_path merged ''internal'' [''ipython''] (VBool ?b) of
             Inl err \<Rightarrow> h_setattr h3 ?p ''internal'' [''ipython''] (HBool ?b) = Inl err
           | Inr c' \<Rightarrow> \<exists>h4 sits4. h_setattr h3 ?p ''internal'' [''ipython''] (HBool ?b) = Inr h4
               \<and> obj h4 ?p = Some (HDict AddictDict sits4) \<and> read_items ?N h4 sits4 = Some c'"
      by auto
    show ?thesis
    proof (cases "setattr_path merged ''internal'' [''ipython''] (VBool ?b)")
      case (Inl err)
      with st run val u Inr o3 r3 nd show ?thesis
        by (intro exI [of _ "?s2\<lparr>hs_heap := h3\<rparr>"] exI [of _ "Inl err"] exI [of _ "Suc ?N"])
           (simp add: abs_state_read ms_def)
    next
      case (Inr c')
      with st obtain h4 sits4 where s4: "h_setattr h3 ?p ''internal'' [''ipython''] (HBool ?b) = Inr h4"
        and o4: "obj h4 ?p = Some (HDict AddictDict sits4)" and r4: "read_items ?N h4 sits4 = Some c'"
        by auto
      with Inr run val u \<open>addict_update c v = Inr merged\<close> nd show ?thesis
        by (intro exI [of _ "?s2\<lparr>hs_heap := h4\<rparr>"] exI [of _ "Inr ?p"] exI [of _ "Suc ?N"])
           (simp add: abs_state_read ms_def)
    qed
  qed
qed (use nd o r in \<open>simp_all add: h_get_config_def h_import_config_user_def get_config_def
        import_config_user_def ms_def abs_state_read exI [of _ "Suc n"]\<close>)


text \<open>The objects of \<^verbatim>\<open>config_user.config\<close> once a first load has stored into
  \<^verbatim>\<open>config\<close>: the module's object has the merged items, the user's own object
  is unchanged.\<close>

lemma first_load_objects:
  assumes o1: "obj h1 p = Some (HDict AddictDict sits)" and r1: "read_items N h1 sits = Some c"
    and wc: "wf_dict c" and ou: "obj h1 u = Some (HDict ku uits)"
    and ru: "read_items N h1 uits = Some du" and wu: "wf_val (VDict ku du)"
    and d1: "distinct (p # foot_items N h1 sits @ foot_val (Suc N) h1 (HRef u))" and N: "1 \<le> N"
    and u3: "h_update h1 p (HRef u) = Some (Inr h3)"
    and s4: "h_setattr h3 p ''internal'' [''ipython''] (HBool b) = Inr h4"
  shows "\<exists>sits4. obj h4 p = Some (HDict AddictDict sits4) \<and> obj h4 u = obj h1 u
     \<and> (\<forall>j w. j \<noteq> ''internal'' \<longrightarrow> map_of uits j = Some w \<longrightarrow> map_of sits j = None
          \<longrightarrow> map_of sits4 j = Some w)"
proof -
  have rx: "read_val (Suc N) h1 (HRef u) = Some (VDict ku du)" using ou ru by simp
  have ku: "distinct (map fst uits)" using wu read_items_keys [OF ru] by simp
  have au: "addict_update c (VDict ku du) = Inr (addict_merge c du)"
    using wu by (rule addict_update_dict)
  from h_update_sep [OF o1 wc r1 rx wu d1] au u3 ou ku
  have "merge_post N h1 p AddictDict sits uits (addict_merge c du) h3"
    by (auto simp: plain_update_Nil)
  then obtain sits3 where o3: "obj h3 p = Some (HDict AddictDict sits3)"
    and r3: "read_items N h3 sits3 = Some (addict_merge c du)" and d3: "distinct (p # foot_items N h3 sits3)"
    and f3: "set (foot_items N h3 sits3) \<subseteq> set (foot_items N h1 sits) \<union> set (foot_items N h1 uits)"
    and l3: "length h3 = length h1"
    and fr3: "\<forall>q. q \<notin> set (p # foot_items N h1 (filter (\<lambda>q. fst q \<in> set (map fst uits)) sits))
               \<longrightarrow> obj h3 q = obj h1 q"
    and K2: "\<forall>j w. map_of uits j = Some w \<longrightarrow> map_of sits j = None \<longrightarrow> map_of sits3 j = Some w"
    unfolding merge_post_def by blast
  have fu: "foot_val (Suc N) h1 (HRef u) = u # foot_items N h1 uits" using ou by simp
  have nu: "u \<notin> set (p # foot_items N h1 sits)" and nu': "u \<notin> set (foot_items N h1 uits)"
    using d1 fu by auto
  have "u \<notin> set (p # foot_items N h1 (filter (\<lambda>q. fst q \<in> set (map fst uits)) sits))"
    using nu foot_filter [of N h1 _ sits] by auto
  with fr3 have ou3: "obj h3 u = obj h1 u" by blast
  have wm: "wf_dict (addict_merge c du)" using wc wu by (rule wf_addict_merge)
  have "length [''ipython''] \<le> N" using N by simp
  from h_setattr_sep [OF o3 r3 wm d3 this, of "HBool b" "VBool b" "''internal''"] s4
  obtain c' where "setattr_post N h3 p sits3 ''internal'' c' h4"
    by (auto split: sum.splits)
  then obtain sits4 where o4: "obj h4 p = Some (HDict AddictDict sits4)"
    and fr4: "\<forall>q. q < length h3 \<longrightarrow> q \<notin> set (p # foot_items N h3 sits3) \<longrightarrow> obj h4 q = obj h3 q"
    and K: "\<forall>j. j \<noteq> ''internal'' \<longrightarrow> map_of sits4 j = map_of sits3 j"
    unfolding setattr_post_def by blast
  have "u < length h3" using obj_length [OF ou] l3 by simp
  moreover have "u \<notin> set (p # foot_items N h3 sits3)" using f3 nu nu' by auto
  ultimately have "obj h4 u = obj h1 u" using fr4 ou3 by simp
  with o4 K K2 show ?thesis by auto
qed

lemma first_load_alias:
  assumes nd: "\<not> hs_defined s" and nu: "hs_user s = None"
    and o: "obj (hs_heap s) (hs_config s) = Some (HDict AddictDict sits)"
    and r: "read_items n (hs_heap s) sits = Some c" and wc: "wf_dict c"
    and d: "distinct (hs_config s # foot_items n (hs_heap s) sits)"
    and cu: "config_user e = UserModule (VDict ku du)" and wu: "wf_val (VDict ku du)"
    and kd: "map_of du k = Some (VDict kk dk)" and kc: "map_of c k = None" and ki: "k \<noteq> ''internal''"
    and run: "h_get_config e s = Some (s', Inr p)"
  shows "\<exists>u b. hs_user s' = Some (HRef u) \<and> h_getitem (hs_heap s') p k = Some (HRef b)
           \<and> h_getitem (hs_heap s') u k = Some (HRef b) \<and> u \<noteq> b"
proof -
  obtain h1 u where ad: "alloc_dict (hs_heap s) ku du = (h1, u)" by fastforce
  then have av: "alloc_val (hs_heap s) (VDict ku du) = (h1, HRef u)"
    using alloc_val_VDict [of "hs_heap s" ku du] by (simp del: alloc_val.simps)
  let ?N = "Suc (max n (size (VDict ku du)))"
  from user_alloc_sep [OF o r d av, of ?N] have o1: "obj h1 (hs_config s) = Some (HDict AddictDict sits)"
    and r1: "read_items ?N h1 sits = Some c" and rx: "read_val (Suc ?N) h1 (HRef u) = Some (VDict ku du)"
    and d1: "distinct (hs_config s # foot_items ?N h1 sits @ foot_val (Suc ?N) h1 (HRef u))" by auto
  from rx obtain uits where ou: "obj h1 u = Some (HDict ku uits)" and ru: "read_items ?N h1 uits = Some du"
    by (auto simp: read_val.simps(7) split: option.splits hobj.splits)
  from read_items_map_of [OF ru, of k] kd obtain w where uk: "map_of uits k = Some w"
    and "read_val ?N h1 w = Some (VDict kk dk)" by (auto split: option.splits)
  then obtain b bits where w: "w = HRef b" and ob: "obj h1 b = Some (HDict kk bits)"
    using read_val_VDict by blast
  have "b \<in> set (foot_items ?N h1 uits)"
    using foot_member [OF uk, of ?N h1] w ob by auto
  moreover have "u \<notin> set (foot_items ?N h1 uits)" using d1 ou by simp
  ultimately have ub: "u \<noteq> b" by blast
  have sk: "map_of sits k = None"
    using read_items_keys [OF r1] kc by (metis map_of_eq_None_iff set_map)
  note eq = h_get_config_user_run [OF nd nu cu av]
  obtain h3 where u3: "h_update h1 (hs_config s) (HRef u) = Some (Inr h3)"
  proof (cases "h_update h1 (hs_config s) (HRef u)")
    case None
    with run eq show ?thesis by (simp del: h_setattr.simps)
  next
    case (Some r')
    show ?thesis
    proof (cases r')
      case (Inl err)
      with Some run eq show ?thesis by (simp del: h_setattr.simps)
    next
      case (Inr h3)
      with Some that show ?thesis by simp
    qed
  qed
  obtain h4 where s4: "h_setattr h3 (hs_config s) ''internal'' [''ipython''] (HBool (is_using_ipython e)) = Inr h4"
    and s': "hs_heap s' = h4 \<and> hs_user s' = Some (HRef u)"
    and p: "p = hs_config s"
  proof (cases "h_setattr h3 (hs_config s) ''internal'' [''ipython''] (HBool (is_using_ipython e))")
    case (Inl err)
    with run eq u3 show ?thesis by (simp del: h_setattr.simps)
  next
    case (Inr h4)
    with run eq u3 have "(hs_heap s' = h4 \<and> hs_user s' = Some (HRef u)) \<and> p = hs_config s"
      by (auto simp del: h_setattr.simps)
    with Inr that show ?thesis by blast
  qed
  from first_load_objects [OF o1 r1 wc ou ru wu d1 _ u3 s4] obtain sits4
    where "obj h4 (hs_config s) = Some (HDict AddictDict sits4)" and "obj h4 u = obj h1 u"
      and "\<forall>j w. j \<noteq> ''internal'' \<longrightarrow> map_of uits j = Some w \<longrightarrow> map_of sits j = None
               \<longrightarrow> map_of sits4 j = Some w"
    by auto
  with uk w sk ki ou s' p ub show ?thesis by (auto simp: h_getitem_def)
qed


lemma exec_module_fresh:
  assumes "size (VDict AddictDict default_config) \<le> Suc n"
  shows "\<exists>its. obj (hs_heap (h_exec_module p)) (hs_config (h_exec_module p)) = Some (HDict AddictDict its)
    \<and> read_items n (hs_heap (h_exec_module p)) its = Some default_config
    \<and> distinct (hs_config (h_exec_module p) # foot_items n (hs_heap (h_exec_module p)) its)
    \<and> set (hs_config (h_exec_module p) # foot_items n (hs_heap (h_exec_module p)) its)
        \<subseteq> {length (case p of None \<Rightarrow> [] | Some s \<Rightarrow> hs_heap s)..<length (hs_heap (h_exec_module p))}
    \<and> (\<exists>ext. hs_heap (h_exec_module p) = (case p of None \<Rightarrow> [] | Some s \<Rightarrow> hs_heap s) @ ext)"
proof -
  obtain h a where ad: "alloc_dict (case p of None \<Rightarrow> [] | Some s \<Rightarrow> hs_heap s) AddictDict default_config = (h, a)"
    by fastforce
  then have "hs_heap (h_exec_module p) = h \<and> hs_config (h_exec_module p) = a"
    by (cases p) (auto simp: h_exec_module_def)
  with alloc_dict_fresh [OF ad assms] show ?thesis by simp
qed

lemma exec_module_first:
  "\<not> hs_defined (h_exec_module None) \<and> hs_user (h_exec_module None) = None
   \<and> hs_stdout (h_exec_module None) = []"
  by (simp add: h_exec_module_def split: prod.split)

lemma h_setattr_shared:
  "h_getitem h d1 k = Some (HRef b) \<Longrightarrow> h_getitem h d2 k = Some (HRef b) \<Longrightarrow>
   h_setattr h d1 k (j # js) v = h_setattr h d2 k (j # js) v"
  by simp

lemma h_get_config_defined:
  "hs_defined s \<Longrightarrow>
   h_get_config e s = Some (s\<lparr>hs_stdout := hs_stdout s @ [''Config is already defined.'']\<rparr>, Inr (hs_config s))"
  by (simp add: h_get_config_def)

lemma fresh_module_tree:
  "\<exists>its. obj (hs_heap (h_exec_module None)) (hs_config (h_exec_module None)) = Some (HDict AddictDict its)
    \<and> read_items (size (VDict AddictDict default_config)) (hs_heap (h_exec_module None)) its = Some default_config
    \<and> distinct (hs_config (h_exec_module None)
         # foot_items (size (VDict AddictDict default_config)) (hs_heap (h_exec_module None)) its)"
  using exec_module_fresh [of "size (VDict AddictDict default_config)" None] by auto

lemma fresh_first_load_alias:
  assumes we: "wf_user e" and cu: "config_user e = UserModule (VDict ku du)"
    and kd: "map_of du k = Some (VDict kk dk)" and kc: "map_of default_config k = None"
    and run: "h_get_config e (h_exec_module None) = Some (s', Inr p)"
  shows "\<exists>u b. hs_user s' = Some (HRef u) \<and> h_getitem (hs_heap s') p k = Some (HRef b)
           \<and> h_getitem (hs_heap s') u k = Some (HRef b) \<and> u \<noteq> b"
proof -
  obtain its where o: "obj (hs_heap (h_exec_module None)) (hs_config (h_exec_module None)) = Some (HDict AddictDict its)"
    and r: "read_items (size (VDict AddictDict default_config)) (hs_heap (h_exec_module None)) its = Some default_config"
    and d: "distinct (hs_config (h_exec_module None)
         # foot_items (size (VDict AddictDict default_config)) (hs_heap (h_exec_module None)) its)"
    using fresh_module_tree by blast
  have "\<not> hs_defined (h_exec_module None)" and "hs_user (h_exec_module None) = None"
    using exec_module_first by simp_all
  moreover have "wf_val (VDict ku du)" using we cu by (simp add: wf_user_def)
  moreover have "k \<noteq> ''internal''" using kc by (auto simp: default_config_def)
  ultimately show ?thesis
    using first_load_alias [OF _ _ o r wf_default_config d cu _ kd kc _ run] by blast
qed

subsection \<open>The first load on the object store\<close>

text \<open>C14. On a freshly imported module and any well-formed \<^verbatim>\<open>config_user\<close>, the first
  \<^verbatim>\<open>get_config()\<close> on the object store returns, and reading its state back gives the
  state and the result of the value model's \<open>get_config\<close>: the returned pointer is the
  module's own object, which then holds the merged table.\<close>

theorem h_first_load_refines:
  assumes we: "wf_user e"
  shows "\<exists>s' res m. h_get_config e (h_exec_module None) = Some (s', res)
     \<and> abs_state m s' = Some (fst (get_config e fresh_module))
     \<and> res = map_sum id (\<lambda>_. hs_config (h_exec_module None)) (snd (get_config e fresh_module))"
proof -
  obtain its where o: "obj (hs_heap (h_exec_module None)) (hs_config (h_exec_module None)) = Some (HDict AddictDict its)"
    and r: "read_items (size (VDict AddictDict default_config)) (hs_heap (h_exec_module None)) its = Some default_config"
    and d: "distinct (hs_config (h_exec_module None)
         # foot_items (size (VDict AddictDict default_config)) (hs_heap (h_exec_module None)) its)"
    using fresh_module_tree by blast
  have ms: "fresh_module = \<lparr>config = default_config, config_defined = False, stdout = hs_stdout (h_exec_module None)\<rparr>"
    using exec_module_first by (simp add: fresh_module_def exec_module_def)
  have "\<not> hs_defined (h_exec_module None)" and "hs_user (h_exec_module None) = None"
    using exec_module_first by simp_all
  from h_get_config_first [OF this o r wf_default_config d we] ms show ?thesis by simp
qed

text \<open>The witness: the override of the specification's example.\<close>

theorem h_first_load_refines_witness:
  "\<exists>s' res m. h_get_config spec_example_env (h_exec_module None) = Some (s', res)
     \<and> abs_state m s' = Some (fst (get_config spec_example_env fresh_module))
     \<and> res = map_sum id (\<lambda>_. hs_config (h_exec_module None)) (snd (get_config spec_example_env fresh_module))"
  using h_first_load_refines [of spec_example_env] by (simp add: wf_user_def spec_example_env_def)

subsection \<open>Aliasing between \<^verbatim>\<open>config\<close> and \<^verbatim>\<open>config_user.config\<close>\<close>

text \<open>C16. \<^verbatim>\<open>Dict.update\<close> stores a value of the override whose key the defaults do
  not have by reference: after a successful first load, for every section \<open>k\<close> that
  \<^verbatim>\<open>config_user.config\<close> adds as a dictionary, \<^verbatim>\<open>config[k]\<close> and
  \<^verbatim>\<open>config_user.config[k]\<close> are the same object.\<close>

theorem h_first_load_alias:
  assumes "wf_user e" and "config_user e = UserModule (VDict ku du)"
    and "map_of du k = Some (VDict kk dk)" and "map_of default_config k = None"
    and "h_get_config e (h_exec_module None) = Some (s', Inr p)"
  shows "\<exists>u b. hs_user s' = Some (HRef u) \<and> h_getitem (hs_heap s') p k = Some (HRef b)
           \<and> h_getitem (hs_heap s') u k = Some (HRef b)"
  using fresh_first_load_alias [OF assms] by blast

lemma sweep_loaded_run:
  "h_get_config sweep_env (h_exec_module None) = Some (sweep_loaded, Inr (hs_config sweep_loaded))"
  by code_simp

theorem h_first_load_alias_witness:
  "\<exists>u b. hs_user sweep_loaded = Some (HRef u)
     \<and> h_getitem (hs_heap sweep_loaded) (hs_config sweep_loaded) ''sweep'' = Some (HRef b)
     \<and> h_getitem (hs_heap sweep_loaded) u ''sweep'' = Some (HRef b)"
  by (rule h_first_load_alias [where ku = AddictDict and du = "[(''sweep'', VDict AddictDict [(''n'', VInt 3)])]"
        and kk = AddictDict and dk = "[(''n'', VInt 3)]", OF _ _ _ _ sweep_loaded_run])
     (simp_all add: wf_user_def sweep_env_def default_config_def)

text \<open>C17. Consequently a caller's store through the returned pointer,
  \<^verbatim>\<open>config.k.j = v\<close> for such a section, changes \<^verbatim>\<open>config_user.config\<close>: afterwards
  \<^verbatim>\<open>config_user.config[k][j]\<close> is \<open>v\<close>.\<close>

theorem h_caller_store_reaches_user:
  assumes we: "wf_user e" and cu: "config_user e = UserModule (VDict ku du)"
    and kd: "map_of du k = Some (VDict kk dk)" and kc: "map_of default_config k = None"
    and run: "h_get_config e (h_exec_module None) = Some (s', Inr p)"
    and st: "h_setattr (hs_heap s') p k [j] v = Inr h5"
  shows "\<exists>u b. hs_user s' = Some (HRef u) \<and> h_getitem h5 u k = Some (HRef b) \<and> h_getitem h5 b j = Some v"
proof -
  obtain u b where hu: "hs_user s' = Some (HRef u)" and pk: "h_getitem (hs_heap s') p k = Some (HRef b)"
    and uk: "h_getitem (hs_heap s') u k = Some (HRef b)" and ub: "u \<noteq> b"
    using fresh_first_load_alias [OF we cu kd kc run] by blast
  obtain bits where ob: "obj (hs_heap s') b = Some (HDict AddictDict bits)"
    and h5: "h5 = h_setitem (hs_heap s') b j v"
    using st pk by (auto split: if_splits option.splits hobj.splits dkind.splits)
  have "h_getitem h5 u k = Some (HRef b)" using uk ub ob h5 by (simp add: h_getitem_def h_setitem_def)
  moreover have "h_getitem h5 b j = Some v" using ob h5 obj_length [OF ob] by (simp add: h_getitem_def h_setitem_def)
  ultimately show ?thesis using hu by blast
qed

lemma sweep_stored_run:
  "h_setattr (hs_heap sweep_loaded) (hs_config sweep_loaded) ''sweep'' [''n''] (HInt 7) = Inr sweep_stored"
  by code_simp

theorem h_caller_store_reaches_user_witness:
  "\<exists>u b. hs_user sweep_loaded = Some (HRef u) \<and> h_getitem sweep_stored u ''sweep'' = Some (HRef b)
     \<and> h_getitem sweep_stored b ''n'' = Some (HInt 7)"
  by (rule h_caller_store_reaches_user [where ku = AddictDict and du = "[(''sweep'', VDict AddictDict [(''n'', VInt 3)])]"
        and kk = AddictDict and dk = "[(''n'', VInt 3)]",
        OF _ _ _ _ sweep_loaded_run sweep_stored_run])
     (simp_all add: wf_user_def sweep_env_def default_config_def)

subsection \<open>The binding of \<^verbatim>\<open>config\<close>\<close>

text \<open>C18. \<^verbatim>\<open>get_config()\<close> never rebinds the global \<^verbatim>\<open>config\<close> nor sets
  \<^verbatim>\<open>__config_defined__\<close>, and whenever it returns a pointer, that pointer is the object
  \<^verbatim>\<open>config\<close> is bound to: all callers between two imports share one object.\<close>

theorem h_get_config_keeps_binding:
  assumes "h_get_config e s = Some (s', r)"
  shows "hs_config s' = hs_config s \<and> hs_defined s' = hs_defined s \<and> (\<forall>p. r = Inr p \<longrightarrow> p = hs_config s)"
  using assms
  by (auto simp: h_get_config_def h_import_config_user_def Let_def
      split: if_splits user_module.splits option.splits sum.splits prod.splits simp del: h_setattr.simps)

theorem h_get_config_keeps_binding_witness:
  "hs_config sweep_loaded = hs_config (h_exec_module None)
   \<and> hs_defined sweep_loaded = hs_defined (h_exec_module None)"
  using h_get_config_keeps_binding [OF sweep_loaded_run] by simp

text \<open>C19. A reload (\<^verbatim>\<open>importlib.reload\<close>) rebinds \<^verbatim>\<open>config\<close> to a new object: the
  next \<^verbatim>\<open>get_config()\<close> returns a pointer different from the one earlier callers hold,
  and the object they hold is left as it was, so the module is a singleton only
  between reloads.\<close>

theorem h_reload_stale:
  assumes o: "obj (hs_heap s) (hs_config s) \<noteq> None"
  shows "\<exists>s' p. h_get_config e (h_exec_module (Some s)) = Some (s', Inr p) \<and> p \<noteq> hs_config s
     \<and> obj (hs_heap s') (hs_config s) = obj (hs_heap s) (hs_config s)"
proof -
  let ?s1 = "h_exec_module (Some s)"
  have def: "hs_defined ?s1" by (simp add: h_exec_module_def split: prod.split)
  from exec_module_fresh [of "size (VDict AddictDict default_config)" "Some s"]
  obtain ext where h1: "hs_heap ?s1 = hs_heap s @ ext" and a1: "length (hs_heap s) \<le> hs_config ?s1" by auto
  have lt: "hs_config s < length (hs_heap s)" using o by (auto intro: obj_length)
  show ?thesis
    using h_get_config_defined [OF def, of e] h1 a1 lt by (auto simp: obj_append)
qed

theorem h_reload_stale_witness:
  "\<exists>s' p. h_get_config sweep_env (h_exec_module (Some sweep_loaded)) = Some (s', Inr p)
     \<and> p \<noteq> hs_config sweep_loaded
     \<and> obj (hs_heap s') (hs_config sweep_loaded) = obj (hs_heap sweep_loaded) (hs_config sweep_loaded)"
  by (rule h_reload_stale) code_simp

end
