(* ===== verification/HeapRepeat.thy ===== *)
theory HeapRepeat
  imports HeapModule
begin

text \<open>
  Repeated calls of \<^verbatim>\<open>get_config\<close> on the object store. The code never sets
  \<^verbatim>\<open>__config_defined__\<close>, so every call merges \<^verbatim>\<open>config_user.config\<close> into
  \<^verbatim>\<open>config\<close> again, and after the first load the two share every dictionary the
  override added. \<open>absorbed n h a its\<close> says that the items \<open>its\<close> are already merged
  into the object \<open>a\<close>: every scalar item is there as it is, every dictionary item
  meets an addict \<^verbatim>\<open>Dict\<close> it is absorbed into (the same object included) or a plain
  \<^verbatim>\<open>dict\<close> that \<^verbatim>\<open>dict.update\<close> leaves as it is. Then \<^verbatim>\<open>Dict.update\<close> returns
  and changes nothing (\<open>absorbed_merge\<close>), and a value-level fixed point of the merge
  is absorbed when the receiver holds no plain \<^verbatim>\<open>dict\<close> (\<open>stable_absorbed\<close>).
\<close>

fun absorbed :: "nat \<Rightarrow> heap \<Rightarrow> addr \<Rightarrow> (string \<times> hval) list \<Rightarrow> bool" where
  "absorbed 0 h a its = (its = [])"
| "absorbed (Suc n) h a its =
     (case obj h a of
        None \<Rightarrow> False
      | Some (HDict kd sits) \<Rightarrow>
          list_all (\<lambda>(k, v).
            (case (map_of sits k, v) of
               (Some (HRef c), HRef b) \<Rightarrow>
                 (case (obj h c, obj h b) of
                    (Some (HDict AddictDict _), Some (HDict _ vits)) \<Rightarrow> absorbed n h c vits
                  | (Some (HDict PlainDict cits), Some (HDict _ vits)) \<Rightarrow> plain_update cits vits = cits
                  | _ \<Rightarrow> map_of sits k = Some v)
             | _ \<Rightarrow> map_of sits k = Some v)) its)"

text \<open>Values without a plain \<^verbatim>\<open>dict\<close> at any depth.\<close>

fun no_plain :: "pyval \<Rightarrow> bool" and no_plain_items :: "pydict \<Rightarrow> bool" where
  "no_plain (VDict kd its) = (kd = AddictDict \<and> no_plain_items its)"
| "no_plain _ = True"
| "no_plain_items [] = True"
| "no_plain_items ((k, v) # its) = (no_plain v \<and> no_plain_items its)"

subsection \<open>A merge of an absorbed argument changes nothing\<close>

lemma obj_nth: "obj h c = Some x \<Longrightarrow> h[c := x] = h"
  by (metis list_update_id obj_def option.distinct(1) option.inject)

lemma absorbed_merge: "absorbed n h a its \<Longrightarrow> h_merge h a its = Some h"
proof (induction n arbitrary: a its)
  case 0
  then show ?case by (simp add: h_merge_Nil)
next
  case (Suc n)
  from Suc.prems obtain kd sits where a: "obj h a = Some (HDict kd sits)"
    by (auto split: option.splits hobj.splits)
  from Suc.prems a show ?case
  proof (induction its)
    case Nil
    then show ?case by (simp add: h_merge_Nil)
  next
    case (Cons p rest)
    obtain k v where p: "p = (k, v)" by fastforce
    have rest: "absorbed (Suc n) h a rest" using Cons.prems a p by simp
    have gk: "h_getitem h a k = map_of sits k" using a by (simp add: h_getitem_obj)
    show ?case
    proof (cases "\<exists>c b kc csits kb vits. h_getitem h a k = Some (HRef c) \<and> v = HRef b \<and>
                    obj h c = Some (HDict kc csits) \<and> obj h b = Some (HDict kb vits)")
      case True
      then obtain c b kc csits kb vits where kc: "h_getitem h a k = Some (HRef c)" and vb: "v = HRef b"
        and oc: "obj h c = Some (HDict kc csits)" and ob: "obj h b = Some (HDict kb vits)" by blast
      have sk: "map_of sits k = Some (HRef c)" using kc gk by simp
      show ?thesis
      proof (cases kc)
        case AddictDict
        with Cons.prems(1) a p sk vb oc ob have "absorbed n h c vits" by simp
        with Suc.IH h_merge_addict [OF kc oc [unfolded AddictDict] ob] Cons.IH [OF rest a] p vb
        show ?thesis by simp
      next
        case PlainDict
        with Cons.prems(1) a p sk vb oc ob have "plain_update csits vits = csits" by simp
        with h_merge_plain [OF kc oc [unfolded PlainDict] ob] obj_nth [OF oc] Cons.IH [OF rest a] p vb PlainDict
        show ?thesis by simp
      qed
    next
      case False
      then have run: "h_merge h a ((k, v) # rest) = h_merge (h_setitem h a k v) a rest"
        by (rule h_merge_store)
      have "map_of sits k = Some v"
      proof (cases "\<exists>c b. map_of sits k = Some (HRef c) \<and> v = HRef b")
        case True
        then obtain c b where sk: "map_of sits k = Some (HRef c)" and vb: "v = HRef b" by blast
        with False gk have "obj h c = None \<or> obj h b = None" by (metis hobj.exhaust option.exhaust)
        with Cons.prems(1) a p sk vb show ?thesis
          by (auto split: option.splits hobj.splits dkind.splits)
      next
        case False
        with Cons.prems(1) a p show ?thesis
          by (auto split: option.splits hval.splits)
      qed
      then have "h_setitem h a k v = h"
        using a by (simp add: h_setitem_def alist_set_present obj_nth)
      with run Cons.IH [OF rest a] p show ?thesis by simp
    qed
  qed
qed

subsection \<open>A fixed point of the value-level merge is absorbed\<close>

lemma no_plain_map_of: "no_plain_items A \<Longrightarrow> map_of A k = Some y \<Longrightarrow> no_plain y"
  by (induction A) (auto split: if_splits)

lemma read_ref_dict: "read_val n h (HRef c) = Some x \<Longrightarrow> \<exists>kd d. x = VDict kd d"
  by (cases n) (auto simp: read_val.simps(7) split: option.splits hobj.splits)

lemma read_scalar:
  "(\<forall>b. v \<noteq> HRef b) \<Longrightarrow> read_val n h v = Some x \<Longrightarrow> \<not> (\<exists>kd d. x = VDict kd d)"
  by (cases v) auto

lemma read_scalar_eq:
  "read_val n h w = Some x \<Longrightarrow> read_val n h v = Some x \<Longrightarrow> (\<forall>b. v \<noteq> HRef b) \<Longrightarrow> w = v"
  by (cases v; cases w) (auto dest: read_ref_dict)

lemma absorbed_intro:
  assumes a: "obj h a = Some (HDict kd sits)"
    and items: "\<And>k v. (k, v) \<in> set its \<Longrightarrow>
       (\<exists>c b cits kb bits. map_of sits k = Some (HRef c) \<and> v = HRef b
          \<and> obj h c = Some (HDict AddictDict cits) \<and> obj h b = Some (HDict kb bits) \<and> absorbed n h c bits)
       \<or> (map_of sits k = Some v \<and> (\<forall>b. v \<noteq> HRef b))"
  shows "absorbed (Suc n) h a its"
proof -
  have "case (map_of sits k, v) of
          (Some (HRef c), HRef b) \<Rightarrow>
            (case (obj h c, obj h b) of
               (Some (HDict AddictDict _), Some (HDict _ vits)) \<Rightarrow> absorbed n h c vits
             | (Some (HDict PlainDict cits), Some (HDict _ vits)) \<Rightarrow> plain_update cits vits = cits
             | _ \<Rightarrow> map_of sits k = Some v)
        | _ \<Rightarrow> map_of sits k = Some v" if "(k, v) \<in> set its" for k v
    using items [OF that] by (auto split: option.splits hval.splits)
  with a show ?thesis by (auto simp: list_all_iff)
qed

lemma stable_item:
  assumes rs: "read_items n h sits = Some A" and wA: "wf_val (VDict kd A)" and np: "no_plain_items A"
    and ru: "read_items n h its = Some U" and wU: "wf_val (VDict kd' U)" and st: "addict_merge A U = A"
    and kv: "(k, v) \<in> set its"
    and IH: "\<And>m c cits Ac bits Ub kb. n = Suc m \<Longrightarrow> obj h c = Some (HDict AddictDict cits) \<Longrightarrow>
       read_items m h cits = Some Ac \<Longrightarrow> wf_dict Ac \<Longrightarrow> no_plain_items Ac \<Longrightarrow>
       read_items m h bits = Some Ub \<Longrightarrow> wf_val (VDict kb Ub) \<Longrightarrow> addict_merge Ac Ub = Ac \<Longrightarrow>
       absorbed (Suc m) h c bits"
  shows "(\<exists>c b cits kb bits. map_of sits k = Some (HRef c) \<and> v = HRef b
          \<and> obj h c = Some (HDict AddictDict cits) \<and> obj h b = Some (HDict kb bits) \<and> absorbed n h c bits)
       \<or> (map_of sits k = Some v \<and> (\<forall>b. v \<noteq> HRef b))"
proof -
  have dU: "distinct (map fst U)" using wU by simp
  have "distinct (map fst its)" using dU read_items_keys [OF ru] by simp
  then have ik: "map_of its k = Some v" using kv by simp
  have "k \<in> set (map fst U)" using read_items_keys [OF ru] kv by (metis image_eqI fst_conv set_map)
  then have "map_of U k \<noteq> None" by (simp add: map_of_eq_None_iff)
  with read_items_map_of [OF ru, of k] ik obtain x where rv: "read_val n h v = Some x"
    and Ux: "map_of U k = Some x" by auto
  have "k \<in> set (map fst A)" using stable_keys [OF st] Ux by (force simp: map_of_eq_None_iff [symmetric])
  then have "map_of A k \<noteq> None" by (simp add: map_of_eq_None_iff)
  then obtain y where Ay: "map_of A k = Some y" by blast
  have my: "merge_value (Some y) x = y" using merge_value_stable [OF st dU Ux] Ay by simp
  from read_items_map_of [OF rs, of k] Ay obtain w where sw: "map_of sits k = Some w"
    and rw: "read_val n h w = Some y" by (auto split: option.splits)
  have npy: "no_plain y" using no_plain_map_of [OF np Ay] .
  show ?thesis
  proof (cases "\<exists>b. v = HRef b")
    case True
    then obtain b where vb: "v = HRef b" by blast
    obtain kb Ub where x: "x = VDict kb Ub" using read_ref_dict rv vb by blast
    from read_val_VDict [OF rv [unfolded x]] vb obtain m bits where n: "n = Suc m"
      and ob: "obj h b = Some (HDict kb bits)" and rb: "read_items m h bits = Some Ub" by blast
    have wx: "wf_val (VDict kb Ub)" using wf_map_of [OF wU Ux] x by simp
    obtain Ay' where y: "y = VDict AddictDict Ay'"
      using my npy x by (cases y) (auto simp: merge_value_def split: dkind.splits)
    from read_val_VDict [OF rw [unfolded y]] obtain c m' cits where w: "w = HRef c" and "n = Suc m'"
      and oc: "obj h c = Some (HDict AddictDict cits)" and rc: "read_items m' h cits = Some Ay'" by blast
    with n have rc: "read_items m h cits = Some Ay'" by simp
    have wy: "wf_dict Ay'" using wf_map_of [OF wA Ay] y by simp
    have npy': "no_plain_items Ay'" using npy y by simp
    have "addict_merge Ay' Ub = Ay'" using my x y by (simp add: merge_value_def)
    from IH [OF n oc rc wy npy' rb wx this] n sw w vb oc ob show ?thesis by auto
  next
    case False
    then have nb: "\<forall>b. v \<noteq> HRef b" by blast
    have "\<not> (\<exists>kd d. x = VDict kd d)" using read_scalar [OF nb rv] .
    then have "y = x" using my by (simp add: merge_value_store)
    with rw rv nb have "w = v" by (blast intro: read_scalar_eq)
    with sw nb show ?thesis by blast
  qed
qed

lemma stable_absorbed:
  "obj h a = Some (HDict kd sits) \<Longrightarrow> read_items n h sits = Some A \<Longrightarrow> wf_val (VDict kd A) \<Longrightarrow>
   no_plain_items A \<Longrightarrow> read_items n h its = Some U \<Longrightarrow> wf_val (VDict kd' U) \<Longrightarrow>
   addict_merge A U = A \<Longrightarrow> absorbed (Suc n) h a its"
proof (induction n arbitrary: a kd sits A its U kd')
  case 0
  show ?case
    by (rule absorbed_intro [OF 0(1)], rule stable_item [OF 0(2-7)]) auto
next
  case (Suc m)
  show ?case
  proof (rule absorbed_intro [OF Suc.prems(1)], rule stable_item [OF Suc.prems(2-7)])
    fix k v assume "(k, v) \<in> set its" then show "(k, v) \<in> set its" .
  next
    fix m' c cits Ac bits Ub kb
    assume "Suc m = Suc m'" "obj h c = Some (HDict AddictDict cits)" "read_items m' h cits = Some Ac"
      "wf_dict Ac" "no_plain_items Ac" "read_items m' h bits = Some Ub" "wf_val (VDict kb Ub)"
      "addict_merge Ac Ub = Ac"
    then show "absorbed (Suc m') h c bits" using Suc.IH by blast
  qed
qed

subsection \<open>The table a first load leaves is a fixed point of the merge\<close>

lemma no_plain_alist_set:
  "no_plain_items d \<Longrightarrow> no_plain y \<Longrightarrow> no_plain_items (alist_set d k y)"
  by (induction d) auto

lemma no_plain_merge:
  "no_plain_items d \<Longrightarrow> no_plain_items u \<Longrightarrow> no_plain_items (addict_merge d u)"
proof (induction u arbitrary: d rule: measure_induct_rule [where f = "\<lambda>u. size (VDict AddictDict u)"])
  case (less u)
  show ?case
  proof (cases u)
    case Nil
    with less.prems show ?thesis by simp
  next
    case (Cons p rest)
    obtain k v where p: "p = (k, v)" by fastforce
    have nv: "no_plain v" and nr: "no_plain_items rest" using less.prems(2) Cons p by simp_all
    have "no_plain (merge_value (map_of d k) v)"
    proof (cases "\<exists>sub vitems. map_of d k = Some (VDict AddictDict sub) \<and> v = VDict AddictDict vitems")
      case True
      then obtain sub vitems where ds: "map_of d k = Some (VDict AddictDict sub)"
        and vv: "v = VDict AddictDict vitems" by blast
      have "no_plain_items sub" using no_plain_map_of [OF less.prems(1) ds] by simp
      moreover have "no_plain_items vitems" using nv vv by simp
      moreover have "size (VDict AddictDict vitems) < size (VDict AddictDict u)" using Cons p vv by simp
      ultimately show ?thesis using less.IH ds vv by (simp add: merge_value_def)
    next
      case False
      have "map_of d k = Some x \<Longrightarrow> no_plain x" for x using no_plain_map_of [OF less.prems(1)] by blast
      with False nv show ?thesis
        by (cases v) (auto simp: merge_value_def split: option.split pyval.split dkind.split)
    qed
    then have "no_plain_items (alist_set d k (merge_value (map_of d k) v))"
      using no_plain_alist_set [OF less.prems(1)] by blast
    moreover have "size (VDict AddictDict rest) < size (VDict AddictDict u)" using Cons by simp
    ultimately show ?thesis using less.IH nr Cons p by (simp add: addict_merge_Cons)
  qed
qed

lemma no_plain_setattr:
  "setattr_path d a p v = Inr d' \<Longrightarrow> no_plain_items d \<Longrightarrow> no_plain v \<Longrightarrow> no_plain_items d'"
proof (induction d a p v arbitrary: d' rule: setattr_path.induct)
  case (2 d a b bs v)
  show ?case
  proof (cases "map_of d a")
    case None
    with "2" show ?thesis by (auto simp: no_plain_alist_set split: if_splits sum.splits)
  next
    case (Some x)
    have "no_plain x" using no_plain_map_of [OF "2.prems"(2) Some] .
    with "2" Some show ?thesis
      by (auto simp: no_plain_alist_set split: if_splits sum.splits pyval.splits dkind.splits)
  qed
qed (auto simp: no_plain_alist_set split: if_splits)

lemma setattr_single_shape: "setattr_path d a [b] v = Inr d' \<Longrightarrow> \<exists>y. d' = alist_set d a y"
  by (auto split: if_splits option.splits pyval.splits dkind.splits)

lemma no_plain_default: "no_plain_items default_config"
  by (simp add: default_config_def ansys_defaults_def dissipation_defaults_def plotting_defaults_def
      internal_defaults_def log_defaults_def)

lemma first_load_fixpoint:
  assumes cu: "config_user e = UserModule (VDict ku du)" and wu: "wf_val (VDict ku du)"
    and np: "no_plain (VDict ku du)" and ki: "map_of du ''internal'' = None"
  shows "wf_dict (config (fst (get_config e fresh_module)))
     \<and> no_plain_items (config (fst (get_config e fresh_module)))
     \<and> addict_merge (config (fst (get_config e fresh_module))) du = config (fst (get_config e fresh_module))"
proof -
  let ?M = "addict_merge default_config du" and ?B = "VBool (is_using_ipython e)"
  have wd: "wf_dict du" using wu by simp
  have wM: "wf_dict ?M" using wf_addict_merge [OF wf_default_config wd] .
  have nM: "no_plain_items ?M" using no_plain_merge [OF no_plain_default] np by (cases ku) simp_all
  have sM: "addict_merge ?M du = ?M" using addict_merge_idem [OF wf_default_config wd] .
  have c: "config (fst (get_config e fresh_module))
      = (case setattr_path ?M ''internal'' [''ipython''] ?B of Inl _ \<Rightarrow> ?M | Inr c \<Rightarrow> c)"
    using cu wu by (simp add: get_config_def fresh_module_def exec_module_def import_config_user_def
        addict_update_dict Let_def del: setattr_path.simps split: sum.split)
  show ?thesis
  proof (cases "setattr_path ?M ''internal'' [''ipython''] ?B")
    case (Inl err)
    with c wM nM sM show ?thesis by (simp del: setattr_path.simps)
  next
    case (Inr c')
    obtain y where y: "c' = alist_set ?M ''internal'' y" using setattr_single_shape [OF Inr] by blast
    have "addict_merge c' du = c'"
      using addict_merge_alist_set_stable [OF sM _ _, of "''internal''" y] wM wd ki y by simp
    moreover have "wf_dict c'" using wf_setattr_path [OF Inr] wM by simp
    moreover have "no_plain_items c'" using no_plain_setattr [OF Inr nM] by simp
    ultimately show ?thesis using c Inr by (simp del: setattr_path.simps)
  qed
qed

subsection \<open>The heap a first load leaves\<close>

lemma default_internal_obj:
  assumes o: "obj h p = Some (HDict AddictDict its)" and r: "read_items n h its = Some default_config"
  shows "\<exists>c. map_of its ''internal'' = Some (HRef c) \<and> c < length h \<and> c \<in> set (foot_items n h its)"
proof -
  from read_items_map_of [OF r, of "''internal''"] default_internal obtain w
    where w: "map_of its ''internal'' = Some w" and rw: "read_val n h w = Some (VDict AddictDict internal_defaults)"
    by (auto split: option.splits)
  from read_val_VDict [OF rw] obtain c m cits where wc: "w = HRef c" and n: "n = Suc m"
    and oc: "obj h c = Some (HDict AddictDict cits)" by blast
  have "c \<in> set (foot_items n h its)" using foot_member [OF w, of n h] wc n oc by auto
  with w wc obj_length [OF oc] show ?thesis by blast
qed

lemma first_load_heap:
  assumes cu: "config_user e = UserModule (VDict ku du)" and wu: "wf_val (VDict ku du)"
    and ki: "map_of du ''internal'' = None"
    and run: "h_get_config e (h_exec_module None) = Some (s1, Inr p)"
  shows "\<exists>u N sits4 uits c0. \<not> hs_defined s1 \<and> hs_user s1 = Some (HRef u) \<and> p = hs_config s1
     \<and> obj (hs_heap s1) p = Some (HDict AddictDict sits4)
     \<and> read_items N (hs_heap s1) sits4 = Some (config (fst (get_config e fresh_module)))
     \<and> distinct (p # foot_items N (hs_heap s1) sits4)
     \<and> obj (hs_heap s1) u = Some (HDict ku uits) \<and> read_items N (hs_heap s1) uits = Some du
     \<and> distinct (u # foot_items N (hs_heap s1) uits)
     \<and> p \<notin> set (u # foot_items N (hs_heap s1) uits) \<and> c0 \<notin> set (u # foot_items N (hs_heap s1) uits)
     \<and> h_getitem (hs_heap s1) p ''internal'' = Some (HRef c0) \<and> c0 < length (hs_heap s1)
     \<and> h_setattr (hs_heap s1) p ''internal'' [''ipython''] (HBool (is_using_ipython e)) = Inr (hs_heap s1)"
proof -
  let ?s0 = "h_exec_module None" and ?n0 = "size (VDict AddictDict default_config)"
  let ?h0 = "hs_heap ?s0" and ?p0 = "hs_config ?s0"
  obtain its where o: "obj ?h0 ?p0 = Some (HDict AddictDict its)"
    and r: "read_items ?n0 ?h0 its = Some default_config"
    and d: "distinct (?p0 # foot_items ?n0 ?h0 its)"
    using fresh_module_tree by blast
  have nd: "\<not> hs_defined ?s0" and nu: "hs_user ?s0 = None" using exec_module_first by simp_all
  have we: "wf_user e" using cu wu by (simp add: wf_user_def)
  obtain h1 u where ad: "alloc_dict ?h0 ku du = (h1, u)" by fastforce
  then have av: "alloc_val ?h0 (VDict ku du) = (h1, HRef u)"
    using alloc_val_VDict [of ?h0 ku du] by (simp del: alloc_val.simps)
  let ?N = "Suc (max ?n0 (size (VDict ku du)))"
  from user_alloc_sep [OF o r d av, of ?N] have o1: "obj h1 ?p0 = Some (HDict AddictDict its)"
    and r1: "read_items ?N h1 its = Some default_config"
    and rx: "read_val (Suc ?N) h1 (HRef u) = Some (VDict ku du)"
    and d1: "distinct (?p0 # foot_items ?N h1 its @ foot_val (Suc ?N) h1 (HRef u))" by auto
  have fresh: "set (foot_val (Suc ?N) h1 (HRef u)) \<subseteq> {length ?h0..<length h1}"
    using alloc_fresh(1) [OF av, of "Suc ?N"] by simp
  from rx obtain uits where ou: "obj h1 u = Some (HDict ku uits)" and ru: "read_items ?N h1 uits = Some du"
    by (auto simp: read_val.simps(7) split: option.splits hobj.splits)
  have ku: "distinct (map fst uits)" using wu read_items_keys [OF ru] by simp
  note eq = h_get_config_user_run [OF nd nu cu av]
  have au: "addict_update default_config (VDict ku du) = Inr (addict_merge default_config du)"
    using wu by (rule addict_update_dict)
  from h_update_sep [OF o1 wf_default_config r1 rx wu d1] au ou ku
  obtain h3 where u3: "h_update h1 ?p0 (HRef u) = Some (Inr h3)"
    and mp: "merge_post ?N h1 ?p0 AddictDict its uits (addict_merge default_config du) h3"
    by (auto simp: plain_update_Nil)
  then obtain sits3 where o3: "obj h3 ?p0 = Some (HDict AddictDict sits3)"
    and r3: "read_items ?N h3 sits3 = Some (addict_merge default_config du)"
    and d3: "distinct (?p0 # foot_items ?N h3 sits3)"
    and fr3: "\<forall>q. q \<notin> set (?p0 # foot_items ?N h1 (filter (\<lambda>q. fst q \<in> set (map fst uits)) its))
               \<longrightarrow> obj h3 q = obj h1 q"
    and K1: "\<forall>j. j \<notin> set (map fst uits) \<longrightarrow> map_of sits3 j = map_of its j"
    unfolding merge_post_def by blast
  obtain h4 where s4: "h_setattr h3 ?p0 ''internal'' [''ipython''] (HBool (is_using_ipython e)) = Inr h4"
    and s1: "hs_heap s1 = h4 \<and> hs_user s1 = Some (HRef u) \<and> \<not> hs_defined s1 \<and> hs_config s1 = ?p0"
    and pp: "p = ?p0"
  proof (cases "h_setattr h3 ?p0 ''internal'' [''ipython''] (HBool (is_using_ipython e))")
    case (Inl err)
    with run eq u3 show ?thesis by (simp del: h_setattr.simps)
  next
    case (Inr h4)
    with run eq u3 nd have "(hs_heap s1 = h4 \<and> hs_user s1 = Some (HRef u) \<and> \<not> hs_defined s1
        \<and> hs_config s1 = ?p0) \<and> p = ?p0"
      by (auto simp del: h_setattr.simps)
    with Inr that show ?thesis by blast
  qed
  have wm: "wf_dict (addict_merge default_config du)" using wf_default_config wu by (rule wf_addict_merge)
  have "length [''ipython''] \<le> ?N" by simp
  from h_setattr_sep [OF o3 r3 wm d3 this, of "HBool (is_using_ipython e)" "VBool (is_using_ipython e)" "''internal''"] s4
  obtain c' where "setattr_post ?N h3 ?p0 sits3 ''internal'' c' h4"
    by (auto split: sum.splits)
  then obtain dits where od: "obj h4 ?p0 = Some (HDict AddictDict dits)"
    and rd: "read_items ?N h4 dits = Some c'" and dd: "distinct (?p0 # foot_items ?N h4 dits)"
    unfolding setattr_post_def by blast
  obtain c0 where c0: "map_of its ''internal'' = Some (HRef c0)" and c0l: "c0 < length ?h0"
    and c0f: "c0 \<in> set (foot_items ?n0 ?h0 its)"
    using default_internal_obj [OF o r] by blast
  have pc: "?p0 \<noteq> c0" using d c0f by auto
  have "''internal'' \<notin> set (map fst uits)" using ki read_items_keys [OF ru]
    by (metis map_of_eq_None_iff set_map)
  with K1 c0 have g3: "h_getitem h3 ?p0 ''internal'' = Some (HRef c0)" using o3 by (simp add: h_getitem_obj)
  obtain cits where oc3: "obj h3 c0 = Some (HDict AddictDict cits)"
    and h4: "h4 = h_setitem h3 c0 ''ipython'' (HBool (is_using_ipython e))"
    using s4 g3 by (auto simp: dict_attrs_defs split: option.splits hobj.splits dkind.splits)
  have oc4: "obj h4 c0 = Some (HDict AddictDict (alist_set cits ''ipython'' (HBool (is_using_ipython e))))"
    using h4 oc3 obj_length [OF oc3] by (simp add: h_setitem_obj)
  have g4: "h_getitem h4 ?p0 ''internal'' = Some (HRef c0)"
    using g3 h4 pc oc3 obj_length [OF oc3] o3 by (simp add: h_getitem_def h_setitem_obj)
  have st4: "h_setattr h4 ?p0 ''internal'' [''ipython''] (HBool (is_using_ipython e)) = Inr h4"
    using g4 oc4 by (simp add: dict_attrs_defs h_setitem_obj obj_nth)
  have "\<forall>q \<in> set (foot_val (Suc ?N) h1 (HRef u)). obj h3 q = obj h1 q"
  proof
    fix q assume q: "q \<in> set (foot_val (Suc ?N) h1 (HRef u))"
    have "q \<notin> set (?p0 # foot_items ?N h1 its)" using d1 q by auto
    then have "q \<notin> set (?p0 # foot_items ?N h1 (filter (\<lambda>q. fst q \<in> set (map fst uits)) its))"
      using foot_filter [of ?N h1 _ its] by auto
    with fr3 show "obj h3 q = obj h1 q" by blast
  qed
  from heap_frame(1) [OF this] rx have rx3: "read_val (Suc ?N) h3 (HRef u) = Some (VDict ku du)"
    and fx3: "foot_val (Suc ?N) h3 (HRef u) = foot_val (Suc ?N) h1 (HRef u)" by simp_all
  have "\<forall>q \<in> set (foot_val (Suc ?N) h3 (HRef u)). obj h4 q = obj h3 q"
  proof
    fix q assume "q \<in> set (foot_val (Suc ?N) h3 (HRef u))"
    with fx3 fresh have "c0 \<noteq> q" using c0l by auto
    then show "obj h4 q = obj h3 q" by (simp add: h4 h_setitem_def split: option.split hobj.split)
  qed
  from heap_frame(1) [OF this] rx3 fx3 have rx4: "read_val (Suc ?N) h4 (HRef u) = Some (VDict ku du)"
    and fx4: "foot_val (Suc ?N) h4 (HRef u) = foot_val (Suc ?N) h1 (HRef u)" by simp_all
  from read_val_VDict [OF rx4] obtain uits4 where ou4: "obj h4 u = Some (HDict ku uits4)"
    and ru4: "read_items ?N h4 uits4 = Some du" by auto
  have fu4: "foot_val (Suc ?N) h4 (HRef u) = u # foot_items ?N h4 uits4" using ou4 by simp
  have du4: "distinct (u # foot_items ?N h4 uits4)" using d1 fx4 fu4 by simp
  have "p < length ?h0" using pp obj_length [OF o] by simp
  with fresh fx4 fu4 c0l have sep: "p \<notin> set (u # foot_items ?N h4 uits4) \<and> c0 \<notin> set (u # foot_items ?N h4 uits4)"
    by auto
  from h_get_config_first [OF nd nu o r wf_default_config d we] run obtain m
    where "abs_state m s1 = Some (fst (get_config e \<lparr>config = default_config, config_defined = False,
             stdout = hs_stdout ?s0\<rparr>))" by auto
  moreover have "\<lparr>config = default_config, config_defined = False, stdout = hs_stdout ?s0\<rparr> = fresh_module"
    using exec_module_first by (simp add: fresh_module_def exec_module_def)
  ultimately have "abs_state m s1 = Some (fst (get_config e fresh_module))" by simp
  then have "read_val m h4 (HRef ?p0) = Some (VDict AddictDict (config (fst (get_config e fresh_module))))"
    using s1 by (auto simp: abs_state_def split: option.splits pyval.splits dkind.splits)
      (metis modstate.select_convs(1))
  from read_val_VDict [OF this] obtain m' sits4 where o4: "obj h4 ?p0 = Some (HDict AddictDict sits4)"
    and r4: "read_items m' h4 sits4 = Some (config (fst (get_config e fresh_module)))" by blast
  have "read_items (max m' ?N) h4 sits4 = Some (config (fst (get_config e fresh_module)))"
    using read_items_mono [OF r4, of "max m' ?N"] by simp
  moreover have "read_items (max m' ?N) h4 sits4 = Some c'"
    using read_items_mono [OF rd, of "max m' ?N"] od o4 by simp
  ultimately have "read_items ?N h4 sits4 = Some (config (fst (get_config e fresh_module)))"
    using rd od o4 by simp
  with s1 pp o4 od dd ou4 ru4 du4 sep g4 st4 obj_length [OF oc4] show ?thesis by auto
qed

subsection \<open>A call on a state whose \<^verbatim>\<open>config\<close> absorbs the cached override\<close>

lemma setattr_missing_length:
  "h_getitem h p a = None \<Longrightarrow> h_setattr h p a [x] v = Inr h' \<Longrightarrow> length h' = Suc (length h)"
  by (auto simp: alloc_def split: if_splits)

lemma setitem_idle:
  assumes o: "obj h c = Some (HDict kd cits)" and hc: "h_setitem h c x v = h"
  shows "alist_set cits x v = cits"
proof -
  have l: "c < length h" and n: "h ! c = HDict kd cits" using o by (simp_all add: obj_def split: if_splits)
  have "h[c := HDict kd (alist_set cits x v)] = h" using hc o by (simp add: h_setitem_obj)
  then have "h[c := HDict kd (alist_set cits x v)] ! c = h ! c" by simp
  with l n show ?thesis by simp
qed

lemma setattr_idle:
  assumes st: "h_setattr h p a [x] v = Inr h" and op: "obj h' p = obj h p"
    and oc: "\<forall>c. h_getitem h p a = Some (HRef c) \<longrightarrow> obj h' c = obj h c"
  shows "h_setattr h' p a [x] v = Inr h'"
proof -
  have gp: "h_getitem h' p a = h_getitem h p a" using op by (simp add: h_getitem_def)
  have na: "a \<notin> set dict_getattr_attrs" using st by (simp split: if_splits)
  obtain w where g: "h_getitem h p a = Some w"
    using setattr_missing_length [OF _ st] by (cases "h_getitem h p a") auto
  have st2: "(case w of
       HRef c \<Rightarrow> (case obj h c of Some (HDict AddictDict _) \<Rightarrow> h_setattr h c x [] v | _ \<Rightarrow> Inl (AttributeError x))
     | _ \<Rightarrow> Inl (AttributeError x)) = Inr h"
    using st na g by (simp del: h_setattr.simps(1))
  obtain c where wc: "w = HRef c" using st2 by (cases w) simp_all
  obtain cits where o: "obj h c = Some (HDict AddictDict cits)"
    using st2 wc by (cases "obj h c") (auto split: hobj.splits dkind.splits)
  have nx: "x \<notin> set dict_class_attrs" and hc: "h_setitem h c x v = h"
    using st2 wc o by (simp_all split: if_splits)
  have "alist_set cits x v = cits" using setitem_idle [OF o hc] .
  moreover have "obj h' c = Some (HDict AddictDict cits)" using oc g wc o by simp
  ultimately show ?thesis using na nx gp g wc by (simp add: h_setitem_obj obj_nth)
qed

lemma repeat_noop:
  assumes cu: "config_user e = UserModule uv" and nd: "\<not> hs_defined s" and hu: "hs_user s = Some (HRef u)"
    and o: "obj (hs_heap s) (hs_config s) = Some (HDict AddictDict sits)"
    and r: "read_items N (hs_heap s) sits = Some A" and wA: "wf_dict A" and nA: "no_plain_items A"
    and ou: "obj (hs_heap s) u = Some (HDict ku uits)" and ru: "read_items N (hs_heap s) uits = Some U"
    and wU: "wf_val (VDict ku U)" and sA: "addict_merge A U = A"
    and st: "h_setattr (hs_heap s) (hs_config s) ''internal'' [''ipython''] (HBool (is_using_ipython e))
               = Inr (hs_heap s)"
  shows "h_get_config e s = Some (s\<lparr>hs_stdout := hs_stdout s @ [''First time load of config'']\<rparr>, Inr (hs_config s))"
proof -
  have "h_merge (hs_heap s) (hs_config s) uits = Some (hs_heap s)"
    by (rule absorbed_merge, rule stable_absorbed [OF o r wA nA ru wU sA])
  moreover have "distinct (map fst uits)" using wU read_items_keys [OF ru] by simp
  ultimately have "h_update (hs_heap s) (hs_config s) (HRef u) = Some (Inr (hs_heap s))"
    using ou by (simp add: h_update_def plain_update_Nil)
  with nd hu st cu show ?thesis
    by (simp add: h_get_config_def h_import_config_user_def Let_def del: h_setattr.simps)
qed

subsection \<open>The second call\<close>

text \<open>C21. After a successful first load from a fresh import, the next
  \<^verbatim>\<open>get_config()\<close> takes the first-load branch again (the flag is never set), imports
  the cached \<^verbatim>\<open>config_user\<close> and merges its \<^verbatim>\<open>config\<close> into \<^verbatim>\<open>config\<close> once more. It
  returns the same pointer and leaves every object of the heap as it was; only the
  printed line is added. This holds for every well-formed override without plain
  \<^verbatim>\<open>dict\<close>s that leaves the \<open>internal\<close> section alone, including overrides whose
  sections \<^verbatim>\<open>config\<close> now shares: a merge of an object into itself returns at
  once.\<close>

theorem h_second_call_noop:
  assumes cu: "config_user e = UserModule (VDict ku du)" and wu: "wf_val (VDict ku du)"
    and np: "no_plain (VDict ku du)" and ki: "map_of du ''internal'' = None"
    and run: "h_get_config e (h_exec_module None) = Some (s1, Inr p)"
  shows "h_get_config e s1 = Some (s1\<lparr>hs_stdout := hs_stdout s1 @ [''First time load of config'']\<rparr>, Inr p)"
proof -
  obtain u N sits4 uits where nd: "\<not> hs_defined s1" and hu: "hs_user s1 = Some (HRef u)"
    and pp: "p = hs_config s1" and o: "obj (hs_heap s1) p = Some (HDict AddictDict sits4)"
    and r: "read_items N (hs_heap s1) sits4 = Some (config (fst (get_config e fresh_module)))"
    and ou: "obj (hs_heap s1) u = Some (HDict ku uits)" and ru: "read_items N (hs_heap s1) uits = Some du"
    and st: "h_setattr (hs_heap s1) p ''internal'' [''ipython''] (HBool (is_using_ipython e)) = Inr (hs_heap s1)"
    using first_load_heap [OF cu wu ki run] by blast
  from first_load_fixpoint [OF cu wu np ki] have wA: "wf_dict (config (fst (get_config e fresh_module)))"
    and nA: "no_plain_items (config (fst (get_config e fresh_module)))"
    and sA: "addict_merge (config (fst (get_config e fresh_module))) du = config (fst (get_config e fresh_module))"
    by simp_all
  from repeat_noop [OF cu nd hu o [unfolded pp] r wA nA ou ru wu sA st [unfolded pp]] pp show ?thesis by simp
qed

theorem h_second_call_noop_witness:
  "h_get_config sweep_env sweep_loaded
     = Some (sweep_loaded\<lparr>hs_stdout := hs_stdout sweep_loaded @ [''First time load of config'']\<rparr>,
             Inr (hs_config sweep_loaded))"
  by (rule h_second_call_noop [where ku = AddictDict and du = "[(''sweep'', VDict AddictDict [(''n'', VInt 3)])]",
        OF _ _ _ _ sweep_loaded_run]) (simp_all add: sweep_env_def)

end
