(* ===== verification/HeapPersist.thy ===== *)
theory HeapPersist
  imports HeapRepeat
begin

text \<open>
  Persistence of a caller's store on the object store. After the first load
  \<^verbatim>\<open>config\<close> and \<^verbatim>\<open>config_user.config\<close> share every section the override added, so
  a store \<^verbatim>\<open>config.k.j = v\<close> into such a section changes the override as well
  (\<open>h_caller_store_reaches_user\<close>). The next \<^verbatim>\<open>get_config()\<close> merges the changed
  override into the changed \<^verbatim>\<open>config\<close>: at the value level the merged table is a fixed
  point once more (\<open>stable_alist_set\<close>), and \<open>repeat_noop\<close> turns this into a call that
  leaves the heap as it is. The value-level process of \<open>Process\<close>, which copies the
  override instead of sharing it, would instead put the override's value of
  \<open>k.j\<close> back.

  A store of the shared section into itself, \<^verbatim>\<open>config.k.j = config.k\<close>, turns the
  next merge into a merge of an object into itself through a reference to itself:
  \<open>h_merge_self_cycle\<close> shows by fixpoint induction (\<open>h_merge.raw_induct\<close>) that
  \<open>h_merge\<close> then does not return, and \<open>h_self_reference_diverges\<close> lifts this to
  \<^verbatim>\<open>get_config()\<close>.
\<close>

text \<open>The heap after the first load under \<open>sweep_env\<close> and a caller's store
  \<^verbatim>\<open>config.sweep.me = config.sweep\<close> (the section is the object at address 6).\<close>

definition sweep_cyclic :: heap where
  "sweep_cyclic = projr (h_setattr (hs_heap sweep_loaded) (hs_config sweep_loaded) ''sweep'' [''me''] (HRef 6))"

subsection \<open>The value-level merge after a store into a shared section\<close>

lemma merge_value_self:
  assumes "wf_val x" shows "merge_value (Some x) x = x"
proof (cases x)
  case (VDict kd d)
  with assms have w: "wf_dict d" and dd: "distinct (map fst d)" by simp_all
  have "addict_merge d d = d"
    using addict_merge_idem [of "[]" d] w dd by (simp add: addict_merge_Nil_left)
  with VDict plain_update_self [OF dd] show ?thesis by (cases kd) (simp_all add: merge_value_def)
qed (simp_all add: merge_value_def)

lemma stable_alist_set:
  assumes s: "addict_merge A U = A" and wA: "wf_dict A" and wU: "wf_dict U"
    and k: "k \<in> set (map fst U)" and wx: "wf_val x"
  shows "addict_merge (alist_set A k x) (alist_set U k x) = alist_set A k x"
proof (rule alist_ext)
  show "distinct (map fst (addict_merge (alist_set A k x) (alist_set U k x)))"
    using wf_addict_merge [OF wf_alist_set [OF wA wx] wf_alist_set [OF wU wx]] by simp
  have "set (map fst U) \<subseteq> set (map fst A)" using s by (rule stable_keys)
  with k show "map fst (addict_merge (alist_set A k x) (alist_set U k x)) = map fst (alist_set A k x)"
    by (simp add: keys_addict_merge fold_add_key_present add_key_present subset_insertI2)
  have dU: "distinct (map fst (alist_set U k x))" using wf_alist_set [OF wU wx] by simp
  have du: "distinct (map fst U)" using wU by simp
  show "map_of (addict_merge (alist_set A k x) (alist_set U k x)) = map_of (alist_set A k x)"
  proof
    fix j
    show "map_of (addict_merge (alist_set A k x) (alist_set U k x)) j = map_of (alist_set A k x) j"
    proof (cases "j = k")
      case True
      then show ?thesis using merge_value_self [OF wx] by (simp add: map_of_addict_merge [OF dU])
    next
      case False
      have "map_of (addict_merge A U) j = map_of A j" using s by simp
      with False show ?thesis
        by (simp add: map_of_addict_merge [OF dU] map_of_addict_merge [OF du] split: option.splits)
    qed
  qed
qed

lemma setattr_path_local:
  "setattr_path d1 a (b # bs) x = Inr d1' \<Longrightarrow> map_of d2 a = map_of d1 a \<Longrightarrow>
   \<exists>y. d1' = alist_set d1 a y \<and> setattr_path d2 a (b # bs) x = Inr (alist_set d2 a y)"
  by (auto split: if_splits option.splits pyval.splits dkind.splits sum.splits)

lemma read0_scalar: "read_val 0 h v = Some x \<Longrightarrow> wf_val x \<and> no_plain x"
  by (cases v) auto

lemma h_merge_self_cycle:
  assumes o: "obj h b = Some (HDict AddictDict its)" and d: "distinct (map fst its)"
    and j: "(j, HRef b) \<in> set its"
    and sc: "\<forall>(k, w) \<in> set its. w = HRef b \<or> (\<forall>c. w \<noteq> HRef c)"
  shows "h_merge h b its = None"
proof -
  let ?Q = "\<lambda>h' a ys. h' = h \<and> a = b \<and> (j, HRef b) \<in> set ys \<and> set ys \<subseteq> set its"
  have key: "\<not> ?Q h' a ys" if run: "h_merge h' a ys = Some y" for h' a ys y
    using run
  proof (rule h_merge.raw_induct [where P = "\<lambda>h' a ys y. \<not> ?Q h' a ys", rotated])
    fix f h' a ys z
    assume IH: "\<And>h' a ys y. f h' a ys = Some y \<Longrightarrow> \<not> ?Q h' a ys"
      and body: "(case ys of [] \<Rightarrow> Some h'
        | (k, v) # rest \<Rightarrow>
            (case (h_getitem h' a k, v) of
               (Some (HRef c), HRef b) \<Rightarrow>
                 (case (obj h' c, obj h' b) of
                    (Some (HDict AddictDict _), Some (HDict _ vits)) \<Rightarrow>
                      Option.bind (f h' c vits) (\<lambda>h''. f h'' a rest)
                  | (Some (HDict PlainDict sits), Some (HDict _ vits)) \<Rightarrow>
                      f (h'[c := HDict PlainDict (plain_update sits vits)]) a rest
                  | _ \<Rightarrow> f (h_setitem h' a k v) a rest)
             | _ \<Rightarrow> f (h_setitem h' a k v) a rest)) = Some z"
    show "\<not> ?Q h' a ys"
    proof
      assume q: "?Q h' a ys"
      then obtain k w rest where ys: "ys = (k, w) # rest" by (cases ys) auto
      have kw: "(k, w) \<in> set its" using q ys by auto
      then have g: "h_getitem h b k = Some w" using o d by (simp add: h_getitem_obj)
      show False
      proof (cases "w = HRef b")
        case True
        with body q ys g o have "Option.bind (f h b its) (\<lambda>h''. f h'' b rest) = Some z" by simp
        then obtain y' where "f h b its = Some y'" by (cases "f h b its") auto
        from IH [OF this] j show False by simp
      next
        case False
        with sc kw have nr: "\<forall>c. w \<noteq> HRef c" by auto
        have "alist_set its k w = its" using kw d by (simp add: alist_set_present)
        then have hs: "h_setitem h b k w = h" using o by (simp add: h_setitem_obj obj_nth)
        from body q ys g nr hs have "f h b rest = Some z"
          by (cases w) simp_all
        moreover have "?Q h b rest" using q ys False by auto
        ultimately show False using IH by blast
      qed
    qed
  qed
  show ?thesis using key [of h b its] j by (cases "h_merge h b its") auto
qed

lemma shared_store_stable:
  assumes sa: "setattr_path A k [j] x = Inr A'" and su: "setattr_path U k [j] x = Inr U'"
    and Ak: "map_of A k = map_of U k" and k: "k \<in> set (map fst U)"
    and sA: "addict_merge A U = A" and wA: "wf_dict A" and wU: "wf_dict U" and nA: "no_plain_items A"
    and wx: "wf_val x" and nx: "no_plain x"
  shows "addict_merge A' U' = A' \<and> wf_dict A' \<and> no_plain_items A' \<and> wf_dict U'"
proof -
  from setattr_path_local [OF sa Ak [symmetric]] su obtain y where A': "A' = alist_set A k y"
    and U': "U' = alist_set U k y" by auto
  have wA': "wf_dict A'" using wf_setattr_path [OF sa wA wx] .
  have "wf_val y" using wf_map_of [OF wA', of k y] A' by simp
  with stable_alist_set [OF sA wA wU k] A' U' have "addict_merge A' U' = A'" by simp
  with wA' no_plain_setattr [OF sa nA nx] wf_setattr_path [OF su wU wx] show ?thesis by simp
qed

lemma store_both_trees:
  assumes o: "obj h p = Some (HDict AddictDict sits)" and r: "read_items N h sits = Some A"
    and wA: "wf_dict A" and dA: "distinct (p # foot_items N h sits)"
    and ou: "obj h u = Some (HDict AddictDict uits)" and ru: "read_items N h uits = Some U"
    and wU: "wf_dict U" and dU: "distinct (u # foot_items N h uits)"
    and pk: "h_getitem h p k = Some (HRef b)" and uk: "h_getitem h u k = Some (HRef b)"
    and l: "length [j] \<le> N" and vx: "read_val 0 h v = Some x"
    and st: "h_setattr h p k [j] v = Inr h5"
  shows "\<exists>A' U'. setattr_path A k [j] x = Inr A' \<and> setattr_path U k [j] x = Inr U'
           \<and> setattr_post N h p sits k A' h5 \<and> setattr_post N h u uits k U' h5"
proof -
  from h_setattr_sep [OF o r wA dA l vx, where a = k] st obtain A' where sa: "setattr_path A k [j] x = Inr A'"
    and pa: "setattr_post N h p sits k A' h5"
    by (auto split: sum.splits simp del: setattr_path.simps h_setattr.simps)
  have "h_setattr h u k [j] v = Inr h5" using st h_setattr_shared [OF pk uk] by simp
  with h_setattr_sep [OF ou ru wU dU l vx, where a = k]
  obtain U' where "setattr_path U k [j] x = Inr U'" and "setattr_post N h u uits k U' h5"
    by (auto split: sum.splits simp del: setattr_path.simps h_setattr.simps)
  with sa pa show ?thesis by blast
qed

lemma probe_idle_after_store:
  assumes pu: "setattr_post N h u uits k U' h5"
    and sep: "p \<notin> set (u # foot_items N h uits) \<and> c0 \<notin> set (u # foot_items N h uits)"
    and pl: "p < length h" and c0l: "c0 < length h"
    and g: "h_getitem h p a = Some (HRef c0)" and st0: "h_setattr h p a [x] w = Inr h"
  shows "obj h5 p = obj h p \<and> h_setattr h5 p a [x] w = Inr h5"
proof -
  from pu have fr: "\<forall>q. q < length h \<longrightarrow> q \<notin> set (u # foot_items N h uits) \<longrightarrow> obj h5 q = obj h q"
    unfolding setattr_post_def by blast
  then have op: "obj h5 p = obj h p" and "obj h5 c0 = obj h c0" using sep pl c0l by blast+
  with setattr_idle [OF st0 op] g show ?thesis by simp
qed

lemma nested_store_item:
  assumes st: "h_setattr h p k [j] v = Inr h5" and pk: "h_getitem h p k = Some (HRef b)"
    and op: "obj h5 p = obj h p"
  shows "h_getitem h5 p k = Some (HRef b) \<and> h_getitem h5 b j = Some v"
proof -
  obtain bits where ob: "obj h b = Some (HDict AddictDict bits)" and h5: "h5 = h_setitem h b j v"
    using st pk by (auto split: if_splits option.splits hobj.splits dkind.splits)
  have "h_getitem h5 p k = Some (HRef b)" using pk op by (simp add: h_getitem_def)
  with h5 ob obj_length [OF ob] show ?thesis by (simp add: h_getitem_def h_setitem_def)
qed

lemma first_load_section:
  assumes cu: "config_user e = UserModule (VDict ku du)" and wu: "wf_val (VDict ku du)"
    and kd: "map_of du k = Some (VDict kk dk)" and kc: "map_of default_config k = None"
    and run: "h_get_config e (h_exec_module None) = Some (s1, Inr p)"
    and hu: "hs_user s1 = Some (HRef u)" and ou: "obj (hs_heap s1) u = Some (HDict ku uits)"
    and ru: "read_items N (hs_heap s1) uits = Some du"
  shows "\<exists>b N'. h_getitem (hs_heap s1) p k = Some (HRef b) \<and> map_of uits k = Some (HRef b)
     \<and> N = Suc N' \<and> read_val N (hs_heap s1) (HRef b) = Some (VDict kk dk)
     \<and> b \<in> set (foot_items N (hs_heap s1) uits)"
proof -
  have we: "wf_user e" using cu wu by (simp add: wf_user_def)
  obtain b where pk: "h_getitem (hs_heap s1) p k = Some (HRef b)"
    and "h_getitem (hs_heap s1) u k = Some (HRef b)"
    using fresh_first_load_alias [OF we cu kd kc run] hu by auto
  then have mk: "map_of uits k = Some (HRef b)" using ou by (simp add: h_getitem_obj)
  from read_items_member [OF ru mk] kd have rb: "read_val N (hs_heap s1) (HRef b) = Some (VDict kk dk)" by auto
  then obtain N' bits where N: "N = Suc N'" and "obj (hs_heap s1) b = Some (HDict kk bits)"
    using read_val_VDict by blast
  then have "b \<in> set (foot_items N (hs_heap s1) uits)" using foot_member [OF mk, of N "hs_heap s1"] by auto
  with pk mk N rb show ?thesis by blast
qed

lemma self_store_cycle:
  assumes ob: "obj h b = Some (HDict AddictDict bits)" and rb: "read_items m h bits = Some dk"
    and wd: "wf_val (VDict kk dk)" and sc: "\<forall>(i, x) \<in> set dk. \<forall>kd d. x \<noteq> VDict kd d"
  shows "obj (h_setitem h b j (HRef b)) b = Some (HDict AddictDict (alist_set bits j (HRef b)))
     \<and> h_merge (h_setitem h b j (HRef b)) b (alist_set bits j (HRef b)) = None"
proof -
  let ?its = "alist_set bits j (HRef b)" and ?h5 = "h_setitem h b j (HRef b)"
  have dbits: "distinct (map fst bits)" using wd read_items_keys [OF rb] by simp
  have scb: "\<forall>c. w \<noteq> HRef c" if kw: "(i, w) \<in> set bits" for i w
  proof -
    from read_items_member [OF rb map_of_is_SomeI [OF dbits kw]] obtain y
      where ry: "read_val m h w = Some y" and my: "map_of dk i = Some y" by blast
    from map_of_SomeD [OF my] sc have "\<forall>kd d. y \<noteq> VDict kd d" by fastforce
    with ry show ?thesis using read_ref_dict by blast
  qed
  have ob5: "obj ?h5 b = Some (HDict AddictDict ?its)"
    using ob obj_length [OF ob] by (simp add: h_setitem_obj)
  have d5: "distinct (map fst ?its)" using dbits by simp
  have j5: "(j, HRef b) \<in> set ?its" using map_of_SomeD [of ?its j] by simp
  have sc5': "w = HRef b \<or> (\<forall>c. w \<noteq> HRef c)" if iw: "(i, w) \<in> set ?its" for i w
  proof (cases "w = HRef b")
    case False
    have "map_of ?its i = Some w" using map_of_is_SomeI [OF d5 iw] .
    with False have "map_of bits i = Some w" by (auto split: if_splits)
    then have "(i, w) \<in> set bits" by (rule map_of_SomeD)
    then show ?thesis using scb by blast
  qed simp
  have "\<forall>(i, w) \<in> set ?its. w = HRef b \<or> (\<forall>c. w \<noteq> HRef c)" using sc5' by fast
  with h_merge_self_cycle [OF ob5 d5 j5] ob5 show ?thesis by simp
qed

subsection \<open>A store into a section the override added survives the next call\<close>

text \<open>C22. After a successful first load from a fresh import, a caller stores a
  scalar through the returned pointer into a section the override added,
  \<^verbatim>\<open>config.k.j = v\<close>. The store lands in the object \<^verbatim>\<open>config\<close> and
  \<^verbatim>\<open>config_user.config\<close> share, and the next \<^verbatim>\<open>get_config()\<close> returns the same pointer
  and leaves this heap as it is, so \<^verbatim>\<open>config.k.j\<close> is still \<open>v\<close>, even where the
  override itself sets \<open>k.j\<close>. The specification's "modifications persist" holds on
  the object store for such sections; a key the override sets at the top level is
  put back (C6).\<close>

theorem h_caller_store_survives:
  assumes cu: "config_user e = UserModule (VDict ku du)" and wu: "wf_val (VDict ku du)"
    and np: "no_plain (VDict ku du)" and ki: "map_of du ''internal'' = None"
    and kd: "map_of du k = Some (VDict kk dk)" and kc: "map_of default_config k = None"
    and run: "h_get_config e (h_exec_module None) = Some (s1, Inr p)"
    and vx: "read_val 0 (hs_heap s1) v = Some x"
    and st: "h_setattr (hs_heap s1) p k [j] v = Inr h5"
  shows "(\<exists>b. h_getitem h5 p k = Some (HRef b) \<and> h_getitem h5 b j = Some v)
     \<and> h_get_config e (s1\<lparr>hs_heap := h5\<rparr>)
         = Some (s1\<lparr>hs_heap := h5, hs_stdout := hs_stdout s1 @ [''First time load of config'']\<rparr>, Inr p)"
proof -
  let ?A = "config (fst (get_config e fresh_module))" and ?h = "hs_heap s1"
  obtain u N sits4 uits c0 where nd: "\<not> hs_defined s1" and hu: "hs_user s1 = Some (HRef u)"
    and pp: "p = hs_config s1" and o: "obj ?h p = Some (HDict AddictDict sits4)"
    and r: "read_items N ?h sits4 = Some ?A" and dA: "distinct (p # foot_items N ?h sits4)"
    and ou: "obj ?h u = Some (HDict ku uits)" and ru: "read_items N ?h uits = Some du"
    and dU: "distinct (u # foot_items N ?h uits)"
    and sep: "p \<notin> set (u # foot_items N ?h uits) \<and> c0 \<notin> set (u # foot_items N ?h uits)"
    and g: "h_getitem ?h p ''internal'' = Some (HRef c0)" and c0l: "c0 < length ?h"
    and st0: "h_setattr ?h p ''internal'' [''ipython''] (HBool (is_using_ipython e)) = Inr ?h"
    using first_load_heap [OF cu wu ki run] by blast
  from first_load_fixpoint [OF cu wu np ki] have wA: "wf_dict ?A" and nA: "no_plain_items ?A"
    and sA: "addict_merge ?A du = ?A" by simp_all
  obtain b N' where pk: "h_getitem ?h p k = Some (HRef b)" and mk: "map_of uits k = Some (HRef b)"
    and N: "N = Suc N'" and rb: "read_val N ?h (HRef b) = Some (VDict kk dk)"
    using first_load_section [OF cu wu kd kc run hu ou ru] by blast
  have ku: "ku = AddictDict" using np by simp
  have uk: "h_getitem ?h u k = Some (HRef b)" using ou mk by (simp add: h_getitem_obj)
  from read_items_map_of [OF r, of k] pk o rb kd have Ak: "map_of ?A k = map_of du k"
    by (simp add: h_getitem_obj)
  have wx: "wf_val x" and nx: "no_plain x" using read0_scalar [OF vx] by simp_all
  have kdu: "k \<in> set (map fst du)" using kd by (metis image_eqI fst_conv map_of_SomeD set_map)
  from store_both_trees [OF o r wA dA ou [unfolded ku] ru _ dU pk uk _ vx st] wu ku N
  obtain A' U' where sa: "setattr_path ?A k [j] x = Inr A'" and su: "setattr_path du k [j] x = Inr U'"
    and pa: "setattr_post N ?h p sits4 k A' h5" and pu: "setattr_post N ?h u uits k U' h5" by auto
  from shared_store_stable [OF sa su Ak kdu sA wA _ nA wx nx] wu ku
  have sA': "addict_merge A' U' = A'" and wA': "wf_dict A'" and nA': "no_plain_items A'"
    and wU': "wf_dict U'" by simp_all
  from pa obtain sits5 where o5: "obj h5 p = Some (HDict AddictDict sits5)"
    and r5: "read_items N h5 sits5 = Some A'" unfolding setattr_post_def by blast
  from pu obtain uits5 where ou5: "obj h5 u = Some (HDict AddictDict uits5)"
    and ru5: "read_items N h5 uits5 = Some U'" unfolding setattr_post_def by blast
  from probe_idle_after_store [OF pu sep obj_length [OF o] c0l g st0]
  have op: "obj h5 p = obj ?h p"
    and st5: "h_setattr h5 p ''internal'' [''ipython''] (HBool (is_using_ipython e)) = Inr h5" by simp_all
  have "h_get_config e (s1\<lparr>hs_heap := h5\<rparr>)
      = Some (s1\<lparr>hs_heap := h5\<rparr>\<lparr>hs_stdout := hs_stdout s1 @ [''First time load of config'']\<rparr>, Inr (hs_config s1))"
    using repeat_noop [of e "VDict ku du" "s1\<lparr>hs_heap := h5\<rparr>" u sits5 N A' AddictDict uits5 U']
      cu nd hu o5 r5 wA' nA' ou5 ru5 wU' sA' st5 pp by simp
  with nested_store_item [OF st pk op] pp show ?thesis by blast
qed

theorem h_caller_store_survives_witness:
  "(\<exists>b. h_getitem sweep_stored (hs_config sweep_loaded) ''sweep'' = Some (HRef b)
        \<and> h_getitem sweep_stored b ''n'' = Some (HInt 7))
   \<and> h_get_config sweep_env (sweep_loaded\<lparr>hs_heap := sweep_stored\<rparr>)
       = Some (sweep_loaded\<lparr>hs_heap := sweep_stored,
                 hs_stdout := hs_stdout sweep_loaded @ [''First time load of config'']\<rparr>,
               Inr (hs_config sweep_loaded))"
  by (rule h_caller_store_survives [where ku = AddictDict and du = "[(''sweep'', VDict AddictDict [(''n'', VInt 3)])]"
        and kk = AddictDict and dk = "[(''n'', VInt 3)]" and x = "VInt 7",
        OF _ _ _ _ _ _ sweep_loaded_run _ sweep_stored_run])
     (simp_all add: sweep_env_def default_config_def)


subsection \<open>A section stored into itself makes the next call recurse without end\<close>

text \<open>C15. After a successful first load from a fresh import whose override begins
  with a section of scalar settings that the defaults lack, a caller stores that
  section into itself, \<^verbatim>\<open>config.k.j = config.k\<close>. The section is the object
  \<^verbatim>\<open>config\<close> and \<^verbatim>\<open>config_user.config\<close> share, so the next \<^verbatim>\<open>get_config()\<close> merges
  it into itself: \<^verbatim>\<open>Dict.update\<close> meets \<open>j\<close>, whose value is a dictionary on both
  sides, and calls itself on the same object and argument again. The call does not
  return (in Python it ends in RecursionError).\<close>

theorem h_self_reference_diverges:
  assumes cu: "config_user e = UserModule (VDict ku ((k, VDict kk dk) # rest))"
    and wu: "wf_val (VDict ku ((k, VDict kk dk) # rest))"
    and ki: "map_of ((k, VDict kk dk) # rest) ''internal'' = None"
    and kc: "map_of default_config k = None"
    and sc: "\<forall>(i, x) \<in> set dk. \<forall>kd d. x \<noteq> VDict kd d"
    and run: "h_get_config e (h_exec_module None) = Some (s1, Inr p)"
    and pk: "h_getitem (hs_heap s1) p k = Some (HRef b)"
    and st: "h_setattr (hs_heap s1) p k [j] (HRef b) = Inr h5"
  shows "h_get_config e (s1\<lparr>hs_heap := h5\<rparr>) = None"
proof -
  let ?du = "(k, VDict kk dk) # rest" and ?h = "hs_heap s1"
  obtain u N sits4 uits c0 where nd: "\<not> hs_defined s1" and hu: "hs_user s1 = Some (HRef u)"
    and pp: "p = hs_config s1" and ou: "obj ?h u = Some (HDict ku uits)"
    and ru: "read_items N ?h uits = Some ?du" and dU: "distinct (u # foot_items N ?h uits)"
    and sep: "p \<notin> set (u # foot_items N ?h uits) \<and> c0 \<notin> set (u # foot_items N ?h uits)"
    using first_load_heap [OF cu wu ki run] by blast
  obtain b' N' where pk': "h_getitem ?h p k = Some (HRef b')" and mk: "map_of uits k = Some (HRef b')"
    and N: "N = Suc N'" and rb: "read_val N ?h (HRef b') = Some (VDict kk dk)"
    and bf: "b' \<in> set (foot_items N ?h uits)"
    using first_load_section [OF cu wu _ kc run hu ou ru] by auto
  have bb: "b' = b" using pk pk' by simp
  obtain bits where ob: "obj ?h b = Some (HDict AddictDict bits)" and h5: "h5 = h_setitem ?h b j (HRef b)"
    using st pk by (auto split: if_splits option.splits hobj.splits dkind.splits)
  with rb N bb have rbits: "read_items N' ?h bits = Some dk" by simp
  from self_store_cycle [OF ob rbits _ sc] wu h5
  have ob5: "obj h5 b = Some (HDict AddictDict (alist_set bits j (HRef b)))"
    and loop: "h_merge h5 b (alist_set bits j (HRef b)) = None" by simp_all
  have pb: "p \<noteq> b" and ub: "u \<noteq> b" using sep dU bf bb by auto
  have ou5: "obj h5 u = Some (HDict ku uits)" using h5 ob ub ou by (simp add: h_setitem_obj)
  have "obj h5 p = obj ?h p" using h5 ob pb by (simp add: h_setitem_obj)
  then have pk5: "h_getitem h5 p k = Some (HRef b)" using pk by (simp add: h_getitem_def)
  have keys: "map fst uits = map fst ?du" using read_items_keys [OF ru] by simp
  then obtain w0 uits' where "uits = (k, w0) # uits'" by (cases uits) auto
  with mk bb have uits: "uits = (k, HRef b) # uits'" by simp
  have du: "distinct (map fst uits)" using wu keys by simp
  have "h_merge h5 p uits = None" using h_merge_addict [OF pk5 ob5 ob5] loop uits by simp
  then have "h_update h5 p (HRef u) = None" using ou5 plain_update_Nil [OF du] by (simp add: h_update_def)
  with nd hu cu pp show ?thesis
    by (simp add: h_get_config_def h_import_config_user_def Let_def del: h_setattr.simps)
qed

lemma sweep_cyclic_run:
  "h_setattr (hs_heap sweep_loaded) (hs_config sweep_loaded) ''sweep'' [''me''] (HRef 6) = Inr sweep_cyclic"
  by code_simp

theorem h_self_reference_diverges_witness:
  "h_get_config sweep_env (sweep_loaded\<lparr>hs_heap := sweep_cyclic\<rparr>) = None"
proof -
  have pk: "h_getitem (hs_heap sweep_loaded) (hs_config sweep_loaded) ''sweep'' = Some (HRef 6)"
    by code_simp
  show ?thesis
    by (rule h_self_reference_diverges [where ku = AddictDict and k = "''sweep''" and kk = AddictDict
          and dk = "[(''n'', VInt 3)]" and rest = "[]", OF _ _ _ _ _ sweep_loaded_run pk sweep_cyclic_run])
       (simp_all add: sweep_env_def default_config_def)
qed

end
