(* ===== verification/Concurrent.thy ===== *)
theory Concurrent
  imports GetConfig
begin

text \<open>
  Concurrent first calls of \<^verbatim>\<open>get_config\<close> (specification, section 5). Python threads
  switch between statements, so a call is a sequence of steps: the print (line 147),
  one step per iteration of the loop of \<^verbatim>\<open>Dict.update\<close> at line 151 (one top-level
  item of \<^verbatim>\<open>config_user.config\<close>, merged into \<^verbatim>\<open>config\<close> or stored), and the probe's
  store into \<^verbatim>\<open>config.internal.ipython\<close> (line 154). The flag test does not write and
  the import of \<^verbatim>\<open>config_user\<close> runs its module once under the import lock, so neither
  changes the state. \<open>first_load_steps\<close> is one thread's first load, \<open>tstep_apply\<close>
  one step, and \<open>run_steps\<close> a run of steps; the interleavings of two threads are the
  library's \<open>shuffles\<close> of their step lists.
\<close>

datatype tstep = TPrint | TMerge string pyval | TStore

definition first_load_steps :: "pydict \<Rightarrow> tstep list" where
  "first_load_steps u = TPrint # map (\<lambda>(k, v). TMerge k v) u @ [TStore]"

text \<open>The probe's store, which leaves \<^verbatim>\<open>config\<close> as it was when it raises.\<close>

definition store_ipython :: "env \<Rightarrow> pydict \<Rightarrow> pydict" where
  "store_ipython e c =
     (case setattr_path c ''internal'' [''ipython''] (VBool (is_using_ipython e)) of
        Inl _ \<Rightarrow> c
      | Inr c' \<Rightarrow> c')"

fun tstep_apply :: "env \<Rightarrow> modstate \<Rightarrow> tstep \<Rightarrow> modstate" where
  "tstep_apply e s TPrint = s\<lparr>stdout := stdout s @ [''First time load of config'']\<rparr>"
| "tstep_apply e s (TMerge k v) = s\<lparr>config := alist_set (config s) k (merge_value (map_of (config s) k) v)\<rparr>"
| "tstep_apply e s TStore = s\<lparr>config := store_ipython e (config s)\<rparr>"

definition run_steps :: "env \<Rightarrow> modstate \<Rightarrow> tstep list \<Rightarrow> modstate" where
  "run_steps e s zs = fold (\<lambda>st s. tstep_apply e s st) zs s"

text \<open>The state of \<^verbatim>\<open>config\<close> when one thread has run \<open>p\<close> of its steps and the
  other \<open>q\<close>: before either store, the table merged with the longest prefix of the
  override either thread has merged; after a store, the stored table or the merged
  one; after both stores, the stored table.\<close>

definition merges_done :: "nat \<Rightarrow> nat \<Rightarrow> nat" where
  "merges_done n p = min (p - 1) n"

definition conc_inv :: "env \<Rightarrow> pydict \<Rightarrow> nat \<Rightarrow> nat \<Rightarrow> pydict \<Rightarrow> bool" where
  "conc_inv e u p q c =
     (let n = length u; m = addict_merge default_config u; f = store_ipython e m in
      if p = n + 2 \<and> q = n + 2 then c = f
      else if p = n + 2 \<or> q = n + 2 then c = f \<or> c = m
      else c = addict_merge default_config (take (max (merges_done n p) (merges_done n q)) u))"

subsection \<open>The merge one item at a time\<close>

lemma addict_merge_append:
  "addict_merge d (xs @ ys) = addict_merge (addict_merge d xs) ys"
  by (induction xs arbitrary: d) (auto simp: addict_merge_Cons)

lemma addict_merge_take_Suc:
  assumes "i < length u" and "u ! i = (k, v)"
  shows "alist_set (addict_merge d (take i u)) k (merge_value (map_of (addict_merge d (take i u)) k) v)
           = addict_merge d (take (Suc i) u)"
  using assms by (simp add: take_Suc_conv_app_nth addict_merge_append addict_merge_Cons)

lemma addict_merge_take_again:
  assumes wd: "wf_dict d" and wu: "wf_dict u" and i: "i < m" "m \<le> length u" and ui: "u ! i = (k, v)"
  shows "alist_set (addict_merge d (take m u)) k (merge_value (map_of (addict_merge d (take m u)) k) v)
           = addict_merge d (take m u)"
proof -
  have dt: "distinct (map fst (take m u))" using wu by (simp add: take_map [symmetric])
  have "(k, v) \<in> set (take m u)" using i ui by (metis in_set_conv_nth length_take min.absorb2 nth_take)
  then have t: "map_of (take m u) k = Some v" using dt by simp
  have wv: "wf_val v" using wu \<open>(k, v) \<in> set (take m u)\<close> by (auto simp: list_all_iff dest: in_set_takeD)
  have wo: "\<And>x. map_of d k = Some x \<Longrightarrow> wf_val x" using wd by (auto intro: wf_map_of [of AddictDict])
  have "merge_value (Some (merge_value (map_of d k) v)) v = merge_value (map_of d k) v"
  proof (rule merge_value_idem [OF wv wo])
    fix kv vi d' assume "v = VDict kv vi" and "wf_dict d'"
    with wv show "addict_merge (addict_merge d' vi) vi = addict_merge d' vi"
      using addict_merge_idem [of d' vi] by simp
  qed
  moreover have "map_of (addict_merge d (take m u)) k = Some (merge_value (map_of d k) v)"
    using t by (simp add: map_of_addict_merge [OF dt])
  ultimately show ?thesis by (simp add: alist_set_present)
qed

subsection \<open>The probe's store and a later merge\<close>

lemma setattr_again:
  "setattr_path c a [b] v = Inr c' \<Longrightarrow> setattr_path c' a [b] v = Inr c'"
  by (auto simp: alist_set_present split: if_splits option.splits pyval.splits dkind.splits)

lemma store_ipython_twice: "store_ipython e (store_ipython e c) = store_ipython e c"
proof (cases "setattr_path c ''internal'' [''ipython''] (VBool (is_using_ipython e))")
  case (Inl err)
  then show ?thesis by (simp add: store_ipython_def del: setattr_path.simps)
next
  case (Inr c')
  with setattr_again [OF Inr] show ?thesis by (simp add: store_ipython_def del: setattr_path.simps)
qed

lemma merge_value_scalar_old:
  "(case old of VDict _ _ \<Rightarrow> False | _ \<Rightarrow> True) \<Longrightarrow> merge_value (Some old) w = w"
  by (auto simp: merge_value_def split: pyval.split dkind.split)

text \<open>A merge step after the probe's store, of an item the merged table already
  holds: it changes nothing, or it gives \<^verbatim>\<open>internal.ipython\<close> the override's value
  back, which is the merged table itself.\<close>

lemma merge_after_store:
  assumes wu: "wf_dict u" and kv: "(k, v) \<in> set u"
    and st: "setattr_path (addict_merge default_config u) ''internal'' [''ipython''] (VBool b) = Inr f"
  shows "alist_set f k (merge_value (map_of f k) v) = f
       \<or> alist_set f k (merge_value (map_of f k) v) = addict_merge default_config u"
proof -
  let ?M = "addict_merge default_config u"
  have du: "distinct (map fst u)" using wu by simp
  have uk: "map_of u k = Some v" using kv du by simp
  have Mk: "map_of ?M k = Some (merge_value (map_of default_config k) v)"
    using uk by (simp add: map_of_addict_merge [OF du])
  show ?thesis
  proof (cases "k = ''internal''")
    case False
    with setattr_path_other [OF st] Mk have "map_of f k = Some (merge_value (map_of default_config k) v)"
      by simp
    moreover obtain i where i: "i < length u" "u ! i = (k, v)" using kv by (auto simp: in_set_conv_nth)
    have "merge_value (Some (merge_value (map_of default_config k) v)) v = merge_value (map_of default_config k) v"
      using addict_merge_take_again [OF wf_default_config wu i(1) order_refl i(2)] Mk
      by (metis map_of_alist_set fun_upd_same option.inject take_all_iff order_refl)
    ultimately show ?thesis by (simp add: alist_set_present)
  next
    case True
    obtain Mi where Mi: "map_of ?M ''internal'' = Some (VDict AddictDict Mi)"
      and f: "f = alist_set ?M ''internal'' (VDict AddictDict (alist_set Mi ''ipython'' (VBool b)))"
      using st Mk True by (auto split: if_splits option.splits pyval.splits dkind.splits)
    from Mk True Mi default_internal obtain kv' vi where v: "v = VDict kv' vi"
      and Mi_eq: "Mi = addict_merge internal_defaults vi"
      by (auto simp: merge_value_def split: pyval.splits)
    have wvi: "wf_dict vi" using wf_map_of [OF wu uk] v by simp
    have wi: "wf_dict internal_defaults"
      using wf_map_of [OF wf_default_config default_internal] by simp
    have stable: "addict_merge Mi vi = Mi" using Mi_eq addict_merge_idem [OF wi wvi] by simp
    have dMi: "distinct (map fst Mi)" using wf_addict_merge [OF wi wvi] Mi_eq by simp
    have fk: "map_of f k = Some (VDict AddictDict (alist_set Mi ''ipython'' (VBool b)))" using f True by simp
    have step: "merge_value (map_of f k) v
        = VDict AddictDict (alist_set Mi ''ipython''
            (case map_of vi ''ipython'' of None \<Rightarrow> VBool b | Some w \<Rightarrow> merge_value (Some (VBool b)) w))"
      using fk v addict_merge_alist_set_stable [OF stable dMi] wvi by (simp add: merge_value_def)
    show ?thesis
    proof (cases "map_of vi ''ipython''")
      case None
      with step fk show ?thesis by (simp add: alist_set_present)
    next
      case (Some w)
      have "map_of Mi ''ipython'' = Some w"
        using Some Mi_eq wvi by (simp add: map_of_addict_merge internal_defaults_def merge_value_def)
      moreover have "merge_value (Some (VBool b)) w = w" by (simp add: merge_value_scalar_old)
      ultimately show ?thesis using step Some f True Mi
        by (auto simp: alist_set_present)
    qed
  qed
qed

subsection \<open>Two threads\<close>

lemma first_load_steps_nth:
  "first_load_steps u ! 0 = TPrint"
  "i < length u \<Longrightarrow> first_load_steps u ! Suc i = TMerge (fst (u ! i)) (snd (u ! i))"
  "first_load_steps u ! Suc (length u) = TStore"
  "length (first_load_steps u) = length u + 2"
  by (simp_all add: first_load_steps_def nth_append case_prod_beta)

lemma conc_inv_sym: "conc_inv e u p q c = conc_inv e u q p c"
  by (auto simp: conc_inv_def Let_def max.commute)

lemma store_merged_cases:
  "store_ipython e (addict_merge default_config u) = addict_merge default_config u
   \<or> setattr_path (addict_merge default_config u) ''internal'' [''ipython''] (VBool (is_using_ipython e))
       = Inr (store_ipython e (addict_merge default_config u))"
  by (auto simp: store_ipython_def simp del: setattr_path.simps split: sum.split)

lemma merge_after_store_any:
  assumes "wf_dict u" and "(k, v) \<in> set u"
    and "c = store_ipython e (addict_merge default_config u) \<or> c = addict_merge default_config u"
  shows "alist_set c k (merge_value (map_of c k) v) = store_ipython e (addict_merge default_config u)
       \<or> alist_set c k (merge_value (map_of c k) v) = addict_merge default_config u"
proof -
  obtain i where i: "i < length u" "u ! i = (k, v)" using assms(2) by (auto simp: in_set_conv_nth)
  have again: "alist_set (addict_merge default_config u) k (merge_value (map_of (addict_merge default_config u) k) v)
      = addict_merge default_config u"
    using addict_merge_take_again [OF wf_default_config assms(1) i(1) order_refl i(2)] by simp
  from store_merged_cases [of e u] assms(3) again show ?thesis
    using merge_after_store [OF assms(1,2)] by auto
qed

lemma conc_step:
  assumes wu: "wf_dict u" and p: "p < length u + 2" and q: "q \<le> length u + 2"
    and inv: "conc_inv e u p q (config s)"
  shows "conc_inv e u (Suc p) q (config (tstep_apply e s (first_load_steps u ! p)))"
proof -
  let ?n = "length u" and ?M = "addict_merge default_config u"
  let ?F = "store_ipython e ?M"
  consider (print) "p = 0" | (merge) i where "p = Suc i" "i < ?n" | (store) "p = Suc ?n"
    using p by (cases p) (auto simp: less_Suc_eq)
  then show ?thesis
  proof cases
    case print
    with inv show ?thesis by (simp add: first_load_steps_nth conc_inv_def Let_def merges_done_def)
  next
    case (merge i)
    obtain k v where ui: "u ! i = (k, v)" by fastforce
    then have kv: "(k, v) \<in> set u" using merge(2) by (metis nth_mem)
    have st: "config (tstep_apply e s (first_load_steps u ! p))
        = alist_set (config s) k (merge_value (map_of (config s) k) v)"
      using merge ui by (simp add: first_load_steps_nth)
    show ?thesis
    proof (cases "q = ?n + 2")
      case True
      with inv merge have "config s = ?F \<or> config s = ?M" by (simp add: conc_inv_def Let_def)
      from merge_after_store_any [OF wu kv this] st True merge show ?thesis
        by (simp add: conc_inv_def Let_def)
    next
      case False
      let ?m = "max i (merges_done ?n q)"
      have mq: "merges_done ?n q \<le> ?n" by (simp add: merges_done_def)
      from inv False merge have c: "config s = addict_merge default_config (take ?m u)"
        by (simp add: conc_inv_def Let_def merges_done_def)
      show ?thesis
      proof (cases "i < merges_done ?n q")
        case True
        then have "?m = merges_done ?n q" and "max (Suc i) (merges_done ?n q) = merges_done ?n q" by simp_all
        with addict_merge_take_again [OF wf_default_config wu True mq ui] c st False merge
        show ?thesis by (simp add: conc_inv_def Let_def merges_done_def)
      next
        case False
        then have "?m = i" and "max (Suc i) (merges_done ?n q) = Suc i" by simp_all
        with addict_merge_take_Suc [OF merge(2) ui, of default_config] c st \<open>q \<noteq> ?n + 2\<close> merge
        show ?thesis by (simp add: conc_inv_def Let_def merges_done_def)
      qed
    qed
  next
    case store
    have st: "config (tstep_apply e s (first_load_steps u ! p)) = store_ipython e (config s)"
      using store by (simp add: first_load_steps_nth)
    show ?thesis
    proof (cases "q = ?n + 2")
      case True
      with inv store have "config s = ?F \<or> config s = ?M" by (simp add: conc_inv_def Let_def)
      with st True store show ?thesis by (auto simp: conc_inv_def Let_def store_ipython_twice)
    next
      case False
      have "merges_done ?n q \<le> ?n" by (simp add: merges_done_def)
      with inv False store have "config s = ?M"
        by (simp add: conc_inv_def Let_def merges_done_def max_def)
      with st False store show ?thesis by (simp add: conc_inv_def Let_def)
    qed
  qed
qed

lemma run_steps_Cons [simp]: "run_steps e s (z # zs) = run_steps e (tstep_apply e s z) zs"
  by (simp add: run_steps_def)

lemma run_steps_Nil [simp]: "run_steps e s [] = s"
  by (simp add: run_steps_def)

lemma conc_run:
  assumes "zs \<in> shuffles (drop p (first_load_steps u)) (drop q (first_load_steps u))"
    and "wf_dict u" and "p \<le> length u + 2" and "q \<le> length u + 2"
    and "conc_inv e u p q (config s)"
  shows "config (run_steps e s zs) = store_ipython e (addict_merge default_config u)"
  using assms
proof (induction zs arbitrary: p q s)
  case Nil
  then have "p = length u + 2" and "q = length u + 2" by (simp_all add: first_load_steps_nth)
  with Nil.prems(5) show ?case by (simp add: conc_inv_def)
next
  case (Cons z zs)
  let ?T = "first_load_steps u"
  have tl: "tl (drop r ?T) = drop (Suc r) ?T" for r by (simp add: drop_Suc tl_drop)
  from Cons.prems(1) consider
      (left) "p < length u + 2" "z = ?T ! p" "zs \<in> shuffles (drop (Suc p) ?T) (drop q ?T)"
    | (right) "q < length u + 2" "z = ?T ! q" "zs \<in> shuffles (drop p ?T) (drop (Suc q) ?T)"
    by (auto simp: Cons_in_shuffles_iff tl hd_drop_conv_nth first_load_steps_nth)
  then show ?case
  proof cases
    case left
    with conc_step [OF Cons.prems(2) left(1) Cons.prems(4,5)] Cons.prems(2,4) show ?thesis
      by (simp add: Cons.IH)
  next
    case right
    from Cons.prems(5) have "conc_inv e u q p (config s)" by (simp add: conc_inv_sym)
    from conc_step [OF Cons.prems(2) right(1) Cons.prems(3) this] have
      "conc_inv e u p (Suc q) (config (tstep_apply e s (?T ! q)))" by (simp add: conc_inv_sym)
    with right Cons.prems(2,3) show ?thesis by (simp add: Cons.IH)
  qed
qed

lemma run_steps_stdout:
  "stdout (run_steps e s zs) = stdout s @ replicate (length (filter (\<lambda>z. z = TPrint) zs)) ''First time load of config''"
proof (induction zs arbitrary: s)
  case (Cons z zs)
  then show ?case by (cases z) (simp_all add: replicate_append_same)
qed simp

lemma first_load_config:
  assumes "config_user e = UserModule (VDict kd u)" and "wf_val (VDict kd u)"
  shows "config (fst (get_config e fresh_module)) = store_ipython e (addict_merge default_config u)"
  using assms
  by (simp add: get_config_def fresh_module_def exec_module_def import_config_user_def addict_update_dict
      store_ipython_def Let_def del: setattr_path.simps split: sum.split)

subsection \<open>The race of two first calls\<close>

text \<open>C20. Two threads that call \<^verbatim>\<open>get_config()\<close> at the same time on a freshly
  imported module, interleaved at any statement of the first load (the print, each
  iteration of \<^verbatim>\<open>Dict.update\<close>'s loop, the probe's store), leave \<^verbatim>\<open>config\<close> exactly
  as one call does, and print the first-load line twice. The race of the
  specification's section 5 is harmless: running the merge twice, interleaved
  with itself and with the other thread's store, changes nothing, because each
  item's merge is idempotent and a later store puts the probe's answer back.\<close>

theorem concurrent_first_loads:
  assumes cu: "config_user e = UserModule (VDict kd u)" and wu: "wf_val (VDict kd u)"
    and zs: "zs \<in> shuffles (first_load_steps u) (first_load_steps u)"
  shows "config (run_steps e fresh_module zs) = config (fst (get_config e fresh_module))
       \<and> stdout (run_steps e fresh_module zs) = [''First time load of config'', ''First time load of config'']"
proof
  have wd: "wf_dict u" using wu by simp
  have "conc_inv e u 0 0 (config fresh_module)"
    by (simp add: conc_inv_def merges_done_def fresh_module_def exec_module_def)
  with conc_run [of zs 0 u 0] zs wd first_load_config [OF cu wu]
  show "config (run_steps e fresh_module zs) = config (fst (get_config e fresh_module))" by simp
next
  have T: "filter (\<lambda>z. z = TPrint) (first_load_steps u) = [TPrint]"
    by (auto simp: first_load_steps_def filter_empty_conv)
  have "filter (\<lambda>z. z = TPrint) zs \<in> filter (\<lambda>z. z = TPrint) ` shuffles (first_load_steps u) (first_load_steps u)"
    using zs by (rule imageI)
  then have "filter (\<lambda>z. z = TPrint) zs \<in> shuffles [TPrint] [TPrint]"
    by (simp only: filter_shuffles T)
  then have "length (filter (\<lambda>z. z = TPrint) zs) = 2" by (auto dest: length_shuffles)
  then show "stdout (run_steps e fresh_module zs) = [''First time load of config'', ''First time load of config'']"
    by (simp add: run_steps_stdout fresh_module_def exec_module_def numeral_2_eq_2)
qed

theorem concurrent_first_loads_witness:
  "config (run_steps spec_example_env fresh_module
      [TPrint, TMerge ''dissipation'' (VDict AddictDict [(''epsi'', VInt 12)]), TPrint, TStore,
       TMerge ''dissipation'' (VDict AddictDict [(''epsi'', VInt 12)]), TStore])
     = config (fst (get_config spec_example_env fresh_module))
   \<and> stdout (run_steps spec_example_env fresh_module
      [TPrint, TMerge ''dissipation'' (VDict AddictDict [(''epsi'', VInt 12)]), TPrint, TStore,
       TMerge ''dissipation'' (VDict AddictDict [(''epsi'', VInt 12)]), TStore])
     = [''First time load of config'', ''First time load of config'']"
proof -
  let ?u = "[(''dissipation'', VDict AddictDict [(''epsi'', VInt 12)])]"
  have T: "first_load_steps ?u = [TPrint, TMerge ''dissipation'' (VDict AddictDict [(''epsi'', VInt 12)]), TStore]"
    by (simp add: first_load_steps_def)
  have zs: "[TPrint, TMerge ''dissipation'' (VDict AddictDict [(''epsi'', VInt 12)]), TPrint, TStore,
       TMerge ''dissipation'' (VDict AddictDict [(''epsi'', VInt 12)]), TStore]
     \<in> shuffles (first_load_steps ?u) (first_load_steps ?u)"
    unfolding T
    by (rule Cons_in_shuffles_leftI, rule Cons_in_shuffles_leftI, rule Cons_in_shuffles_rightI,
        rule Cons_in_shuffles_leftI, rule Cons_in_shuffles_rightI, rule Cons_in_shuffles_rightI) simp
  have "config_user spec_example_env = UserModule (VDict AddictDict ?u)" and "wf_val (VDict AddictDict ?u)"
    by (simp_all add: spec_example_env_def)
  from concurrent_first_loads [OF this zs] show ?thesis .
qed

end
