(* ===== verification/Spec2Isabelle.thy ===== *)
theory Spec2Isabelle
  imports Process HeapPersist Concurrent
begin

text \<open>
  \<^bold>\<open>A verification development for pyEPR's default configuration module.\<close>

  \<^bold>\<open>The program.\<close> \<^verbatim>\<open>src/pyEPR/_config_default.py\<close> is the one source file. It
  builds, at import, a module-level \<^verbatim>\<open>config\<close>: an addict \<^verbatim>\<open>Dict\<close> holding
  \<^verbatim>\<open>root_dir\<close> and the sections \<^verbatim>\<open>ansys\<close>, \<^verbatim>\<open>dissipation\<close>, \<^verbatim>\<open>plotting\<close>,
  \<^verbatim>\<open>internal\<close> and \<^verbatim>\<open>log\<close> (lines 20--113). It records in
  \<^verbatim>\<open>__config_defined__\<close> whether a \<^verbatim>\<open>config\<close> already existed in the module
  namespace (lines 16--17), and it offers the probe \<^verbatim>\<open>is_using_ipython\<close>
  (lines 116--126) and the accessor \<^verbatim>\<open>get_config\<close> (lines 129--155). On a first
  load the accessor prints a line and imports the package's \<^verbatim>\<open>config_user\<close>
  module. It merges \<^verbatim>\<open>config_user.config\<close> into \<^verbatim>\<open>config\<close> with
  \<^verbatim>\<open>Dict.update\<close>, stores the probe's answer in \<^verbatim>\<open>config.internal.ipython\<close>,
  and returns \<^verbatim>\<open>config\<close>. Otherwise it prints another line and returns
  \<^verbatim>\<open>config\<close>. The rest of the package reads the returned shared object.

  \<^bold>\<open>The theories.\<close>
  \<^item> \<open>Prelude\<close>: association lists as Python's insertion-ordered dictionaries
    (\<open>alist_set\<close> is \<^verbatim>\<open>d[k] = v\<close>, \<open>add_key\<close> its effect on the key order),
    with lookup, key-order and extensionality lemmas.
  \<^item> \<open>PyDict\<close>: the values (\<open>pyval\<close>, with addict \<open>Dict\<close>s and plain \<open>dict\<close>s
    told apart) and the library operations the source calls, modelled from
    addict's behaviour because that library is not in the repository:
    \<^verbatim>\<open>dict.update\<close> (\<open>plain_update\<close>), the argument copy of \<^verbatim>\<open>Dict.update\<close>
    (\<open>dict_items\<close>, with its TypeError and ValueError), the recursive merge
    (\<open>addict_merge\<close>, \<open>addict_update\<close>), and attribute stores through
    \<^verbatim>\<open>__getattr__\<close>/\<^verbatim>\<open>__missing__\<close>/\<^verbatim>\<open>__setattr__\<close>
    (\<open>setattr_path\<close>). Which names \<^verbatim>\<open>__setattr__\<close> rejects (\<^verbatim>\<open>hasattr(Dict, a)\<close>,
    \<open>dict_class_attrs\<close>) and which names instance lookup finds before
    \<^verbatim>\<open>__getattr__\<close> (\<open>dict_getattr_attrs\<close>) are listed for CPython 3.11 with addict
    2.4.0. Its lemmas give the merge's key order and per-key
    result, show that it and the stores keep values well-formed (distinct keys),
    prove the merge idempotent, and give a store's read-back.
  \<^item> \<open>ConfigDefault\<close>: the default table, one definition per section
    (\<open>ansys_defaults\<close> \<dots> \<open>log_defaults\<close>, \<open>default_config\<close>), and the
    specification's data invariant \<open>has_sections\<close>.
  \<^item> \<open>GetConfig\<close>: the module state \<open>modstate\<close> (\<^verbatim>\<open>config\<close>,
    \<^verbatim>\<open>__config_defined__\<close>, printed lines). It also holds the module body
    (\<open>exec_module\<close>, lines 14--20), the probe (\<open>is_using_ipython\<close> over
    the builtins of an \<open>env\<close>), the import of the override
    (\<open>import_config_user\<close>) and the accessor \<open>get_config\<close>. The accessor
    returns the state together with \<open>Inl\<close> of the escaping exception or
    \<open>Inr\<close> of the returned object, so a failure after the merge keeps the merged
    state.
  \<^item> \<open>Process\<close>: a process as a step function over events (import, reload,
    \<^verbatim>\<open>get_config\<close>, a caller's attribute store into the returned object), the
    inductive set of reachable states, and invariants by rule induction.
  \<^item> \<open>Heap\<close>: an object store for the same program. A \<open>heap\<close> is a list of
    dictionary objects (\<open>hobj\<close>) addressed by position; a value (\<open>hval\<close>) is a
    scalar or a reference \<open>HRef a\<close>. \<open>alloc\<close> appends a fresh object,
    \<open>h_getitem\<close>/\<open>h_setitem\<close> are \<^verbatim>\<open>d[k]\<close> and \<^verbatim>\<open>d[k] = v\<close> on an object,
    \<open>alloc_val\<close> evaluates a dictionary display into fresh objects. The read-back
    \<open>read_val\<close> and the footprint \<open>foot_val\<close> (the addresses a read visits) take a
    fuel argument, the nesting depth to follow; the lemmas give the frame rule
    (\<open>heap_frame\<close>: a store outside the footprint does not change the read), fuel
    monotonicity, and that a display reads back as its value with a distinct
    footprint of fresh addresses (\<open>alloc_fresh\<close>).
  \<^item> \<open>HeapDict\<close>: addict's \<^verbatim>\<open>Dict.update\<close> on objects (\<open>h_merge\<close>,
    \<open>h_update\<close>), which merges into the receiver's nested objects in place and
    stores the argument's own values for new keys, and the attribute store
    (\<open>h_setattr\<close>), which allocates missing children. \<open>h_merge\<close> is a
    \<^theory_text>\<open>partial_function (option)\<close>: \<open>None\<close> stands for a merge that does not end,
    as on a heap whose objects form a cycle. \<open>h_merge_sep\<close> proves that the
    merge returns when receiver and argument are separate trees, and that its result
    reads back as the value model's \<open>addict_merge\<close>, with a frame and key-wise
    postcondition (\<open>merge_post\<close>). \<open>h_setattr_sep\<close> and \<open>h_update_sep\<close> do the
    same for the store and for \<^verbatim>\<open>update\<close>.
  \<^item> \<open>HeapModule\<close>: the module on the object store. \<open>hstate\<close> holds the heap,
    the address \<^verbatim>\<open>config\<close> is bound to, the flag, the printed lines and the
    imported \<^verbatim>\<open>config_user.config\<close>. \<open>h_exec_module\<close> is the module body,
    \<open>h_import_config_user\<close> the import, and \<open>h_get_config\<close> the accessor that
    returns the pointer. \<open>abs_state\<close> reads a heap state back into \<open>modstate\<close>.
  \<^item> \<open>HeapRepeat\<close>: the second call on the object store. \<open>absorbed\<close> says that the
    items of the override are already merged into an object (scalars equal, a
    dictionary absorbed into an addict \<^verbatim>\<open>Dict\<close>, the same object included).
    \<open>absorbed_merge\<close> shows that \<^verbatim>\<open>Dict.update\<close> then returns the heap unchanged.
    \<open>stable_absorbed\<close> shows that a value-level fixed point of the merge is absorbed
    when the receiver holds no plain \<^verbatim>\<open>dict\<close> (\<open>no_plain\<close>). \<open>first_load_heap\<close>
    gives the heap a first load leaves: \<^verbatim>\<open>config\<close> and the user's object read
    back as the value model's table and the override, as separate trees apart from
    the sections they share. \<open>repeat_noop\<close> says when a call on a loaded state
    changes nothing: \<^verbatim>\<open>config\<close> reads back as a fixed point of the merge of what
    \<^verbatim>\<open>config_user.config\<close> reads back as, and the probe's store finds its value.
  \<^item> \<open>HeapPersist\<close>: a caller's store into a section shared with the override,
    followed by the next call. \<open>stable_alist_set\<close> shows that a store of one value
    into the same key of a table and of its fixed-point override keeps the fixed
    point; \<open>setattr_path_local\<close> that a store into a section depends on that section
    only. \<open>h_merge_self_cycle\<close> shows, by the fixpoint induction
    \<open>h_merge.raw_induct\<close>, that merging an object into itself does not return once
    the object holds a reference to itself.
  \<^item> \<open>Concurrent\<close>: two threads' first loads, interleaved. A first load is the
    list of its statements as steps (\<open>first_load_steps\<close>: the print, one step
    per iteration of \<^verbatim>\<open>Dict.update\<close>'s loop, the probe's store, applied by
    \<open>tstep_apply\<close>). Every interleaving is a member of the library's \<open>shuffles\<close>.
    The invariant \<open>conc_inv\<close> says what \<^verbatim>\<open>config\<close> holds after each thread has run
    some of its steps.
  \<^item> this theory: properties that span the accessor and the callers.

  \<^bold>\<open>What is proved.\<close> The required top-level keys are an invariant of every
  reachable state, proved by rule induction over imports, reloads, calls and
  callers' stores (C1). The accessor's first call merges the override recursively:
  a section is merged key by key, not replaced (C2, with the specification's
  \<open>dissipation.epsi\<close> example as its witness). It keeps the key order (C10), then
  fills \<open>internal.ipython\<close> with a boolean (C3). It raises AttributeError after the
  merge when the override replaced \<open>internal\<close> (C4). It raises TypeError or
  ValueError, with no change, when the override is not a mapping (C11). It fails
  with no change when there is no override to import (C13). Sections stay
  non-empty dictionaries when the override gives them dictionaries (C12). A
  repeated call with no store in between changes nothing (C8). Any run of
  consecutive calls is equivalent to the specification's initialize-once accessor:
  same results, same final configuration (C9, a simulation between
  \<open>get_config\<close> and \<open>spec_get_config\<close> under \<open>sim_rel\<close>). The library lemmas behind
  these show that \<^verbatim>\<open>Dict.update\<close> is idempotent (\<open>addict_merge_idem\<close>) and that a
  store commutes with a later merge into a merge-stable dictionary
  (\<open>addict_merge_alist_set_stable\<close>, \<open>setattr_path_stable\<close>).

  On the object store, the first load from a fresh import returns and refines the
  value model: its state reads back as the value model's state, and the pointer it
  returns is the module's object (C14). The accessor never rebinds \<^verbatim>\<open>config\<close> or
  sets the flag, and it always returns the bound object (C18). The second call after
  a first load returns the same pointer and leaves every object of the heap as it
  was, the shared sections included (C21). A caller's store into a section the
  override added survives the next call, because it changes the override too
  (C22). A caller who stores such a section into itself makes the next call
  recurse without end (C15).

  Two concurrent first calls, interleaved at any statement, leave \<^verbatim>\<open>config\<close> as
  one call does and print the first-load line twice (C20). The specification's race
  in section 5 says the last writer to the flag wins and the merge may run twice.
  No thread writes the flag, and a second merge, even interleaved with the other
  thread's store, changes nothing.

  \<^bold>\<open>Where the code departs from its specification or its comments.\<close>
  \<^verbatim>\<open>__config_defined__\<close> is computed once, when the module body runs, and
  \<^verbatim>\<open>get_config\<close> never sets it. So in a module that was imported once, every
  call takes the first-load branch and merges the override again (C5). A caller's
  store into a key the override sets is undone by the next call (C6); stores into
  other keys that are not class attributes persist (C7). A reload sets the flag but
  rebinds \<^verbatim>\<open>config\<close> to the bare defaults, despite the comment at line 16: on the
  object store the reload binds a new object, the next call returns a pointer
  different from the one earlier callers hold, and their object is left as it was
  (C19). So the specification's identity-stable singleton holds only between
  reloads. \<^verbatim>\<open>Dict.update\<close> stores the override's own nested dictionaries for keys
  the defaults lack. \<^verbatim>\<open>config\<close> and \<^verbatim>\<open>config_user.config\<close> then share those
  objects (C16), a caller's store \<^verbatim>\<open>config.k.j = v\<close> changes
  \<^verbatim>\<open>config_user.config\<close> (C17) and survives the next call (C22), and a section
  stored into itself makes the next call diverge (C15), where Python raises
  RecursionError; the specification covers none of these.

  \<^bold>\<open>Bounds and termination.\<close> In the value model no loop can run forever. The
  merge recurses on the nesting of the override; its termination is found by
  \<^theory_text>\<open>fun\<close> from a size measure. Path stores and reads recurse on the path. On the
  object store the merge follows references, and a heap may contain cycles, so
  \<open>h_merge\<close> is a \<^theory_text>\<open>partial_function (option)\<close>. That it returns is proved under
  separation (\<open>h_merge_sep\<close>, used by C14), by induction on the read-back fuel,
  and on the heap a first load leaves (\<open>absorbed_merge\<close>, used by C21); that it
  does not return on a self-referencing section is proved by fixpoint induction
  (C15). The read-back's fuel is the nesting depth to follow; the size of the value
  read is always enough (\<open>alloc_fresh\<close>), so every result is stated for some or for
  all large enough fuel, never only for a fixed one.

  \<^bold>\<open>Not modelled.\<close>
  \<^item> The \<^verbatim>\<open>print\<close> calls are modelled only as the list of lines written.
  \<^item> Keys are strings, and values are limited to the types that occur
    (no lists, tuples or user objects).
  \<^item> Float literals are their exact decimal values, not IEEE doubles.
  \<^item> Objects nobody can reach are not allocated: the \<^verbatim>\<open>other = {}\<close> copy that
    \<^verbatim>\<open>Dict.update\<close> makes of its argument is a list of items (\<open>h_dict_items\<close>), and the
    copies addict's constructor makes of nested dictionaries in a display are not
    made, so address counts are not those of CPython.
  \<^item> Class objects are not modelled. A store \<^verbatim>\<open>d.__class__.b = v\<close>, which Python
    applies to the class \<^verbatim>\<open>Dict\<close>, is reported as AttributeError. The attribute
    lists are those of CPython 3.11 with addict 2.4.0.
  \<^item> The process of \<open>Process\<close> is a value model. For a section that the override
    adds as a dictionary, a caller's store through \<^verbatim>\<open>config\<close> also changes
    \<^verbatim>\<open>config_user.config\<close> (C17). A re-merge then merges that object into itself,
    and the store persists (C22). The value-model process would revert it. The
    claims about callers on values (C6, C7) use top-level keys or keys that the
    override does not set, where the two models agree. The object-store model
    proves the first load, the aliasing, the second call and a caller's store
    followed by a call (C21, C22), not a whole process of repeated calls on
    shared objects.
  \<^item> Repeated calls on the object store are proved for the second call after a
    first load, with or without a caller's scalar store into a shared section in
    between (C21, C22), and the divergence for a section stored into itself that
    heads the override (C15). C21 and C22 assume the override leaves \<open>internal\<close> alone and has no
    plain \<^verbatim>\<open>dict\<close>; addict's constructor turns nested \<^verbatim>\<open>dict\<close>s into
    \<^verbatim>\<open>Dict\<close>s. For a heap in general \<^verbatim>\<open>Dict.update\<close> need not return, since its
    stores can create a reference cycle. So a whole process of calls, reloads and
    callers' stores is modelled only on values (\<open>Process\<close>).
  \<^item> Concurrency is modelled at statement granularity, for two threads on a
    freshly imported module whose override imports. One iteration of
    \<^verbatim>\<open>Dict.update\<close>'s loop, including the nested update of a section, is one
    atomic step. Switches inside an iteration, between its test and its store,
    are not modelled. The object-store model is sequential.
\<close>

definition root_dir_env :: env where
  "root_dir_env =
     \<lparr>builtins = Map.empty,
      config_user = UserModule (VDict AddictDict [(''root_dir'', VStr ''D:data'')])\<rparr>"


text \<open>
  The accessor as the specification describes it (section 4.3): a two-state machine
  whose first successful call merges the override, stores the probe's answer and
  moves to INITIALIZED, after which every call returns the stored object unchanged.
  A failed call leaves the machine UNINITIALIZED, with whatever the failure left in
  the configuration.
\<close>

record spec_state =
  spec_config :: pydict
  spec_ready :: bool

definition spec_get_config :: "env \<Rightarrow> spec_state \<Rightarrow> spec_state \<times> (pyerror + pydict)" where
  "spec_get_config e t =
     (if spec_ready t then (t, Inr (spec_config t))
      else
        (case import_config_user e of
           Inl err \<Rightarrow> (t, Inl err)
         | Inr user \<Rightarrow>
             (case addict_update (spec_config t) user of
                Inl err \<Rightarrow> (t, Inl err)
              | Inr merged \<Rightarrow>
                  (case setattr_path merged ''internal'' [''ipython''] (VBool (is_using_ipython e)) of
                     Inl err \<Rightarrow> (t\<lparr>spec_config := merged\<rparr>, Inl err)
                   | Inr c \<Rightarrow> (\<lparr>spec_config = c, spec_ready = True\<rparr>, Inr c)))))"

text \<open>\<open>n\<close> consecutive calls, with no other event in between: the results in order,
  and the configuration left behind.\<close>

fun code_calls :: "env \<Rightarrow> modstate \<Rightarrow> nat \<Rightarrow> (pyerror + pydict) list \<times> pydict" where
  "code_calls e s 0 = ([], config s)"
| "code_calls e s (Suc n) =
     (let (rs, c) = code_calls e (fst (get_config e s)) n in (snd (get_config e s) # rs, c))"

fun spec_calls :: "env \<Rightarrow> spec_state \<Rightarrow> nat \<Rightarrow> (pyerror + pydict) list \<times> pydict" where
  "spec_calls e t 0 = ([], spec_config t)"
| "spec_calls e t (Suc n) =
     (let (rs, c) = spec_calls e (fst (spec_get_config e t)) n in (snd (spec_get_config e t) # rs, c))"

definition sim_rel :: "env \<Rightarrow> modstate \<Rightarrow> spec_state \<Rightarrow> bool" where
  "sim_rel e s t \<longleftrightarrow>
     config s = spec_config t \<and> \<not> config_defined s \<and> wf_dict (config s)
     \<and> (spec_ready t \<longrightarrow> (\<exists>s0. \<not> config_defined s0 \<and> wf_dict (config s0)
          \<and> get_config e s0 = (fst (get_config e s0), Inr (config s))))"

subsection \<open>Callers' stores and repeated calls\<close>

text \<open>
  C6. A caller's store into a key that the user's override also sets (to a value
  that is not a dictionary) is undone by the next \<^verbatim>\<open>get_config\<close> of a module that
  was not reloaded: the accessor merges the override again and the override's value
  comes back. The specification says modifications made after the first call
  persist.
\<close>

theorem caller_change_reset:
  assumes "\<not> config_defined s" and "config_user e = UserModule (VDict kd u)"
    and "wf_val (VDict kd u)" and "map_of u k = Some w"
    and "case w of VDict _ _ \<Rightarrow> False | _ \<Rightarrow> True" and "k \<noteq> ''internal''"
  shows "map_of (config (the (proc_run e (Some s) [CallerSetattr k [] v, CallGetConfig]))) k
           = Some w"
proof -
  let ?s1 = "caller_setattr s k [] v"
  from assms(3) have du: "distinct (map fst u)" by simp
  have nd: "\<not> config_defined ?s1"
    using assms(1) by (simp add: caller_setattr_def split: sum.split)
  have imp: "import_config_user e = Inr (VDict kd u)"
    using assms(2) by (simp add: import_config_user_def)
  have upd: "addict_update (config ?s1) (VDict kd u) = Inr (addict_merge (config ?s1) u)"
    using assms(3) by (simp add: addict_update_dict)
  from assms(5) have "merge_value old w = w" for old
    by (auto simp: merge_value_def split: option.split pyval.split dkind.split)
  with assms(4) have mk: "map_of (addict_merge (config ?s1) u) k = Some w"
    by (simp add: map_of_addict_merge [OF du])
  have "map_of (config (fst (get_config e ?s1))) k = Some w"
  proof (cases "setattr_path (addict_merge (config ?s1) u) ''internal'' [''ipython'']
                  (VBool (is_using_ipython e))")
    case (Inl err)
    with get_config_first_config [OF nd imp upd] mk show ?thesis by simp
  next
    case (Inr c)
    with get_config_first_config [OF nd imp upd] mk setattr_path_other [OF Inr assms(6)]
    show ?thesis by simp
  qed
  then show ?thesis by simp
qed

theorem caller_change_reset_witness:
  "map_of (config (the (proc_run root_dir_env (Some fresh_module)
      [CallerSetattr ''root_dir'' [] (VStr ''E:mine''), CallGetConfig]))) ''root_dir''
     = Some (VStr ''D:data'')"
proof -
  have pre: "\<not> config_defined fresh_module"
    "config_user root_dir_env = UserModule (VDict AddictDict [(''root_dir'', VStr ''D:data'')])"
    "wf_val (VDict AddictDict [(''root_dir'', VStr ''D:data'')])"
    "map_of [(''root_dir'', VStr ''D:data'')] ''root_dir'' = Some (VStr ''D:data'')"
    "case VStr ''D:data'' of VDict _ _ \<Rightarrow> False | _ \<Rightarrow> True"
    "''root_dir'' \<noteq> ''internal''"
    by (simp_all add: fresh_module_def exec_module_def root_dir_env_def)
  show ?thesis by (rule caller_change_reset [OF pre])
qed

text \<open>
  C7. A caller's store \<^verbatim>\<open>config.k = v\<close> into a top-level key that the override does
  not mention (other than \<open>internal\<close>) and that is not an attribute of the class
  (\<^verbatim>\<open>hasattr(Dict, k)\<close> is false, so addict's \<^verbatim>\<open>__setattr__\<close> stores the item)
  survives every later \<^verbatim>\<open>get_config\<close>, in either state of
  \<^verbatim>\<open>__config_defined__\<close>: the specification's "modifications persist" holds
  exactly for such keys.
\<close>

theorem caller_change_persists:
  assumes "config_user e = UserModule (VDict kd u)" and "map_of u k = None"
    and "k \<noteq> ''internal''" and "k \<notin> set dict_class_attrs"
  shows "map_of (config (the (proc_run e (Some s) [CallerSetattr k [] v, CallGetConfig]))) k
           = Some v"
proof -
  have "config (caller_setattr s k [] v) = alist_set (config s) k v"
    using assms(4) by (simp add: caller_setattr_def)
  with get_config_untouched_key [OF assms(1,2,3), of "caller_setattr s k [] v"]
  show ?thesis by simp
qed

theorem caller_change_persists_witness:
  "map_of (config (the (proc_run spec_example_env (Some fresh_module)
      [CallerSetattr ''root_dir'' [] (VStr ''E:mine''), CallGetConfig]))) ''root_dir''
     = Some (VStr ''E:mine'')"
proof -
  have pre: "config_user spec_example_env
       = UserModule (VDict AddictDict [(''dissipation'', VDict AddictDict [(''epsi'', VInt 12)])])"
    "map_of [(''dissipation'', VDict AddictDict [(''epsi'', VInt 12)])] ''root_dir'' = None"
    "''root_dir'' \<noteq> ''internal''" "''root_dir'' \<notin> set dict_class_attrs"
    by (simp_all add: spec_example_env_def dict_attrs_defs)
  show ?thesis by (rule caller_change_persists [OF pre])
qed



subsection \<open>Refinement of the specification's accessor\<close>

lemma sim_rel_stdout [simp]: "sim_rel e (s\<lparr>stdout := x\<rparr>) t = sim_rel e s t"
  by (simp add: sim_rel_def)

lemma sim_rel_step:
  assumes rel: "sim_rel e s t" and wu: "wf_user e"
  shows "snd (get_config e s) = snd (spec_get_config e t)
         \<and> sim_rel e (fst (get_config e s)) (fst (spec_get_config e t))"
proof (cases "spec_ready t")
  case True
  with rel obtain s0 where s0: "\<not> config_defined s0" "wf_dict (config s0)"
    and run0: "get_config e s0 = (fst (get_config e s0), Inr (config s))"
    and nd: "\<not> config_defined s" and cs: "config s = spec_config t"
    by (auto simp: sim_rel_def)
  have "get_config e s = (s\<lparr>stdout := stdout s @ [''First time load of config'']\<rparr>, Inr (config s))"
    by (rule first_load_stable [OF s0 wu run0 refl nd])
  with True rel cs show ?thesis by (simp add: spec_get_config_def)
next
  case False
  from rel have cs: "config s = spec_config t" and nd: "\<not> config_defined s"
    and wf: "wf_dict (config s)" unfolding sim_rel_def by blast+
  show ?thesis
  proof (cases "import_config_user e")
    case (Inl err)
    with False cs nd wf show ?thesis
      by (simp add: get_config_def spec_get_config_def sim_rel_def del: wf_val.simps(1))
  next
    case (Inr user)
    note imp = Inr
    show ?thesis
    proof (cases "addict_update (config s) user")
      case (Inl err)
      with False cs nd wf imp show ?thesis
        by (simp add: get_config_def spec_get_config_def sim_rel_def del: wf_val.simps(1))
    next
      case (Inr m)
      note upd = Inr
      have wm: "wf_dict m"
        using addict_update_wf [OF upd wf import_config_user_wf [OF wu imp]] .
      show ?thesis
      proof (cases "setattr_path m ''internal'' [''ipython''] (VBool (is_using_ipython e))")
        case (Inl err)
        with False cs nd wm imp upd show ?thesis
          by (simp add: get_config_def spec_get_config_def sim_rel_def
                   del: wf_val.simps(1) setattr_path.simps)
      next
        case (Inr c)
        have wc: "wf_dict c" using wf_setattr_path [OF Inr wm] by simp
        have run: "get_config e s = (s\<lparr>stdout := stdout s @ [''First time load of config''],
                      config := c\<rparr>, Inr c)"
          using nd imp upd Inr by (simp add: get_config_def del: setattr_path.simps)
        have spec: "spec_get_config e t = (\<lparr>spec_config = c, spec_ready = True\<rparr>, Inr c)"
          using False cs imp upd Inr by (simp add: spec_get_config_def del: setattr_path.simps)
        have "sim_rel e (s\<lparr>stdout := stdout s @ [''First time load of config''], config := c\<rparr>)
                \<lparr>spec_config = c, spec_ready = True\<rparr>"
          unfolding sim_rel_def using nd wc wf run by auto
        with run spec show ?thesis by simp
      qed
    qed
  qed
qed

lemma sim_rel_calls:
  "sim_rel e s t \<Longrightarrow> wf_user e \<Longrightarrow> code_calls e s n = spec_calls e t n"
proof (induction n arbitrary: s t)
  case 0
  then show ?case by (simp add: sim_rel_def)
next
  case (Suc n)
  from sim_rel_step [OF Suc.prems] Suc.IH [of "fst (get_config e s)" "fst (spec_get_config e t)"]
    Suc.prems(2)
  show ?case by simp
qed

text \<open>
  C9. The code's accessor refines the specification's: from a module that was not
  reloaded, any number of consecutive \<^verbatim>\<open>get_config\<close> calls returns the same
  results, in the same order, and leaves the same configuration as the
  specification's initialize-once accessor, although the code never records that it
  has initialized and merges the override on every call.
\<close>

theorem get_config_refines_spec:
  assumes "\<not> config_defined s" and "wf_dict (config s)" and "wf_user e"
  shows "code_calls e s n = spec_calls e \<lparr>spec_config = config s, spec_ready = False\<rparr> n"
proof (rule sim_rel_calls [OF _ assms(3)])
  show "sim_rel e s \<lparr>spec_config = config s, spec_ready = False\<rparr>"
    using assms(1,2) by (simp add: sim_rel_def del: wf_val.simps(1))
qed

theorem get_config_refines_spec_witness:
  "code_calls spec_example_env fresh_module 3
     = spec_calls spec_example_env \<lparr>spec_config = default_config, spec_ready = False\<rparr> 3"
proof -
  have pre: "\<not> config_defined fresh_module" "wf_dict (config fresh_module)"
    "wf_user spec_example_env"
    by (simp_all add: fresh_module_def exec_module_def wf_default_config del: wf_val.simps(1))
       (simp add: wf_user_def spec_example_env_def)
  show ?thesis
    using get_config_refines_spec [OF pre, of 3] by (simp add: fresh_module_def exec_module_def)
qed


end
